(* ===== verification/Prelude.thy ===== *)
theory Prelude
  imports Main "HOL-Library.Word" "HOL-Library.List_Lexorder"
begin

text \<open>
  Shared vocabulary of the development: machine words and byte strings, Go gslice expressions
  (\<open>xs[a:b]\<close>, \<open>copy(dst[off:], src)\<close>), the fixed-width codecs of
  \<open>encoding/binary\<close>, \<open>bytes.Compare\<close>, and \<open>hash/crc32\<close>.  The lemmas about
  them are collected in \<open>codec_simps\<close>, so that the layout proofs of the components
  (page images, headers, log records, tree nodes) are calls of the simplifier.
\<close>

unbundle bit_operations_syntax

named_theorems codec_simps \<open>reading and writing fixed-width fields of a byte buffer\<close>

type_synonym byte = "8 word"
type_synonym bytes = "8 word list"
type_synonym u16 = "16 word"
type_synonym u32 = "32 word"
type_synonym u64 = "64 word"

section \<open>Go slices\<close>

text \<open>The gslice expression \<open>xs[a:b]\<close> (in range wherever the model uses it).\<close>

definition gslice :: "nat \<Rightarrow> nat \<Rightarrow> 'a list \<Rightarrow> 'a list" where
  "gslice a b xs = take (b - a) (drop a xs)"

text \<open>\<open>copy(dst[off:], src)\<close>: overwrites \<open>dst\<close> from \<open>off\<close> on, never beyond its end.\<close>

definition copy_at :: "nat \<Rightarrow> 'a list \<Rightarrow> 'a list \<Rightarrow> 'a list" where
  "copy_at off src dst =
     take off dst @ take (length dst - off) src @ drop (off + length src) dst"

text \<open>\<open>make([]byte, n)\<close>: a zero-filled buffer.\<close>

definition zero_bytes :: "nat \<Rightarrow> bytes" where
  "zero_bytes n = replicate n 0"

section \<open>Fixed-width integers\<close>

text \<open>Big-endian: most significant byte first (\<open>binary.BigEndian\<close>).\<close>

fun put_be :: "nat \<Rightarrow> 'a::len word \<Rightarrow> bytes" where
  "put_be 0 v = []"
| "put_be (Suc n) v = put_be n (drop_bit 8 v) @ [ucast v]"

definition get_be :: "bytes \<Rightarrow> 'a::len word" where
  "get_be bs = foldl (\<lambda>acc b. push_bit 8 acc OR ucast b) 0 bs"

text \<open>Little-endian: least significant byte first (\<open>binary.LittleEndian\<close>).\<close>

definition put_le :: "nat \<Rightarrow> 'a::len word \<Rightarrow> bytes" where
  "put_le n v = rev (put_be n v)"

definition get_le :: "bytes \<Rightarrow> 'a::len word" where
  "get_le bs = get_be (rev bs)"

section \<open>Comparing byte strings\<close>

fun bytes_compare :: "bytes \<Rightarrow> bytes \<Rightarrow> int" where
  "bytes_compare [] [] = 0"
| "bytes_compare [] (b # bs) = -1"
| "bytes_compare (a # as) [] = 1"
| "bytes_compare (a # as) (b # bs) =
     (if a < b then -1 else if b < a then 1 else bytes_compare as bs)"

section \<open>CRC-32 (IEEE polynomial, reflected)\<close>

definition crc_bit :: "u32 \<Rightarrow> u32" where
  "crc_bit c = (if bit c 0 then drop_bit 1 c XOR 0xEDB88320 else drop_bit 1 c)"

definition crc_byte :: "u32 \<Rightarrow> byte \<Rightarrow> u32" where
  "crc_byte c b = (crc_bit ^^ 8) (c XOR ucast b)"

definition crc32 :: "bytes \<Rightarrow> u32" where
  "crc32 bs = NOT (foldl crc_byte (NOT 0) bs)"

section \<open>Lemmas on slices and buffers\<close>

lemma length_gslice [simp]: "length (gslice a b xs) = min (b - a) (length xs - a)"
  by (simp add: gslice_def)

lemma length_copy_at [simp]: "length (copy_at off src dst) = length dst"
  by (simp add: copy_at_def min_def)

lemma length_zero_bytes [simp]: "length (zero_bytes n) = n"
  by (simp add: zero_bytes_def)

lemma gslice_copy_at [codec_simps]:
  assumes "b = off + length src" "b \<le> length dst"
  shows "gslice off b (copy_at off src dst) = src"
  using assms by (simp add: gslice_def copy_at_def)

lemma gslice_copy_at_before [codec_simps]:
  "b \<le> off \<Longrightarrow> gslice a b (copy_at off src dst) = gslice a b dst"
  by (cases "off \<le> length dst") (auto simp: gslice_def copy_at_def take_drop min_def)

lemma gslice_copy_at_after [codec_simps]:
  assumes "off + length src \<le> a"
  shows "gslice a b (copy_at off src dst) = gslice a b dst"
proof (cases "off + length src \<le> length dst")
  case True
  then have "drop a (copy_at off src dst) = drop a dst"
    using assms by (simp add: copy_at_def)
  then show ?thesis by (simp add: gslice_def)
next
  case False
  then have "length dst \<le> a" using assms by simp
  then show ?thesis by (simp add: gslice_def)
qed

lemma nth_copy_at [codec_simps]:
  assumes "i < length dst"
  shows "copy_at off src dst ! i =
    (if off \<le> i \<and> i < off + length src then src ! (i - off) else dst ! i)"
  using assms by (auto simp: copy_at_def nth_append min_def)

lemma gslice_slice [codec_simps]:
  assumes "d \<le> b - a"
  shows "gslice c d (gslice a b xs) = gslice (a + c) (a + d) xs"
  using assms by (simp add: gslice_def drop_take add.commute min_def)

lemma gslice_full [codec_simps]: "b = length xs \<Longrightarrow> gslice 0 b xs = xs"
  by (simp add: gslice_def)

lemma gslice_append_left [codec_simps]: "b \<le> length xs \<Longrightarrow> gslice a b (xs @ ys) = gslice a b xs"
  by (simp add: gslice_def)

lemma gslice_append_right [codec_simps]:
  "length xs \<le> a \<Longrightarrow> gslice a b (xs @ ys) = gslice (a - length xs) (b - length xs) ys"
  by (simp add: gslice_def)

lemma gslice_nth: "i < b - a \<Longrightarrow> a + i < length xs \<Longrightarrow> gslice a b xs ! i = xs ! (a + i)"
  by (simp add: gslice_def)

lemma gslice_empty [simp]: "b \<le> a \<Longrightarrow> gslice a b xs = []"
  by (simp add: gslice_def)

section \<open>Lemmas on the integer codecs\<close>

lemma length_put_be [simp]: "length (put_be n v) = n"
  by (induction n arbitrary: v) auto

lemma length_put_le [simp]: "length (put_le n v) = n"
  by (simp add: put_le_def)

lemma get_be_Nil [simp]: "get_be [] = 0"
  by (simp add: get_be_def)

lemma get_be_snoc: "get_be (bs @ [b]) = push_bit 8 (get_be bs) OR ucast b"
  by (simp add: get_be_def)

lemma get_put_be_take: "get_be (put_be n v) = take_bit (8 * n) (v :: 'a::len word)"
proof (induction n arbitrary: v)
  case 0
  then show ?case by simp
next
  case (Suc n)
  have "push_bit 8 (take_bit (8 * n) (drop_bit 8 v)) OR ucast (ucast v :: byte)
      = take_bit (8 * Suc n) v"
    by (rule bit_word_eqI) (auto simp: bit_simps)
  then show ?case by (simp add: get_be_snoc Suc)
qed

lemma get_put_be: "LENGTH('a) \<le> 8 * n \<Longrightarrow> get_be (put_be n v) = (v :: 'a::len word)"
  by (simp add: get_put_be_take take_bit_word_eq_self)

lemma get_put_le: "LENGTH('a) \<le> 8 * n \<Longrightarrow> get_le (put_le n v) = (v :: 'a::len word)"
  by (simp add: get_le_def put_le_def get_put_be)

lemma put_get_be:
  "8 * length bs \<le> LENGTH('a) \<Longrightarrow> put_be (length bs) (get_be bs :: 'a::len word) = bs"
proof (induction bs rule: rev_induct)
  case Nil
  then show ?case by simp
next
  case (snoc b bs)
  let ?g = "get_be bs :: 'a word"
  have drp: "drop_bit 8 (push_bit 8 ?g OR ucast b) = ?g"
  proof (rule bit_word_eqI)
    fix i assume "i < LENGTH('a)"
    show "bit (drop_bit 8 (push_bit 8 ?g OR ucast b)) i = bit ?g i"
    proof (cases "i + 8 < LENGTH('a)")
      case True
      then show ?thesis by (auto simp: bit_simps dest: bit_imp_le_length)
    next
      case False
      have "?g = take_bit (8 * length bs) ?g"
        using get_put_be_take [of "length bs" ?g] snoc by simp
      then have "bit ?g i = bit (take_bit (8 * length bs) ?g) i" by simp
      with False snoc.prems have "\<not> bit ?g i" by (auto simp: bit_simps)
      with False show ?thesis by (auto simp: bit_simps)
    qed
  qed
  have low: "ucast (push_bit 8 ?g OR ucast b) = b"
    using snoc.prems by (intro bit_word_eqI) (auto simp: bit_simps)
  show ?case using snoc by (simp add: get_be_snoc drp low del: drop_bit_or)
qed

lemma get_put_be_u64 [codec_simps]: "get_be (put_be 8 v) = (v :: u64)"
  by (simp add: get_put_be)

lemma get_put_be_u32 [codec_simps]: "get_be (put_be 4 v) = (v :: u32)"
  by (simp add: get_put_be)

lemma get_put_be_u16 [codec_simps]: "get_be (put_be 2 v) = (v :: u16)"
  by (simp add: get_put_be)

lemma get_put_le_u64 [codec_simps]: "get_le (put_le 8 v) = (v :: u64)"
  by (simp add: get_put_le)

lemma get_put_le_u32 [codec_simps]: "get_le (put_le 4 v) = (v :: u32)"
  by (simp add: get_put_le)

lemma get_put_le_u16 [codec_simps]: "get_le (put_le 2 v) = (v :: u16)"
  by (simp add: get_put_le)

lemma put_be_inj: "put_be 8 (v :: u64) = put_be 8 w \<longleftrightarrow> v = w"
  by (metis get_put_be_u64)

section \<open>Lemmas on comparison\<close>

lemma bytes_compare_eq_iff [simp]: "bytes_compare xs ys = 0 \<longleftrightarrow> xs = ys"
  by (induction xs ys rule: bytes_compare.induct) auto

lemma bytes_compare_less_iff [simp]: "bytes_compare xs ys < 0 \<longleftrightarrow> xs < ys"
  by (induction xs ys rule: bytes_compare.induct) auto

lemma bytes_compare_refl [simp]: "bytes_compare xs xs = 0"
  by simp

lemma bytes_compare_ge_iff [simp]: "0 \<le> bytes_compare xs ys \<longleftrightarrow> ys \<le> xs"
  using bytes_compare_less_iff [of xs ys] by (meson linorder_not_le)

lemma bytes_compare_greater_iff [simp]: "0 < bytes_compare xs ys \<longleftrightarrow> ys < xs"
proof -
  have "0 < bytes_compare xs ys \<longleftrightarrow> 0 \<le> bytes_compare xs ys \<and> bytes_compare xs ys \<noteq> 0"
    by linarith
  then show ?thesis by (auto simp: order_less_le)
qed

text \<open>The number a big-endian byte string stands for; on strings of one length it is monotone.\<close>

definition be_val :: "bytes \<Rightarrow> nat" where
  "be_val bs = foldl (\<lambda>a b. 256 * a + unat b) 0 bs"

lemma be_val_Nil [simp]: "be_val [] = 0"
  by (simp add: be_val_def)

lemma be_val_snoc: "be_val (bs @ [b]) = 256 * be_val bs + unat b"
  by (simp add: be_val_def)

lemma be_val_append: "be_val (as @ bs) = be_val as * 256 ^ length bs + be_val bs"
  by (induction bs rule: rev_induct)
    (simp_all add: be_val_snoc append_assoc [symmetric] algebra_simps del: append_assoc)

lemma be_val_Cons: "be_val (b # bs) = unat b * 256 ^ length bs + be_val bs"
  using be_val_append [of "[b]" bs] be_val_snoc [of "[]" b] by simp

lemma be_val_bound: "be_val bs < 256 ^ length bs"
proof (induction bs rule: rev_induct)
  case Nil
  then show ?case by simp
next
  case (snoc b bs)
  have "unat b < 256" using unsigned_less [of b] by simp
  then have "256 * be_val bs + unat b < 256 * (be_val bs + 1)" by simp
  also have "\<dots> \<le> 256 * 256 ^ length bs" using snoc by (intro mult_le_mono) auto
  finally show ?case by (simp add: be_val_snoc)
qed

lemma be_val_less_iff:
  "length xs = length ys \<Longrightarrow> be_val xs < be_val ys \<longleftrightarrow> xs < ys"
proof (induction xs ys rule: list_induct2)
  case Nil
  then show ?case by simp
next
  case (Cons x xs y ys)
  have bx: "be_val xs < 256 ^ length ys" and by': "be_val ys < 256 ^ length ys"
    using be_val_bound [of xs] be_val_bound [of ys] Cons.hyps by auto
  have lt: "unat a * 256 ^ length ys + m < unat b * 256 ^ length ys + n"
    if "a < b" "m < 256 ^ length ys" for a b :: byte and m n
  proof -
    have "unat a * 256 ^ length ys + m < (unat a + 1) * 256 ^ length ys"
      using that by simp
    also have "\<dots> \<le> unat b * 256 ^ length ys"
      using that by (intro mult_le_mono) (auto simp: word_less_nat_alt)
    finally show ?thesis by simp
  qed
  consider "x < y" | "x = y" | "y < x" by fastforce
  then show ?case
  proof cases
    case 1
    then show ?thesis using lt [OF 1 bx, of "be_val ys"] Cons.hyps by (simp add: be_val_Cons)
  next
    case 2
    then show ?thesis using Cons by (simp add: be_val_Cons)
  next
    case 3
    then show ?thesis using lt [OF 3 by', of "be_val xs"] Cons.hyps by (auto simp: be_val_Cons)
  qed
qed

lemma be_val_put_be: "be_val (put_be n v) = unat v mod 256 ^ n"
proof (induction n arbitrary: v)
  case 0
  then show ?case by simp
next
  case (Suc n)
  have hi: "unat (drop_bit 8 v) = unat v div 256"
    by (simp only: unat_drop_bit_eq) (simp add: drop_bit_eq_div)
  have low: "unat (ucast v :: byte) = unat v mod 256"
    by (simp add: unsigned_ucast_eq take_bit_eq_mod)
  have "be_val (put_be (Suc n) v) = 256 * (unat v div 256 mod 256 ^ n) + unat v mod 256"
    by (simp add: be_val_snoc Suc low hi)
  also have "\<dots> = unat v mod (256 * 256 ^ n)"
    by (simp add: mod_mult2_eq)
  finally show ?case by simp
qed

lemma put_be_less_u64: "put_be 8 v < put_be 8 w \<longleftrightarrow> (v :: u64) < w"
proof -
  have "unat v < 256 ^ 8" "unat w < 256 ^ 8"
    using unsigned_less [of v, where ?'a = nat] unsigned_less [of w, where ?'a = nat] by simp_all
  then show ?thesis
    using be_val_less_iff [of "put_be 8 v" "put_be 8 w"]
    by (simp add: be_val_put_be word_less_nat_alt)
qed

lemma append_less_cong: "length xs = length ys \<Longrightarrow>
    xs @ as < ys @ bs \<longleftrightarrow> xs < ys \<or> (xs = ys \<and> as < bs)" for xs ys :: "'a::linorder list"
  by (induction xs ys rule: list_induct2) auto

section \<open>Lemmas on the checksum\<close>

lemma xor_cancel_right: "x XOR z = y XOR z \<longleftrightarrow> x = (y :: 'a::len word)"
proof
  assume "x XOR z = y XOR z"
  then have "(x XOR z) XOR z = (y XOR z) XOR z" by simp
  then show "x = y" by (simp only: xor.assoc xor_self_eq xor.right_neutral)
qed simp

lemma crc_poly_top: "bit (0xEDB88320 :: u32) 31"
  by simp

lemma crc_bit_top: "bit (crc_bit c) 31 \<longleftrightarrow> bit c 0"
proof -
  have "\<not> bit (drop_bit 1 c) 31"
    unfolding bit_drop_bit_eq o_def by (auto dest: bit_imp_le_length)
  then show ?thesis
    by (simp only: crc_bit_def bit_xor_iff crc_poly_top if_distrib [of "\<lambda>x. bit x 31"] if_splits)
      auto
qed

lemma crc_bit_inj: "crc_bit c = crc_bit d \<longleftrightarrow> c = d"
proof
  assume eq: "crc_bit c = crc_bit d"
  then have low: "bit c 0 \<longleftrightarrow> bit d 0"
    using crc_bit_top by metis
  have hi: "drop_bit 1 c = drop_bit 1 d"
  proof (cases "bit c 0")
    case True
    with eq low have "drop_bit 1 c XOR 0xEDB88320 = drop_bit 1 d XOR 0xEDB88320"
      by (simp add: crc_bit_def)
    then show ?thesis by (simp only: xor_cancel_right)
  next
    case False
    with eq low show ?thesis by (simp add: crc_bit_def)
  qed
  show "c = d"
  proof (rule bit_word_eqI)
    fix n assume "n < LENGTH(32)"
    show "bit c n \<longleftrightarrow> bit d n"
    proof (cases n)
      case 0
      with low show ?thesis by simp
    next
      case (Suc m)
      have "bit (drop_bit 1 c) m \<longleftrightarrow> bit (drop_bit 1 d) m" by (simp only: hi)
      with Suc show ?thesis by (simp add: bit_drop_bit_eq)
    qed
  qed
qed simp

lemma crc_bits_inj: "(crc_bit ^^ n) c = (crc_bit ^^ n) d \<longleftrightarrow> c = d"
  by (induction n) (simp_all add: crc_bit_inj)

lemma crc_byte_inj: "crc_byte c b = crc_byte d b \<longleftrightarrow> c = d"
  unfolding crc_byte_def crc_bits_inj by (rule xor_cancel_right)

lemma ucast_u32_byte: "(ucast (ucast (a :: byte) :: u32) :: byte) = a"
  by (rule bit_word_eqI) (auto simp: bit_simps)

lemma crc_byte_diff: "crc_byte c a = crc_byte c b \<longleftrightarrow> a = b"
proof
  assume "crc_byte c a = crc_byte c b"
  then have "(c XOR ucast a) = (c XOR ucast b)" by (simp add: crc_byte_def crc_bits_inj)
  then have "c XOR (c XOR ucast a) = c XOR (c XOR ucast b)" by simp
  then have "(ucast a :: u32) = ucast b"
    by (simp only: xor.assoc [symmetric] xor_self_eq xor.left_neutral)
  then have "(ucast (ucast a :: u32) :: byte) = ucast (ucast b :: u32)" by simp
  then show "a = b" by (simp only: ucast_u32_byte)
qed simp

lemma crc_fold_inj: "foldl crc_byte c bs = foldl crc_byte d bs \<longleftrightarrow> c = d"
  by (induction bs arbitrary: c d) (simp_all add: crc_byte_inj)

text \<open>A change of one byte always changes the checksum.\<close>

lemma crc32_one_byte:
  assumes "a \<noteq> b"
  shows "crc32 (xs @ a # ys) \<noteq> crc32 (xs @ b # ys)"
  using assms by (auto simp: crc32_def crc_fold_inj crc_byte_diff)

end
