(* ===== verification/Key.thy ===== *)
theory Key
  imports Prelude
begin

text \<open>
  The key encoding of the SQL engine: \<open>internal/engine/sql/key/key.go\<close> (scalar keys,
  sort composites, storage composites) and \<open>row.go\<close> (table row keys, prefixes).
  A Go \<open>string\<close> is its byte sequence; \<open>int64\<close> is a 64-bit word read with \<open>sint\<close>;
  an \<open>any\<close> argument is a value of the datatype \<open>any\<close>, whose constructors are the
  dynamic types the code switches on.  The lemmas show that the decoders invert the encoders,
  that the sort-safe encodings are monotone for \<open>bytes.Compare\<close>, and that
  \<open>PrefixEnd\<close> bounds a prefix scan.
\<close>

section \<open>Data\<close>

type_synonym Kind = byte
type_synonym i64 = "64 word"

abbreviation (input) KindUint64 :: Kind where "KindUint64 \<equiv> 1"
abbreviation (input) KindInt64 :: Kind where "KindInt64 \<equiv> 2"
abbreviation (input) KindString :: Kind where "KindString \<equiv> 3"
abbreviation (input) KindBytes :: Kind where "KindBytes \<equiv> 4"

record Field =
  FKind :: Kind
  FOffset :: int
  FLength :: int

record Key =
  kdata :: bytes
  kfields :: "Field list"

datatype key_err =
    ErrNullByteInString | ErrUnsupportedType | ErrUnsupportedSortType | ErrInvalidKey
  | ErrKindMismatch | ErrNotComposite | ErrTruncated | ErrBadTag | ErrNoPKColumns

record Value =
  vkind :: Kind
  vu :: u64
  vs :: bytes
  vb :: bytes

datatype any = ANil | AUint64 u64 | AInt64 i64 | AString bytes | ABytes bytes | AOther

definition empty_Value :: Value where
  "empty_Value = \<lparr>vkind = 0, vu = 0, vs = [], vb = []\<rparr>"

definition Uint64 :: "u64 \<Rightarrow> Value" where
  "Uint64 v = empty_Value\<lparr>vkind := KindUint64, vu := v\<rparr>"

definition Int64 :: "i64 \<Rightarrow> Value" where
  "Int64 v = empty_Value\<lparr>vkind := KindInt64, vu := v\<rparr>"

definition VString :: "bytes \<Rightarrow> Value" where
  "VString v = empty_Value\<lparr>vkind := KindString, vs := v\<rparr>"

definition VBytes :: "bytes \<Rightarrow> Value" where
  "VBytes v = empty_Value\<lparr>vkind := KindBytes, vb := v\<rparr>"

definition AsUint64 :: "Value \<Rightarrow> u64 \<times> bool" where
  "AsUint64 v = (if vkind v \<noteq> KindUint64 then (0, False) else (vu v, True))"

definition AsInt64 :: "Value \<Rightarrow> i64 \<times> bool" where
  "AsInt64 v = (if vkind v \<noteq> KindInt64 then (0, False) else (vu v, True))"

definition AsString :: "Value \<Rightarrow> bytes \<times> bool" where
  "AsString v = (if vkind v \<noteq> KindString then ([], False) else (vs v, True))"

definition AsBytes :: "Value \<Rightarrow> bytes \<times> bool" where
  "AsBytes v = (if vkind v \<noteq> KindBytes then ([], False) else (vb v, True))"

definition Value_Equal :: "Value \<Rightarrow> Value \<Rightarrow> bool" where
  "Value_Equal v other =
     (if vkind v \<noteq> vkind other then False
      else if vkind v = KindUint64 \<or> vkind v = KindInt64 then vu v = vu other
      else if vkind v = KindString then vs v = vs other
      else if vkind v = KindBytes then vb v = vb other
      else False)"

section \<open>Scalar keys\<close>

definition EncodeBytes :: "bytes \<Rightarrow> Key" where
  "EncodeBytes b =
     \<lparr>kdata = b, kfields = [\<lparr>FKind = KindBytes, FOffset = 0, FLength = int (length b)\<rparr>]\<rparr>"

definition FromBytes :: "bytes \<Rightarrow> Key" where
  "FromBytes b = EncodeBytes b"

definition validateField :: "bytes \<Rightarrow> Field \<Rightarrow> key_err + unit" where
  "validateField data f =
     (if FOffset f < 0 \<or> FLength f < 0 then Inl ErrInvalidKey
      else if FOffset f > int (length data) then Inl ErrInvalidKey
      else if FLength f > int (length data) - FOffset f then Inl ErrInvalidKey
      else if (FKind f = KindUint64 \<or> FKind f = KindInt64) \<and> FLength f \<noteq> 8
        then Inl ErrInvalidKey
      else Inr ())"

definition Key_Compare :: "Key \<Rightarrow> Key \<Rightarrow> int" where
  "Key_Compare k other = bytes_compare (kdata k) (kdata other)"

text \<open>The order-preserving image of an \<open>int64\<close>: the sign bit flipped.\<close>

definition flip_sign :: "u64 \<Rightarrow> u64" where
  "flip_sign v = v XOR push_bit 63 1"

definition EncodeUint64 :: "u64 \<Rightarrow> Key" where
  "EncodeUint64 v =
     \<lparr>kdata = put_be 8 v, kfields = [\<lparr>FKind = KindUint64, FOffset = 0, FLength = 8\<rparr>]\<rparr>"

definition EncodeInt64 :: "i64 \<Rightarrow> Key" where
  "EncodeInt64 v =
     \<lparr>kdata = put_be 8 (flip_sign v),
      kfields = [\<lparr>FKind = KindInt64, FOffset = 0, FLength = 8\<rparr>]\<rparr>"

definition EncodeString :: "bytes \<Rightarrow> key_err + Key" where
  "EncodeString s =
     (if 0 \<in> set s then Inl ErrNullByteInString
      else (let d = s @ [0] in
        Inr \<lparr>kdata = d,
             kfields = [\<lparr>FKind = KindString, FOffset = 0, FLength = int (length d)\<rparr>]\<rparr>))"

definition requireScalar :: "Key \<Rightarrow> key_err + Field" where
  "requireScalar k =
     (if length (kfields k) = 0 \<and> length (kdata k) = 0 then Inl ErrInvalidKey
      else if length (kfields k) \<noteq> 1 then Inl ErrInvalidKey
      else Inr (kfields k ! 0))"

text \<open>\<open>data[off:]\<close> and \<open>data[off:off+len]\<close> for a validated field.\<close>

definition field_rest :: "bytes \<Rightarrow> Field \<Rightarrow> bytes" where
  "field_rest data f = drop (nat (FOffset f)) data"

definition field_bytes :: "bytes \<Rightarrow> Field \<Rightarrow> bytes" where
  "field_bytes data f = gslice (nat (FOffset f)) (nat (FOffset f + FLength f)) data"

definition DecodeUint64 :: "Key \<Rightarrow> key_err + u64" where
  "DecodeUint64 k =
     (case requireScalar k of Inl e \<Rightarrow> Inl e
      | Inr f \<Rightarrow>
        if FKind f \<noteq> KindUint64 then Inl ErrKindMismatch
        else (case validateField (kdata k) f of Inl e \<Rightarrow> Inl e
              | Inr _ \<Rightarrow> Inr (get_be (take 8 (field_rest (kdata k) f)))))"

definition DecodeInt64 :: "Key \<Rightarrow> key_err + i64" where
  "DecodeInt64 k =
     (case requireScalar k of Inl e \<Rightarrow> Inl e
      | Inr f \<Rightarrow>
        if FKind f \<noteq> KindInt64 then Inl ErrKindMismatch
        else (case validateField (kdata k) f of Inl e \<Rightarrow> Inl e
              | Inr _ \<Rightarrow> Inr (flip_sign (get_be (take 8 (field_rest (kdata k) f))))))"

definition DecodeString :: "Key \<Rightarrow> key_err + bytes" where
  "DecodeString k =
     (case requireScalar k of Inl e \<Rightarrow> Inl e
      | Inr f \<Rightarrow>
        if FKind f \<noteq> KindString then Inl ErrKindMismatch
        else (case validateField (kdata k) f of Inl e \<Rightarrow> Inl e
              | Inr _ \<Rightarrow>
                (let b = field_bytes (kdata k) f in
                 if length b = 0 \<or> last b \<noteq> 0 then Inl ErrInvalidKey
                 else Inr (butlast b))))"

definition DecodeBytes :: "Key \<Rightarrow> key_err + bytes" where
  "DecodeBytes k =
     (case requireScalar k of Inl e \<Rightarrow> Inl e
      | Inr f \<Rightarrow>
        if FKind f \<noteq> KindBytes then Inl ErrKindMismatch
        else (case validateField (kdata k) f of Inl e \<Rightarrow> Inl e
              | Inr _ \<Rightarrow> Inr (field_bytes (kdata k) f)))"

section \<open>Parsing and composites\<close>

text \<open>\<open>bytes.IndexByte\<close>: the first position of a byte, if any.\<close>

fun IndexByte :: "bytes \<Rightarrow> byte \<Rightarrow> nat option" where
  "IndexByte [] c = None"
| "IndexByte (b # bs) c = (if b = c then Some 0 else map_option Suc (IndexByte bs c))"

fun ParseKey_loop :: "bytes \<Rightarrow> Kind list \<Rightarrow> nat \<Rightarrow> Field list \<Rightarrow> key_err + (nat \<times> Field list)" where
  "ParseKey_loop data [] pos flds = Inr (pos, flds)"
| "ParseKey_loop data (kind # rest) pos flds =
     (if kind = KindUint64 \<or> kind = KindInt64 then
        (if pos + 8 > length data then Inl ErrInvalidKey
         else ParseKey_loop data rest (pos + 8)
                (flds @ [\<lparr>FKind = kind, FOffset = int pos, FLength = 8\<rparr>]))
      else if kind = KindString then
        (case IndexByte (drop pos data) 0 of
           None \<Rightarrow> Inl ErrInvalidKey
         | Some e \<Rightarrow>
           ParseKey_loop data rest (pos + e + 1)
             (flds @ [\<lparr>FKind = KindString, FOffset = int pos, FLength = int (e + 1)\<rparr>]))
      else if kind = KindBytes then
        (if rest \<noteq> [] then Inl ErrInvalidKey
         else ParseKey_loop data rest (length data)
                (flds @ [\<lparr>FKind = KindBytes, FOffset = int pos,
                            FLength = int (length data) - int pos\<rparr>]))
      else Inl ErrInvalidKey)"

definition ParseKey :: "bytes \<Rightarrow> Kind list \<Rightarrow> key_err + Key" where
  "ParseKey data kinds =
     (if length kinds = 0 then Inl ErrInvalidKey
      else (case ParseKey_loop data kinds 0 [] of Inl e \<Rightarrow> Inl e
        | Inr (pos, flds) \<Rightarrow>
          if pos \<noteq> length data \<and> last kinds \<noteq> KindBytes then Inl ErrInvalidKey
          else Inr \<lparr>kdata = data, kfields = flds\<rparr>))"

fun EncodeSortComposite_loop :: "any list \<Rightarrow> bytes \<Rightarrow> Field list \<Rightarrow> int \<Rightarrow> key_err + Key" where
  "EncodeSortComposite_loop [] d fs pos = Inr \<lparr>kdata = d, kfields = fs\<rparr>"
| "EncodeSortComposite_loop (f # rest) d fs pos =
     (case f of
        AUint64 v \<Rightarrow>
          EncodeSortComposite_loop rest (d @ put_be 8 v)
            (fs @ [\<lparr>FKind = KindUint64, FOffset = pos, FLength = 8\<rparr>]) (pos + 8)
      | AInt64 v \<Rightarrow>
          EncodeSortComposite_loop rest (d @ put_be 8 (flip_sign v))
            (fs @ [\<lparr>FKind = KindInt64, FOffset = pos, FLength = 8\<rparr>]) (pos + 8)
      | AString _ \<Rightarrow> Inl ErrUnsupportedSortType
      | ABytes _ \<Rightarrow> Inl ErrUnsupportedSortType
      | _ \<Rightarrow> Inl ErrUnsupportedType)"

definition EncodeSortComposite :: "any list \<Rightarrow> key_err + Key" where
  "EncodeSortComposite flds = EncodeSortComposite_loop flds [] [] 0"

fun DecodeSortComposite_loop :: "bytes \<Rightarrow> Field list \<Rightarrow> key_err + any list" where
  "DecodeSortComposite_loop data [] = Inr []"
| "DecodeSortComposite_loop data (f # rest) =
     (case validateField data f of Inl e \<Rightarrow> Inl e
      | Inr _ \<Rightarrow>
        (let u = get_be (take 8 (field_rest data f)) in
         if FKind f = KindUint64 then
           (case DecodeSortComposite_loop data rest of Inl e \<Rightarrow> Inl e
            | Inr vals \<Rightarrow> Inr (AUint64 u # vals))
         else if FKind f = KindInt64 then
           (case DecodeSortComposite_loop data rest of Inl e \<Rightarrow> Inl e
            | Inr vals \<Rightarrow> Inr (AInt64 (flip_sign u) # vals))
         else Inl ErrKindMismatch))"

definition DecodeSortComposite :: "Key \<Rightarrow> key_err + any list" where
  "DecodeSortComposite k =
     (if length (kfields k) = 0 then Inl ErrNotComposite
      else DecodeSortComposite_loop (kdata k) (kfields k))"

text \<open>\<open>appendLen4\<close>: the length as a 32-bit word, so it wraps at \<open>2^32\<close>.\<close>

definition appendLen4 :: "bytes \<Rightarrow> nat \<Rightarrow> bytes" where
  "appendLen4 d n = d @ put_be 4 (word_of_nat n :: u32)"

fun EncodeStorageComposite_loop :: "any list \<Rightarrow> bytes \<Rightarrow> Field list \<Rightarrow> key_err + Key" where
  "EncodeStorageComposite_loop [] d fs = Inr \<lparr>kdata = d, kfields = fs\<rparr>"
| "EncodeStorageComposite_loop (f # rest) d fs =
     (case f of
        AUint64 v \<Rightarrow>
          (let d1 = appendLen4 d 8 in
           EncodeStorageComposite_loop rest (d1 @ put_be 8 v)
             (fs @ [\<lparr>FKind = KindUint64, FOffset = int (length d1), FLength = 8\<rparr>]))
      | AInt64 v \<Rightarrow>
          (let d1 = appendLen4 d 8 in
           EncodeStorageComposite_loop rest (d1 @ put_be 8 (flip_sign v))
             (fs @ [\<lparr>FKind = KindInt64, FOffset = int (length d1), FLength = 8\<rparr>]))
      | AString v \<Rightarrow>
          if 0 \<in> set v then Inl ErrNullByteInString
          else (let d1 = appendLen4 d (length v) in
           EncodeStorageComposite_loop rest (d1 @ v)
             (fs @ [\<lparr>FKind = KindString, FOffset = int (length d1), FLength = int (length v)\<rparr>]))
      | ABytes v \<Rightarrow>
          (let d1 = appendLen4 d (length v) in
           EncodeStorageComposite_loop rest (d1 @ v)
             (fs @ [\<lparr>FKind = KindBytes, FOffset = int (length d1), FLength = int (length v)\<rparr>]))
      | _ \<Rightarrow> Inl ErrUnsupportedType)"

definition EncodeStorageComposite :: "any list \<Rightarrow> key_err + Key" where
  "EncodeStorageComposite flds = EncodeStorageComposite_loop flds [] []"

fun DecodeStorageComposite_loop :: "bytes \<Rightarrow> Field list \<Rightarrow> key_err + any list" where
  "DecodeStorageComposite_loop data [] = Inr []"
| "DecodeStorageComposite_loop data (f # rest) =
     (case validateField data f of Inl e \<Rightarrow> Inl e
      | Inr _ \<Rightarrow>
        (case (if FKind f = KindUint64 then Inr (AUint64 (get_be (take 8 (field_rest data f))))
               else if FKind f = KindInt64 then
                 Inr (AInt64 (flip_sign (get_be (take 8 (field_rest data f)))))
               else if FKind f = KindString then Inr (AString (field_bytes data f))
               else if FKind f = KindBytes then Inr (ABytes (field_bytes data f))
               else Inl ErrKindMismatch)
         of Inl e \<Rightarrow> Inl e
          | Inr v \<Rightarrow>
            (case DecodeStorageComposite_loop data rest of Inl e \<Rightarrow> Inl e
             | Inr vals \<Rightarrow> Inr (v # vals))))"

definition DecodeStorageComposite :: "Key \<Rightarrow> key_err + any list" where
  "DecodeStorageComposite k =
     (if length (kfields k) = 0 then Inl ErrNotComposite
      else DecodeStorageComposite_loop (kdata k) (kfields k))"

fun ParseStorageCompositeKey_loop ::
  "bytes \<Rightarrow> Kind list \<Rightarrow> nat \<Rightarrow> Field list \<Rightarrow> key_err + (nat \<times> Field list)" where
  "ParseStorageCompositeKey_loop data [] pos flds = Inr (pos, flds)"
| "ParseStorageCompositeKey_loop data (kind # rest) pos flds =
     (if pos + 4 > length data then Inl ErrInvalidKey
      else (let len = unat (get_be (take 4 (drop pos data)) :: u32); pos = pos + 4 in
        if pos + len > length data then Inl ErrInvalidKey
        else ParseStorageCompositeKey_loop data rest (pos + len)
               (flds @ [\<lparr>FKind = kind, FOffset = int pos, FLength = int len\<rparr>])))"

definition ParseStorageCompositeKey :: "bytes \<Rightarrow> Kind list \<Rightarrow> key_err + Key" where
  "ParseStorageCompositeKey data kinds =
     (if length kinds = 0 then Inl ErrInvalidKey
      else (case ParseStorageCompositeKey_loop data kinds 0 [] of Inl e \<Rightarrow> Inl e
        | Inr (pos, flds) \<Rightarrow>
          if pos \<noteq> length data then Inl ErrInvalidKey
          else Inr \<lparr>kdata = data, kfields = flds\<rparr>))"

section \<open>Table row keys\<close>

definition tableRowTag :: byte where
  "tableRowTag = 1"

text \<open>The contribution of one primary-key column (a kind outside the four contributes nothing).\<close>

definition encode_pk_value :: "Value \<Rightarrow> bytes" where
  "encode_pk_value v =
     (if vkind v = KindUint64 then put_be 8 (vu v)
      else if vkind v = KindInt64 then put_be 8 (flip_sign (vu v))
      else if vkind v = KindString then vs v @ [0]
      else if vkind v = KindBytes then vb v
      else [])"

definition EncodeTableRowKey :: "u64 \<Rightarrow> Value list \<Rightarrow> u64 \<Rightarrow> key_err + bytes" where
  "EncodeTableRowKey tableID pk version =
     (if length pk = 0 then Inl ErrNoPKColumns
      else Inr ([tableRowTag] @ put_be 8 tableID @ concat (map encode_pk_value pk)
                @ put_be 8 version))"

definition TablePrefix :: "u64 \<Rightarrow> bytes" where
  "TablePrefix tableID = copy_at 1 (put_be 8 tableID) ((zero_bytes 9)[0 := tableRowTag])"

definition EncodeTableRowPrefix :: "u64 \<Rightarrow> Value list \<Rightarrow> key_err + bytes" where
  "EncodeTableRowPrefix tableID pk =
     (if length pk = 0 then Inl ErrNoPKColumns
      else Inr ([tableRowTag] @ put_be 8 tableID @ concat (map encode_pk_value pk)))"

fun DecodeTableRowKey_loop ::
  "bytes \<Rightarrow> Kind list \<Rightarrow> nat \<Rightarrow> Value list \<Rightarrow> key_err + (nat \<times> Value list)" where
  "DecodeTableRowKey_loop b [] pos pk = Inr (pos, pk)"
| "DecodeTableRowKey_loop b (k # rest) pos pk =
     (if pos \<ge> length b then Inl ErrTruncated
      else if k = KindUint64 then
        (if pos + 8 > length b then Inl ErrTruncated
         else DecodeTableRowKey_loop b rest (pos + 8)
                (pk @ [Uint64 (get_be (take 8 (drop pos b)))]))
      else if k = KindInt64 then
        (if pos + 8 > length b then Inl ErrTruncated
         else DecodeTableRowKey_loop b rest (pos + 8)
                (pk @ [Int64 (flip_sign (get_be (take 8 (drop pos b))))]))
      else if k = KindString then
        (case IndexByte (drop pos b) 0 of
           None \<Rightarrow> Inl ErrTruncated
         | Some e \<Rightarrow>
           DecodeTableRowKey_loop b rest (pos + e + 1)
             (pk @ [VString (gslice pos (pos + e) b)]))
      else if k = KindBytes then
        (if rest \<noteq> [] then Inl ErrInvalidKey
         else if pos + 8 > length b then Inl ErrTruncated
         else (let dataLen = length b - pos - 8 in
           DecodeTableRowKey_loop b rest (pos + dataLen)
             (pk @ [VBytes (gslice pos (pos + dataLen) b)])))
      else Inl ErrInvalidKey)"

definition DecodeTableRowKey ::
  "bytes \<Rightarrow> Kind list \<Rightarrow> key_err + (u64 \<times> Value list \<times> u64)" where
  "DecodeTableRowKey b expectedKinds =
     (if length b < 1 + 8 then Inl ErrTruncated
      else if b ! 0 \<noteq> tableRowTag then Inl ErrBadTag
      else (let tableID = get_be (take 8 (drop 1 b)) in
        case DecodeTableRowKey_loop b expectedKinds 9 [] of Inl e \<Rightarrow> Inl e
        | Inr (pos, pk) \<Rightarrow>
          if pos + 8 \<noteq> length b then Inl ErrTruncated
          else Inr (tableID, pk, get_be (take 8 (drop pos b)))))"

text \<open>The increment loop of \<open>PrefixEnd\<close> runs from the last byte to the first.\<close>

fun inc_rev :: "bytes \<Rightarrow> bytes" where
  "inc_rev [] = []"
| "inc_rev (b # bs) = (if b + 1 \<noteq> 0 then (b + 1) # bs else (b + 1) # inc_rev bs)"

definition PrefixEnd :: "bytes \<Rightarrow> bytes option" where
  "PrefixEnd p =
     (if length p = 0 then None
      else if (\<forall>b \<in> set p. b = 0xFF) then None
      else Some (rev (inc_rev (rev p))))"

section \<open>Lemmas: the sign flip and scalar keys\<close>

lemma flip_sign_involutive [simp]: "flip_sign (flip_sign v) = v"
  by (simp add: flip_sign_def xor.assoc)

lemma bit_top_u64: "bit (push_bit 63 (1 :: u64)) n \<longleftrightarrow> n = 63"
  by (simp only: bit_push_bit_iff bit_1_iff) auto

lemma bit_flip_sign: "n < 64 \<Longrightarrow> bit (flip_sign v) n \<longleftrightarrow> (bit v n \<noteq> (n = 63))"
  by (simp only: flip_sign_def bit_xor_iff bit_top_u64)

lemma add_top_u64:
  assumes "\<not> bit v 63"
  shows "flip_sign v = v + push_bit 63 (1 :: u64)"
proof -
  have "v AND push_bit 63 1 = 0"
    by (rule bit_word_eqI) (use assms in \<open>simp only: bit_and_iff bit_top_u64 bit_0_eq bot_apply\<close>, auto)
  then have "v + push_bit 63 1 = v XOR push_bit 63 1"
    by (rule disjunctive_add_eq_xor)
  then show ?thesis by (simp only: flip_sign_def)
qed

lemma flip_sign_plus: "flip_sign v = v + push_bit 63 1"
proof (cases "bit v 63")
  case False
  then show ?thesis by (rule add_top_u64)
next
  case True
  then have "\<not> bit (flip_sign v) 63" by (simp add: bit_flip_sign)
  then have "v = flip_sign v + push_bit 63 1" using add_top_u64 by fastforce
  then have "v + push_bit 63 1 = (flip_sign v + push_bit 63 1) + push_bit 63 1"
    by (rule arg_cong)
  also have "\<dots> = flip_sign v" by simp
  finally show ?thesis by simp
qed

lemma uint_flip_sign: "uint (flip_sign v) = sint v + 2 ^ 63"
proof -
  have "sint v = take_bit 64 (uint v + 2 ^ 63) - 2 ^ 63"
    by (simp add: sint_uint signed_take_bit_eq_take_bit_shift)
  moreover have "uint (flip_sign v) = take_bit 64 (uint v + 2 ^ 63)"
    by (simp add: flip_sign_plus uint_word_ariths take_bit_eq_mod)
  ultimately show ?thesis by simp
qed

lemma flip_sign_less_iff: "flip_sign v < flip_sign w \<longleftrightarrow> sint v < sint w"
  by (simp add: word_less_def uint_flip_sign)

lemma put_be_less_uint: "put_be 8 v < put_be 8 w \<longleftrightarrow> uint (v :: u64) < uint (w :: u64)"
  by (simp only: put_be_less_u64 word_less_def)

lemma flip_sign_eq_iff: "flip_sign v = flip_sign w \<longleftrightarrow> v = w"
  by (metis flip_sign_involutive)

lemma sint_eq_iff: "sint v = sint w \<longleftrightarrow> v = (w :: i64)"
  by (auto intro: signed_word_eqI)

lemma validate_whole_field:
  "validateField data \<lparr>FKind = k, FOffset = 0, FLength = int (length data)\<rparr> =
    (if (k = KindUint64 \<or> k = KindInt64) \<and> length data \<noteq> 8 then Inl ErrInvalidKey else Inr ())"
  by (auto simp: validateField_def)

section \<open>Lemmas: composites\<close>

text \<open>What a value of each dynamic type contributes: its kind, its payload, its number.\<close>

fun any_kind :: "any \<Rightarrow> Kind" where
  "any_kind (AUint64 _) = KindUint64"
| "any_kind (AInt64 _) = KindInt64"
| "any_kind (AString _) = KindString"
| "any_kind (ABytes _) = KindBytes"
| "any_kind _ = 0"

fun any_raw :: "any \<Rightarrow> bytes" where
  "any_raw (AUint64 v) = put_be 8 v"
| "any_raw (AInt64 v) = put_be 8 (flip_sign v)"
| "any_raw (AString v) = v"
| "any_raw (ABytes v) = v"
| "any_raw _ = []"

fun any_num :: "any \<Rightarrow> int" where
  "any_num (AUint64 v) = uint v"
| "any_num (AInt64 v) = sint v"
| "any_num _ = 0"

fun storable :: "any \<Rightarrow> bool" where
  "storable (AString v) = (0 \<notin> set v)"
| "storable ANil = False"
| "storable AOther = False"
| "storable _ = True"

definition storage_frame :: "any \<Rightarrow> bytes" where
  "storage_frame v = put_be 4 (word_of_nat (length (any_raw v)) :: u32) @ any_raw v"

fun storage_fields :: "nat \<Rightarrow> any list \<Rightarrow> Field list" where
  "storage_fields off [] = []"
| "storage_fields off (v # rest) =
     \<lparr>FKind = any_kind v, FOffset = int (off + 4), FLength = int (length (any_raw v))\<rparr>
       # storage_fields (off + 4 + length (any_raw v)) rest"

definition storage_bytes :: "any list \<Rightarrow> bytes" where
  "storage_bytes vals = concat (map storage_frame vals)"

lemma storage_bytes_simps [simp]:
  "storage_bytes [] = []"
  "storage_bytes (v # rest) = storage_frame v @ storage_bytes rest"
  by (simp_all add: storage_bytes_def)

lemma length_storage_frame [simp]: "length (storage_frame v) = 4 + length (any_raw v)"
  by (simp add: storage_frame_def)

lemma EncodeStorageComposite_loop_eq:
  "EncodeStorageComposite_loop vals d fs = Inr k \<longleftrightarrow>
     (\<forall>v \<in> set vals. storable v) \<and>
     k = \<lparr>kdata = d @ storage_bytes vals, kfields = fs @ storage_fields (length d) vals\<rparr>"
proof (induction vals arbitrary: d fs)
  case Nil
  then show ?case by auto
next
  case (Cons v vals)
  then show ?case
    by (cases v)
      (auto simp: appendLen4_def Let_def storage_frame_def add.commute add.left_commute)
qed

lemma EncodeStorageComposite_eq:
  "EncodeStorageComposite vals = Inr k \<longleftrightarrow>
     (\<forall>v \<in> set vals. storable v) \<and>
     k = \<lparr>kdata = storage_bytes vals, kfields = storage_fields 0 vals\<rparr>"
  by (simp add: EncodeStorageComposite_def EncodeStorageComposite_loop_eq)

lemma storage_fields_Nil_iff [simp]: "storage_fields off vals = [] \<longleftrightarrow> vals = []"
  by (cases vals) auto

lemma storage_length_word:
  "length (any_raw v) < 2 ^ 32 \<Longrightarrow> unat (word_of_nat (length (any_raw v)) :: u32) = length (any_raw v)"
  by (simp add: unat_of_nat take_bit_nat_eq_self)

lemma ParseStorageCompositeKey_loop_eq:
  assumes "\<forall>v \<in> set vals. length (any_raw v) < 2 ^ 32"
  shows "ParseStorageCompositeKey_loop (d @ storage_bytes vals) (map any_kind vals) (length d) fs =
    Inr (length (d @ storage_bytes vals), fs @ storage_fields (length d) vals)"
  using assms
proof (induction vals arbitrary: d fs)
  case Nil
  then show ?case by simp
next
  case (Cons v vals)
  let ?d = "d @ storage_frame v"
  have len: "unat (get_be (put_be 4 (word_of_nat (length (any_raw v)) :: u32)) :: u32)
      = length (any_raw v)"
    using Cons.prems by (simp add: codec_simps storage_length_word)
  have "ParseStorageCompositeKey_loop (?d @ storage_bytes vals) (map any_kind vals) (length ?d)
      (fs @ [\<lparr>FKind = any_kind v, FOffset = int (length d + 4),
              FLength = int (length (any_raw v))\<rparr>])
    = Inr (length (?d @ storage_bytes vals),
        (fs @ [\<lparr>FKind = any_kind v, FOffset = int (length d + 4),
                FLength = int (length (any_raw v))\<rparr>]) @ storage_fields (length ?d) vals)"
    using Cons by (intro Cons.IH) auto
  then show ?case
    by (simp add: storage_frame_def len Let_def add.assoc)
qed

lemma field_bytes_append:
  "field_bytes (d @ r @ t) \<lparr>FKind = k, FOffset = int (length d), FLength = int (length r)\<rparr> = r"
  by (simp add: field_bytes_def gslice_def nat_add_distrib)

lemma field_rest_append:
  "take (length r) (field_rest (d @ r @ t)
     \<lparr>FKind = k, FOffset = int (length d), FLength = int (length r)\<rparr>) = r"
  by (simp add: field_rest_def)

lemma validateField_append:
  "(k = KindUint64 \<or> k = KindInt64 \<Longrightarrow> length r = 8) \<Longrightarrow>
   validateField (d @ r @ t) \<lparr>FKind = k, FOffset = int (length d), FLength = int (length r)\<rparr>
     = Inr ()"
  by (auto simp: validateField_def)

lemma DecodeStorageComposite_loop_eq:
  assumes "\<forall>v \<in> set vals. storable v"
  shows "DecodeStorageComposite_loop (d @ storage_bytes vals) (storage_fields (length d) vals)
    = Inr vals"
  using assms
proof (induction vals arbitrary: d)
  case Nil
  then show ?case by simp
next
  case (Cons v vals)
  let ?p = "d @ put_be 4 (word_of_nat (length (any_raw v)) :: u32)"
  let ?f = "\<lparr>FKind = any_kind v, FOffset = int (length ?p), FLength = int (length (any_raw v))\<rparr>"
  let ?data = "?p @ any_raw v @ storage_bytes vals"
  have IH: "DecodeStorageComposite_loop ?data (storage_fields (length (?p @ any_raw v)) vals)
      = Inr vals"
    using Cons.IH [of "?p @ any_raw v"] Cons.prems by simp
  have valid: "validateField ?data ?f = Inr ()"
    by (rule validateField_append) (cases v; auto)
  note fld = field_bytes_append [of ?p "any_raw v" "storage_bytes vals" "any_kind v"]
    field_rest_append [of "any_raw v" ?p "storage_bytes vals" "any_kind v"]
  have data: "d @ storage_bytes (v # vals) = ?data"
    by (simp add: storage_frame_def)
  have flds: "storage_fields (length d) (v # vals)
      = ?f # storage_fields (length (?p @ any_raw v)) vals"
    by (simp add: add.assoc)
  show ?case
    unfolding data flds DecodeStorageComposite_loop.simps valid IH
    using fld Cons.prems by (cases v) (simp_all add: codec_simps)
qed

lemma EncodeSortComposite_loop_eq:
  "EncodeSortComposite_loop vals d fs pos = Inr k \<Longrightarrow>
     kdata k = d @ concat (map any_raw vals) \<and>
     (\<forall>v \<in> set vals. any_kind v = KindUint64 \<or> any_kind v = KindInt64)"
proof (induction vals arbitrary: d fs pos)
  case Nil
  then show ?case by auto
next
  case (Cons v vals)
  then show ?case by (cases v) (fastforce)+
qed

lemma any_raw_less:
  assumes "any_kind v = any_kind w" "any_kind v = KindUint64 \<or> any_kind v = KindInt64"
  shows "any_raw v < any_raw w \<longleftrightarrow> any_num v < any_num w"
    and "any_raw v = any_raw w \<longleftrightarrow> any_num v = any_num w"
    and "length (any_raw v) = 8"
proof -
  consider (u) x y where "v = AUint64 x" "w = AUint64 y" | (i) x y where "v = AInt64 x" "w = AInt64 y"
    using assms by (cases v; cases w) auto
  then have "(any_raw v < any_raw w \<longleftrightarrow> any_num v < any_num w)
      \<and> (any_raw v = any_raw w \<longleftrightarrow> any_num v = any_num w) \<and> length (any_raw v) = 8"
  proof cases
    case u
    then show ?thesis
      by (simp add: put_be_less_uint put_be_inj word_uint_eq_iff)
  next
    case i
    then show ?thesis
      by (simp add: put_be_less_u64 put_be_inj flip_sign_less_iff flip_sign_eq_iff sint_eq_iff)
  qed
  then show "any_raw v < any_raw w \<longleftrightarrow> any_num v < any_num w"
    and "any_raw v = any_raw w \<longleftrightarrow> any_num v = any_num w"
    and "length (any_raw v) = 8" by blast+
qed

lemma concat_raw_less:
  assumes "map any_kind vals = map any_kind wals"
    and "\<forall>v \<in> set vals. any_kind v = KindUint64 \<or> any_kind v = KindInt64"
  shows "concat (map any_raw vals) < concat (map any_raw wals) \<longleftrightarrow> map any_num vals < map any_num wals"
  using assms
proof (induction vals arbitrary: wals)
  case Nil
  then show ?case by simp
next
  case (Cons v vals)
  then obtain w wals' where wals: "wals = w # wals'" and k: "any_kind v = any_kind w"
    by (cases wals) auto
  have len: "length (any_raw v) = length (any_raw w)"
    using Cons.prems k any_raw_less(3) [of v w] any_raw_less(3) [of w v] by simp
  show ?case
    using Cons any_raw_less(1,2) [OF k] by (auto simp: wals append_less_cong [OF len])
qed

section \<open>Lemmas: row keys\<close>

fun pk_kind_ok :: "Value list \<Rightarrow> bool" where
  "pk_kind_ok [] = True"
| "pk_kind_ok (v # rest) =
     ((vkind v = KindUint64 \<and> v = Uint64 (vu v)
       \<or> vkind v = KindInt64 \<and> v = Int64 (vu v)
       \<or> vkind v = KindString \<and> v = VString (vs v) \<and> 0 \<notin> set (vs v)
       \<or> vkind v = KindBytes \<and> v = VBytes (vb v) \<and> rest = [])
      \<and> pk_kind_ok rest)"

lemma IndexByte_append: "c \<notin> set xs \<Longrightarrow> IndexByte (xs @ c # ys) c = Some (length xs)"
  by (induction xs) auto

lemma Value_kinds [simp]:
  "vkind (Uint64 u) = KindUint64" "vu (Uint64 u) = u"
  "vkind (Int64 i) = KindInt64" "vu (Int64 i) = i"
  "vkind (VString s) = KindString" "vs (VString s) = s"
  "vkind (VBytes b) = KindBytes" "vb (VBytes b) = b"
  by (simp_all add: Uint64_def Int64_def VString_def VBytes_def)

lemma encode_pk_value_simps [simp]:
  "encode_pk_value (Uint64 u) = put_be 8 u"
  "encode_pk_value (Int64 i) = put_be 8 (flip_sign i)"
  "encode_pk_value (VString s) = s @ [0]"
  "encode_pk_value (VBytes b) = b"
  by (simp_all add: encode_pk_value_def)

lemma DecodeTableRowKey_loop_eq:
  assumes "pk_kind_ok pk" "length tail = 8"
  shows "DecodeTableRowKey_loop (d @ concat (map encode_pk_value pk) @ tail) (map vkind pk)
      (length d) acc
    = Inr (length (d @ concat (map encode_pk_value pk)), acc @ pk)"
  using assms
proof (induction pk arbitrary: d acc)
  case Nil
  then show ?case by simp
next
  case (Cons v pk)
  let ?e = "encode_pk_value v"
  let ?b = "d @ ?e @ concat (map encode_pk_value pk) @ tail"
  have IH: "DecodeTableRowKey_loop ?b (map vkind pk) (length d + length ?e) (acc @ [v])
      = Inr (length d + length ?e + length (concat (map encode_pk_value pk)), acc @ v # pk)"
    using Cons.IH [of "d @ ?e" "acc @ [v]"] Cons.prems by simp
  have tl: "0 < length tail" using Cons.prems by simp
  consider (u) x where "v = Uint64 x" | (i) x where "v = Int64 x"
    | (s) x where "v = VString x" "0 \<notin> set x" | (b) x where "v = VBytes x" "pk = []"
    using Cons.prems(1) by (auto; metis)
  then show ?case
  proof cases
    case u
    then show ?thesis using IH by (simp add: codec_simps add.assoc)
  next
    case i
    then show ?thesis using IH by (simp add: codec_simps add.assoc)
  next
    case s
    then have "IndexByte (x @ 0 # concat (map encode_pk_value pk) @ tail) 0 = Some (length x)"
      by (intro IndexByte_append)
    with s show ?thesis using IH by (simp add: gslice_def add.assoc)
  next
    case b
    then show ?thesis using Cons.prems(2) by (simp add: gslice_def)
  qed
qed

lemma byte_inc_less: "b \<noteq> 0xFF \<Longrightarrow> b < (b :: byte) + 1"
proof -
  assume "b \<noteq> 0xFF"
  then have "unat b \<noteq> 255" by (simp add: word_unat_eq_iff)
  moreover have "unat b < 256" using unsigned_less [of b, where ?'a = nat] by simp
  ultimately show ?thesis by (simp add: word_less_nat_alt unat_word_ariths)
qed

lemma inc_rev_length [simp]: "length (inc_rev p) = length p"
  by (induction p) auto

text \<open>The increment replaces a suffix \<open>b, 0xFF, \<dots>, 0xFF\<close> by \<open>b + 1, 0, \<dots>, 0\<close>.\<close>

lemma inc_rev_shape:
  assumes "\<exists>b \<in> set p. b \<noteq> 0xFF"
  shows "\<exists>q b n. rev p = q @ b # replicate n 0xFF \<and> b \<noteq> 0xFF
     \<and> rev (inc_rev p) = q @ (b + 1) # replicate n 0"
  using assms
proof (induction p)
  case Nil
  then show ?case by simp
next
  case (Cons b p)
  show ?case
  proof (cases "b = 0xFF")
    case True
    with Cons obtain q c n where p: "rev p = q @ c # replicate n 0xFF" and "c \<noteq> 0xFF"
      and inc: "rev (inc_rev p) = q @ (c + 1) # replicate n 0" by auto
    have "b + 1 = 0" using True by simp
    then have "rev (inc_rev (b # p)) = q @ (c + 1) # replicate (Suc n) 0"
      using inc by (simp add: replicate_append_same)
    moreover have "rev (b # p) = q @ c # replicate (Suc n) 0xFF"
      using p True by (simp add: replicate_append_same)
    ultimately have "rev (b # p) = q @ c # replicate (Suc n) 0xFF"
      "rev (inc_rev (b # p)) = q @ (c + 1) # replicate (Suc n) 0" by simp_all
    with \<open>c \<noteq> 0xFF\<close> show ?thesis by blast
  next
    case False
    then have "b + 1 \<noteq> 0" using byte_inc_less [of b] by auto
    then have "rev (inc_rev (b # p)) = rev p @ (b + 1) # replicate 0 0" by simp
    moreover have "rev (b # p) = rev p @ b # replicate 0 0xFF" by simp
    ultimately show ?thesis using False by blast
  qed
qed

section \<open>Properties\<close>

lemma storage_roundtrip:
  assumes "EncodeStorageComposite vals = Inr k"
    and "vals \<noteq> []"
    and "\<forall>v \<in> set vals. length (any_raw v) < 2 ^ 32"
  shows "ParseStorageCompositeKey (kdata k) (map any_kind vals) = Inr k
    \<and> DecodeStorageComposite k = Inr vals"
proof (rule conjI)
  have k: "k = \<lparr>kdata = storage_bytes vals, kfields = storage_fields 0 vals\<rparr>"
    using assms(1) by (simp add: EncodeStorageComposite_eq)
  show "ParseStorageCompositeKey (kdata k) (map any_kind vals) = Inr k"
    using ParseStorageCompositeKey_loop_eq [OF assms(3), of "[]" "[]"] assms(2)
    by (simp add: ParseStorageCompositeKey_def k)
  have ok: "\<forall>v \<in> set vals. storable v"
    using assms(1) by (simp add: EncodeStorageComposite_eq)
  show "DecodeStorageComposite k = Inr vals"
    using DecodeStorageComposite_loop_eq [OF ok, of "[]"] assms(2)
    by (simp add: DecodeStorageComposite_def k)
qed

lemma row_roundtrip:
  assumes "pk_kind_ok pk" "EncodeTableRowKey tableID pk version = Inr b"
  shows "DecodeTableRowKey b (map vkind pk) = Inr (tableID, pk, version)"
proof -
  let ?h = "[tableRowTag] @ put_be 8 tableID"
  have b: "b = ?h @ concat (map encode_pk_value pk) @ put_be 8 version"
    using assms(2) by (simp add: EncodeTableRowKey_def split: if_splits)
  have "b = (?h @ concat (map encode_pk_value pk)) @ put_be 8 version"
    by (simp add: b)
  then have "drop (length (?h @ concat (map encode_pk_value pk))) b = put_be 8 version"
    by (metis append_eq_conv_conj)
  moreover have "DecodeTableRowKey_loop b (map vkind pk) 9 [] =
      Inr (length (?h @ concat (map encode_pk_value pk)), pk)"
    using DecodeTableRowKey_loop_eq [OF assms(1), of "put_be 8 version" ?h "[]"]
    unfolding b by simp
  ultimately show ?thesis
    using b by (simp add: DecodeTableRowKey_def codec_simps)
qed

lemma prefix_bound:
  assumes "PrefixEnd p = Some e"
  shows "p \<le> p @ t \<and> p @ t < e"
proof -
  have "\<exists>b \<in> set (rev p). b \<noteq> 0xFF" and e: "e = rev (inc_rev (rev p))"
    using assms by (auto simp: PrefixEnd_def split: if_splits)
  from inc_rev_shape [OF this(1)] obtain q b n where p: "p = q @ b # replicate n 0xFF"
    and b: "b \<noteq> 0xFF" and r: "rev (inc_rev (rev p)) = q @ (b + 1) # replicate n 0"
    by auto
  have "p @ t < e"
    unfolding e r unfolding p by (simp add: append_less_cong byte_inc_less [OF b])
  moreover have "p \<le> p @ t"
    by (induction p) (auto simp: less_eq_list_code)
  ultimately show ?thesis by simp
qed

text \<open>C31: The storage composite round-trips.  Whenever \<open>EncodeStorageComposite\<close> accepts a
  non-empty list of values whose payloads fit the 32-bit length prefix, parsing the bytes with the
  values' kinds gives back the very key, field table included, and decoding that key gives back
  the values.\<close>

theorem storage_composite_roundtrip:
  assumes "EncodeStorageComposite vals = Inr k"
    and "vals \<noteq> []"
    and "\<forall>v \<in> set vals. length (any_raw v) < 2 ^ 32"
  shows "ParseStorageCompositeKey (kdata k) (map any_kind vals) = Inr k
    \<and> DecodeStorageComposite k = Inr vals"
  by (rule storage_roundtrip [OF assms])

theorem storage_composite_roundtrip_witness:
  "ParseStorageCompositeKey
     (storage_bytes [AUint64 7, AString [104, 105], ABytes []]) [1, 3, 4]
   = Inr \<lparr>kdata = storage_bytes [AUint64 7, AString [104, 105], ABytes []],
          kfields = storage_fields 0 [AUint64 7, AString [104, 105], ABytes []]\<rparr>"
  using storage_composite_roundtrip
    [of "[AUint64 7, AString [104, 105], ABytes []]"
        "\<lparr>kdata = storage_bytes [AUint64 7, AString [104, 105], ABytes []],
          kfields = storage_fields 0 [AUint64 7, AString [104, 105], ABytes []]\<rparr>"]
  by (simp add: EncodeStorageComposite_eq del: storage_bytes_simps storage_fields.simps)

text \<open>C32: Sort composites are order preserving.  For two accepted lists with the same kinds,
  \<open>Compare\<close> on the encoded keys is negative exactly when the first list of numbers is
  lexicographically smaller, unsigned columns compared as unsigned and signed ones as signed
  integers.\<close>

theorem sort_composite_order:
  assumes "EncodeSortComposite vals = Inr k" "EncodeSortComposite wals = Inr l"
    and "map any_kind vals = map any_kind wals"
  shows "Key_Compare k l < 0 \<longleftrightarrow> map any_num vals < map any_num wals"
proof -
  have "kdata k = concat (map any_raw vals)" "kdata l = concat (map any_raw wals)"
    and "\<forall>v \<in> set vals. any_kind v = KindUint64 \<or> any_kind v = KindInt64"
    using EncodeSortComposite_loop_eq [of vals "[]" "[]" 0 k]
      EncodeSortComposite_loop_eq [of wals "[]" "[]" 0 l] assms(1,2)
    by (simp_all add: EncodeSortComposite_def)
  then show ?thesis using concat_raw_less [OF assms(3)] by (simp add: Key_Compare_def)
qed

theorem sort_composite_order_witness:
  "Key_Compare
     \<lparr>kdata = put_be 8 (flip_sign (-5)) @ put_be 8 (9 :: u64),
      kfields = [\<lparr>FKind = 2, FOffset = 0, FLength = 8\<rparr>, \<lparr>FKind = 1, FOffset = 8, FLength = 8\<rparr>]\<rparr>
     \<lparr>kdata = put_be 8 (flip_sign 3) @ put_be 8 (1 :: u64),
      kfields = [\<lparr>FKind = 2, FOffset = 0, FLength = 8\<rparr>, \<lparr>FKind = 1, FOffset = 8, FLength = 8\<rparr>]\<rparr> < 0"
  using sort_composite_order [of "[AInt64 (-5), AUint64 9]" _ "[AInt64 3, AUint64 1]"]
  by (simp add: EncodeSortComposite_def)

text \<open>C33: Row keys round-trip.  A key built by \<open>EncodeTableRowKey\<close> from well-formed
  primary-key values (strings without a NUL byte, a byte-string column only in last position) is
  decoded by \<open>DecodeTableRowKey\<close>, given the columns' kinds, to the same table, values and
  version.\<close>

theorem row_key_roundtrip:
  assumes "pk_kind_ok pk" "EncodeTableRowKey tableID pk version = Inr b"
  shows "DecodeTableRowKey b (map vkind pk) = Inr (tableID, pk, version)"
  by (rule row_roundtrip [OF assms])

theorem row_key_roundtrip_witness:
  "DecodeTableRowKey
     ([tableRowTag] @ put_be 8 (5 :: u64) @ (put_be 8 (flip_sign 2) @ [97, 0]) @ put_be 8 (1 :: u64)) [2, 3]
   = Inr (5, [Int64 2, VString [97]], 1)"
  using row_key_roundtrip [of "[Int64 2, VString [97]]" 5 1] by (simp add: EncodeTableRowKey_def)

text \<open>C34: Versions of one row are adjacent and ordered.  For the same table and primary key, the
  row key of an older version compares below that of a newer one, and both start with the bytes
  of \<open>EncodeTableRowPrefix\<close>.\<close>

theorem row_key_version_order:
  assumes "EncodeTableRowKey tableID pk v1 = Inr b1" "EncodeTableRowKey tableID pk v2 = Inr b2"
    and "EncodeTableRowPrefix tableID pk = Inr p"
  shows "(bytes_compare b1 b2 < 0 \<longleftrightarrow> v1 < v2) \<and> b1 = p @ put_be 8 v1 \<and> b2 = p @ put_be 8 v2"
  using assms
  by (auto simp: EncodeTableRowKey_def EncodeTableRowPrefix_def append_less_cong put_be_less_u64
      split: if_splits)

theorem row_key_version_order_witness:
  "bytes_compare ([tableRowTag] @ put_be 8 (5 :: u64) @ put_be 8 (7 :: u64) @ put_be 8 (1 :: u64))
     ([tableRowTag] @ put_be 8 (5 :: u64) @ put_be 8 (7 :: u64) @ put_be 8 (300 :: u64)) < 0"
proof -
  let ?k = "\<lambda>v. [tableRowTag] @ put_be 8 (5 :: u64) @ put_be 8 (7 :: u64) @ put_be 8 (v :: u64)"
  have key: "EncodeTableRowKey 5 [Uint64 7] v = Inr (?k v)" for v
    by (simp add: EncodeTableRowKey_def)
  have pre: "EncodeTableRowPrefix 5 [Uint64 7] = Inr ([tableRowTag] @ put_be 8 (5 :: u64) @ put_be 8 (7 :: u64))"
    by (simp add: EncodeTableRowPrefix_def)
  have "(1 :: u64) < 300" by simp
  then show ?thesis
    using row_key_version_order [OF key key pre, of 1 300] by blast
qed

text \<open>C35: \<open>PrefixEnd\<close> bounds a prefix scan from above: when it returns a bound \<open>e\<close>
  for \<open>p\<close>, every byte string that starts with \<open>p\<close> lies in \<open>[p, e)\<close>.\<close>

theorem PrefixEnd_bound:
  assumes "PrefixEnd p = Some e"
  shows "p \<le> p @ t \<and> p @ t < e"
  by (rule prefix_bound [OF assms])

theorem PrefixEnd_bound_witness:
  "PrefixEnd [1, 0xFF] = Some [2, 0] \<and> [1, 0xFF] \<le> [1, 0xFF, 9 :: byte] \<and> [1, 0xFF, 9 :: byte] < [2, 0]"
  using PrefixEnd_bound [of "[1, 0xFF]" "[2, 0]" "[9]"] by (simp add: PrefixEnd_def)

end
