(* ===== verification/Pager_Codec.thy ===== *)
theory Pager_Codec
  imports Prelude
begin

text \<open>
  The on-disk formats of the pager (\<open>internal/storage/pager\<close>): data pages and free-list
  pointers (\<open>page.go\<close>), the mirrored header page (\<open>header.go\<close>) and the records of
  the write-ahead log (\<open>wal.go\<close>), byte for byte.  The lemmas give the round trips, that a
  change of any one protected byte is detected, and that a torn log record reads as end of file.
\<close>

section \<open>Constants and errors\<close>

abbreviation (input) PageSize :: nat where "PageSize \<equiv> 4096"
abbreviation (input) DataPageBodySize :: nat where "DataPageBodySize \<equiv> 4084"
abbreviation (input) FormatVersion :: u32 where "FormatVersion \<equiv> 2"
abbreviation (input) MagicNumber :: u32 where "MagicNumber \<equiv> 0x506C6D76"
abbreviation (input) HeaderPageID :: u64 where "HeaderPageID \<equiv> 0"
abbreviation (input) MirrorHeaderPageID :: u64 where "MirrorHeaderPageID \<equiv> 1"
abbreviation (input) FirstDataPageID :: u64 where "FirstDataPageID \<equiv> 2"

definition freeListSentinel :: u64 where
  "freeListSentinel = 0xFFFFFFFFFFFFFFFF"

definition walEOTPageID :: u64 where
  "walEOTPageID = 0xFFFFFFFFFFFFFFFF"

text \<open>The sentinel errors; \<open>ErrIO\<close>, \<open>ErrShortWrite\<close> and \<open>ErrEOF\<close> are those of the
  file operations, \<open>ErrCtx\<close> that of a cancelled context.\<close>

datatype pager_err =
    ErrNotOpen | ErrAlreadyOpen | ErrClosed | ErrNotAPagerFile | ErrUnsupportedVersion
  | ErrPageSizeMismatch | ErrHeaderCorrupt | ErrPageCorrupt | ErrInvalidPageID
  | ErrBodySizeMismatch | ErrAlreadyFree | ErrFreeListCorrupt | ErrTxAlreadyActive
  | ErrNoActiveTx | ErrTxUnsupportedOp | ErrWALCorrupt
  | ErrIO | ErrShortWrite | ErrEOF | ErrCtx

section \<open>Data pages\<close>

definition encodeDataPage :: "bytes \<Rightarrow> pager_err + bytes" where
  "encodeDataPage body =
     (if length body \<noteq> DataPageBodySize then Inl ErrBodySizeMismatch
      else (let buf = zero_bytes PageSize;
                cksum = crc32 body;
                buf = copy_at 8 (put_be 4 cksum) buf
            in Inr (copy_at 12 body buf)))"

definition decodeDataPage :: "bytes \<Rightarrow> pager_err + bytes" where
  "decodeDataPage data =
     (if length data \<noteq> PageSize then Inl ErrPageCorrupt
      else (let storedCksum = get_be (gslice 8 12 data);
                computedCksum = crc32 (drop 12 data)
            in if storedCksum \<noteq> computedCksum then Inl ErrPageCorrupt
               else Inr (copy_at 0 (drop 12 data) (zero_bytes DataPageBodySize))))"

definition encodeFreeListPointer :: "u64 \<Rightarrow> bytes" where
  "encodeFreeListPointer nextPageID = copy_at 0 (put_be 8 nextPageID) (zero_bytes DataPageBodySize)"

definition decodeFreeListPointer :: "bytes \<Rightarrow> pager_err + u64" where
  "decodeFreeListPointer body =
     (if length body \<noteq> DataPageBodySize then Inl ErrPageCorrupt
      else Inr (get_be (gslice 0 8 body)))"

section \<open>The header page\<close>

record pagerHeader =
  h_magic :: u32
  h_version :: u32
  h_pageSize :: u32
  h_pageCount :: u64
  h_freeListHead :: u64
  h_freePageCount :: u64

definition encodeHeader :: "pagerHeader \<Rightarrow> bytes" where
  "encodeHeader h =
     (let buf = zero_bytes PageSize;
          buf = copy_at 0 (put_be 4 (h_magic h)) buf;
          buf = copy_at 4 (put_be 4 (h_version h)) buf;
          buf = copy_at 8 (put_be 4 (h_pageSize h)) buf;
          buf = copy_at 12 (put_be 8 (h_pageCount h)) buf;
          buf = copy_at 20 (put_be 8 (h_freeListHead h)) buf;
          buf = copy_at 28 (put_be 8 (h_freePageCount h)) buf;
          cksum = crc32 (gslice 0 36 buf)
      in copy_at 36 (put_be 4 cksum) buf)"

definition decodeHeader :: "bytes \<Rightarrow> pager_err + pagerHeader" where
  "decodeHeader data =
     (if length data \<noteq> PageSize then Inl ErrHeaderCorrupt
      else (let magic = get_be (gslice 0 4 data) in
        if magic \<noteq> MagicNumber then Inl ErrNotAPagerFile
        else (let version = get_be (gslice 4 8 data) in
          if version \<noteq> FormatVersion then Inl ErrUnsupportedVersion
          else (let pageSize = get_be (gslice 8 12 data) in
            if pageSize \<noteq> (4096 :: u32) then Inl ErrPageSizeMismatch
            else (let storedCksum = get_be (gslice 36 40 data);
                      computedCksum = crc32 (gslice 0 36 data) in
              if storedCksum \<noteq> computedCksum then Inl ErrHeaderCorrupt
              else Inr \<lparr>h_magic = magic, h_version = version, h_pageSize = pageSize,
                        h_pageCount = get_be (gslice 12 20 data),
                        h_freeListHead = get_be (gslice 20 28 data),
                        h_freePageCount = get_be (gslice 28 36 data)\<rparr>)))))"

section \<open>Log records\<close>

definition encodeWALRecord :: "u64 \<Rightarrow> u64 \<Rightarrow> bytes \<Rightarrow> bytes" where
  "encodeWALRecord txnID pageID body =
     (let bodyLen = word_of_nat (length body) :: u32;
          rec = zero_bytes (unat (20 + bodyLen + 4));
          rec = copy_at 0 (put_be 8 txnID) rec;
          rec = copy_at 8 (put_be 8 pageID) rec;
          rec = copy_at 16 (put_be 4 bodyLen) rec;
          rec = copy_at 20 (take (unat bodyLen) body) rec;
          cksum = crc32 (gslice 0 (unat (20 + bodyLen)) rec)
      in copy_at (unat (20 + bodyLen)) (put_be 4 cksum) rec)"

definition encodeEOTMarker :: "u64 \<Rightarrow> bytes" where
  "encodeEOTMarker txnID =
     (let rec = zero_bytes (20 + 4);
          rec = copy_at 0 (put_be 8 txnID) rec;
          rec = copy_at 8 (put_be 8 walEOTPageID) rec;
          cksum = crc32 (gslice 0 20 rec)
      in copy_at 20 (put_be 4 cksum) rec)"

definition isEOTMarker :: "u64 \<Rightarrow> u32 \<Rightarrow> bool" where
  "isEOTMarker pageID bodyLength \<longleftrightarrow> pageID = walEOTPageID \<and> bodyLength = 0"

definition decodeNextWALRecord :: "bytes \<Rightarrow> pager_err + (u64 \<times> u64 \<times> bytes \<times> nat)" where
  "decodeNextWALRecord data =
     (if length data < 20 then Inl ErrEOF
      else (let txnID = get_be (gslice 0 8 data);
                pageID = get_be (gslice 8 16 data);
                bodyLength = get_be (gslice 16 20 data) :: u32 in
        if pageID = walEOTPageID \<and> bodyLength \<noteq> 0 then Inl ErrWALCorrupt
        else if pageID \<noteq> walEOTPageID \<and> bodyLength \<noteq> (4084 :: u32) then Inl ErrWALCorrupt
        else (let requiredLen = 20 + unat bodyLength + 4 in
          if length data < requiredLen then Inl ErrEOF
          else (let storedCksum = get_be (gslice (20 + unat bodyLength) requiredLen data);
                    computedCksum = crc32 (gslice 0 (20 + unat bodyLength) data) in
            if storedCksum \<noteq> computedCksum then Inl ErrWALCorrupt
            else Inr (txnID, pageID,
                   (if bodyLength > 0 then gslice 20 (20 + unat bodyLength) data else []),
                   requiredLen)))))"

section \<open>Lemmas: data pages\<close>

lemma drop_copy_at: "off + length src = length dst \<Longrightarrow> drop off (copy_at off src dst) = src"
  by (simp add: copy_at_def)

lemma copy_at_whole: "length src = length dst \<Longrightarrow> copy_at 0 src dst = src"
  by (simp add: copy_at_def)

lemma encodeDataPage_Inr:
  "encodeDataPage body = Inr img \<longleftrightarrow> length body = 4084 \<and>
     img = copy_at 12 body (copy_at 8 (put_be 4 (crc32 body)) (zero_bytes 4096))"
  by (auto simp: encodeDataPage_def Let_def)

lemma length_encodeDataPage: "encodeDataPage body = Inr img \<Longrightarrow> length img = 4096"
  by (auto simp: encodeDataPage_Inr)

lemma decode_encodeDataPage:
  "encodeDataPage body = Inr img \<Longrightarrow> decodeDataPage img = Inr body"
  by (auto simp: encodeDataPage_Inr decodeDataPage_def Let_def codec_simps drop_copy_at copy_at_whole)

lemma decodeDataPage_length: "decodeDataPage img = Inr body \<Longrightarrow> length body = 4084"
  by (auto simp: decodeDataPage_def Let_def split: if_splits)

lemma length_encodeFreeListPointer [simp]: "length (encodeFreeListPointer n) = 4084"
  by (simp add: encodeFreeListPointer_def)

lemma decode_encodeFreeListPointer [simp]:
  "decodeFreeListPointer (encodeFreeListPointer n) = Inr n"
  by (simp add: decodeFreeListPointer_def encodeFreeListPointer_def codec_simps)

text \<open>Splitting a buffer around a changed byte.\<close>

lemma gslice_update_out: "i < a \<or> b \<le> i \<Longrightarrow> gslice a b (xs[i := x]) = gslice a b xs"
  by (auto simp: gslice_def nth_list_update intro!: nth_equalityI)

lemma gslice_update_in:
  assumes "a \<le> i" "i < b" "b \<le> length xs"
  shows "gslice a b (xs[i := x]) = (gslice a b xs)[i - a := x]"
  using assms by (simp add: gslice_def drop_update_swap take_update_swap)

lemma crc32_update_neq:
  assumes "i < length bs" "x \<noteq> bs ! i"
  shows "crc32 (bs[i := x]) \<noteq> crc32 bs"
proof -
  have "bs = take i bs @ bs ! i # drop (Suc i) bs" "bs[i := x] = take i bs @ x # drop (Suc i) bs"
    using assms by (simp_all add: id_take_nth_drop upd_conv_take_nth_drop)
  then show ?thesis using crc32_one_byte [OF assms(2)] by metis
qed

lemma get_be_u32_update_neq:
  assumes "length bs = 4" "i < 4" "x \<noteq> bs ! i"
  shows "(get_be (bs[i := x]) :: u32) \<noteq> get_be bs"
proof
  assume "(get_be (bs[i := x]) :: u32) = get_be bs"
  then have "put_be 4 (get_be (bs[i := x]) :: u32) = put_be 4 (get_be bs :: u32)" by simp
  then have "bs[i := x] = bs"
    using put_get_be [of "bs[i := x]", where ?'a = 32] put_get_be [of bs, where ?'a = 32] assms
    by simp
  then show False using assms by (metis nth_list_update_eq)
qed

lemma encodeDataPage_fields:
  assumes "encodeDataPage body = Inr img"
  shows "gslice 8 12 img = put_be 4 (crc32 body)" "drop 12 img = body" "length img = 4096"
  using assms by (auto simp: encodeDataPage_Inr codec_simps drop_copy_at)

section \<open>Lemmas: the header\<close>

definition header_ok :: "pagerHeader \<Rightarrow> bool" where
  "header_ok h \<longleftrightarrow> h_magic h = MagicNumber \<and> h_version h = FormatVersion \<and> h_pageSize h = 4096"

lemma length_encodeHeader [simp]: "length (encodeHeader h) = 4096"
  by (simp add: encodeHeader_def Let_def)

lemma encodeHeader_fields:
  "gslice 0 4 (encodeHeader h) = put_be 4 (h_magic h)"
  "gslice 4 8 (encodeHeader h) = put_be 4 (h_version h)"
  "gslice 8 12 (encodeHeader h) = put_be 4 (h_pageSize h)"
  "gslice 12 20 (encodeHeader h) = put_be 8 (h_pageCount h)"
  "gslice 20 28 (encodeHeader h) = put_be 8 (h_freeListHead h)"
  "gslice 28 36 (encodeHeader h) = put_be 8 (h_freePageCount h)"
  "gslice 36 40 (encodeHeader h) = put_be 4 (crc32 (gslice 0 36 (encodeHeader h)))"
  by (simp_all add: encodeHeader_def Let_def codec_simps)

lemma decode_encodeHeader: "header_ok h \<Longrightarrow> decodeHeader (encodeHeader h) = Inr h"
  by (simp add: decodeHeader_def Let_def encodeHeader_fields codec_simps header_ok_def)

lemma decodeHeader_ok: "decodeHeader data = Inr h \<Longrightarrow> header_ok h"
  by (auto simp: decodeHeader_def header_ok_def Let_def split: if_splits)

section \<open>Lemmas: log records\<close>

definition wal_rec :: "u64 \<Rightarrow> u64 \<Rightarrow> bytes \<Rightarrow> bytes" where
  "wal_rec txnID pageID body =
     (let h = put_be 8 txnID @ put_be 8 pageID @ put_be 4 (word_of_nat (length body) :: u32) @ body
      in h @ put_be 4 (crc32 h))"

lemma copy_at_append: "length xs \<le> off \<Longrightarrow> copy_at off src (xs @ ys) = xs @ copy_at (off - length xs) src ys"
  by (simp add: copy_at_def add.commute)

lemma zero_bytes_drop [simp]: "drop n (zero_bytes m) = zero_bytes (m - n)"
  by (simp add: zero_bytes_def)

lemma zero_bytes_take [simp]: "take n (zero_bytes m) = zero_bytes (min n m)"
  by (simp add: zero_bytes_def min_def)

lemma zero_bytes_0 [simp]: "zero_bytes 0 = []"
  by (simp add: zero_bytes_def)

lemma copy_at_zero:
  "off + length src \<le> n \<Longrightarrow>
   copy_at off src (zero_bytes n) = zero_bytes off @ src @ zero_bytes (n - off - length src)"
  by (simp add: copy_at_def)

lemma put_be_zero [simp]: "put_be n 0 = zero_bytes n"
  by (induction n) (simp_all add: zero_bytes_def replicate_append_same)

lemma get_be_zero_bytes [simp]: "get_be (zero_bytes n) = 0"
  by (induction n) (simp_all add: zero_bytes_def replicate_append_same [symmetric] get_be_snoc)

lemma encodeWALRecord_eq:
  assumes "length body = 4084"
  shows "encodeWALRecord txnID pageID body = wal_rec txnID pageID body"
  using assms
  by (simp add: encodeWALRecord_def wal_rec_def Let_def copy_at_zero copy_at_append gslice_def)

lemma encodeEOTMarker_eq: "encodeEOTMarker txnID = wal_rec txnID walEOTPageID []"
  by (simp add: encodeEOTMarker_def wal_rec_def Let_def copy_at_zero copy_at_append gslice_def)

lemma length_wal_rec [simp]: "length (wal_rec txnID pageID body) = 24 + length body"
  by (simp add: wal_rec_def Let_def)

definition wal_shape :: "u64 \<Rightarrow> bytes \<Rightarrow> bool" where
  "wal_shape pageID body \<longleftrightarrow> (if pageID = walEOTPageID then body = [] else length body = 4084)"

lemma wal_rec_fields:
  assumes "wal_shape pageID body"
  shows "gslice 0 8 (wal_rec txnID pageID body @ rest) = put_be 8 txnID"
    and "gslice 8 16 (wal_rec txnID pageID body @ rest) = put_be 8 pageID"
    and "gslice 16 20 (wal_rec txnID pageID body @ rest) = put_be 4 (word_of_nat (length body) :: u32)"
    and "gslice 20 (20 + length body) (wal_rec txnID pageID body @ rest) = body"
    and "gslice (20 + length body) (24 + length body) (wal_rec txnID pageID body @ rest)
          = put_be 4 (crc32 (gslice 0 (20 + length body) (wal_rec txnID pageID body @ rest)))"
  using assms by (simp_all add: wal_rec_def Let_def gslice_def)

lemma wal_shape_length: "wal_shape pageID body \<Longrightarrow> unat (word_of_nat (length body) :: u32) = length body"
  by (auto simp: wal_shape_def split: if_splits)

lemma decode_wal_rec:
  assumes "wal_shape pageID body"
  shows "decodeNextWALRecord (wal_rec txnID pageID body @ rest)
    = Inr (txnID, pageID, body, length (wal_rec txnID pageID body))"
proof (cases "pageID = walEOTPageID")
  case True
  then show ?thesis
    using assms wal_rec_fields [OF assms, of txnID rest]
    by (simp add: decodeNextWALRecord_def Let_def codec_simps wal_shape_def)
next
  case False
  then have len: "length body = 4084" using assms by (simp add: wal_shape_def)
  have "(4084 :: u32) \<noteq> 0" "(0 :: u32) < 4084" by simp_all
  then show ?thesis
    using len False wal_rec_fields [OF assms, of txnID rest]
    by (simp add: decodeNextWALRecord_def Let_def codec_simps)
qed

lemma decode_wal_rec_torn:
  assumes "wal_shape pageID body" "n < length (wal_rec txnID pageID body)"
  shows "decodeNextWALRecord (take n (wal_rec txnID pageID body)) = Inl ErrEOF"
proof (cases "n < 20")
  case True
  then show ?thesis by (simp add: decodeNextWALRecord_def)
next
  case False
  have "gslice a b (take n (wal_rec txnID pageID body)) = gslice a b (wal_rec txnID pageID body)"
    if "b \<le> 20" for a b
    using that False by (simp add: gslice_def drop_take)
  then show ?thesis
    using assms False wal_rec_fields [OF assms(1), of txnID "[]"] wal_shape_length [OF assms(1)]
    by (auto simp: decodeNextWALRecord_def Let_def codec_simps wal_shape_def split: if_splits)
qed

lemma decodeNextWALRecord_consumed:
  "decodeNextWALRecord data = Inr (t, p, b, n) \<Longrightarrow> 0 < n \<and> n \<le> length data"
  by (auto simp: decodeNextWALRecord_def Let_def split: if_splits)

section \<open>Properties\<close>

text \<open>C29: Data pages round-trip and a changed byte is always detected.  Decoding the image
  \<open>encodeDataPage\<close> makes gives the body back, and an image in which any one byte of the
  checksum or of the body has been replaced by a different one is rejected as corrupt.\<close>

theorem data_page_integrity:
  assumes "encodeDataPage body = Inr img"
  shows "decodeDataPage img = Inr body \<and>
    (\<forall>i x. 8 \<le> i \<and> i < 4096 \<and> x \<noteq> img ! i \<longrightarrow> decodeDataPage (img[i := x]) = Inl ErrPageCorrupt)"
proof (intro conjI allI impI)
  show "decodeDataPage img = Inr body" using assms by (rule decode_encodeDataPage)
  fix i x assume ix: "8 \<le> i \<and> i < 4096 \<and> x \<noteq> img ! i"
  note f = encodeDataPage_fields [OF assms]
  have "(get_be (gslice 8 12 (img[i := x])) :: u32) \<noteq> crc32 (drop 12 (img[i := x]))"
  proof (cases "i < 12")
    case True
    have "gslice 8 12 img ! (i - 8) = img ! i" using ix True f(3) by (simp add: gslice_nth)
    then have "(get_be ((gslice 8 12 img)[i - 8 := x]) :: u32) \<noteq> get_be (gslice 8 12 img)"
      using ix True f(3) by (intro get_be_u32_update_neq) auto
    then show ?thesis
      using ix True f by (simp add: gslice_update_in codec_simps)
  next
    case False
    have "crc32 ((drop 12 img)[i - 12 := x]) \<noteq> crc32 (drop 12 img)"
      using ix False f(3) by (intro crc32_update_neq) auto
    then show ?thesis
      using ix False f by (simp add: gslice_update_out drop_update_swap codec_simps)
  qed
  then show "decodeDataPage (img[i := x]) = Inl ErrPageCorrupt"
    using f(3) by (simp add: decodeDataPage_def Let_def)
qed

theorem data_page_integrity_witness:
  "\<exists>img. encodeDataPage (zero_bytes 4084) = Inr img \<and> decodeDataPage img = Inr (zero_bytes 4084)"
proof -
  obtain img where "encodeDataPage (zero_bytes 4084) = Inr img"
    by (auto simp: encodeDataPage_Inr)
  then show ?thesis using data_page_integrity by blast
qed

text \<open>C30: The header page round-trips and protects itself.  \<open>decodeHeader\<close> inverts
  \<open>encodeHeader\<close> on headers with the compiled magic number, version and page size, and
  replacing any one of the first 40 bytes by a different one makes it fail: with the error of the
  field for the three constant fields, with \<open>ErrHeaderCorrupt\<close> elsewhere.\<close>

theorem header_integrity:
  assumes "header_ok h"
  shows "decodeHeader (encodeHeader h) = Inr h \<and>
    (\<forall>i x. i < 40 \<and> x \<noteq> encodeHeader h ! i \<longrightarrow>
       decodeHeader ((encodeHeader h)[i := x]) =
         Inl (if i < 4 then ErrNotAPagerFile else if i < 8 then ErrUnsupportedVersion
              else if i < 12 then ErrPageSizeMismatch else ErrHeaderCorrupt))"
proof (intro conjI allI impI)
  let ?d = "encodeHeader h"
  show "decodeHeader ?d = Inr h" using assms by (rule decode_encodeHeader)
  fix i x assume ix: "i < 40 \<and> x \<noteq> ?d ! i"
  note f = encodeHeader_fields [of h]
  have word: "(get_be (gslice a (a + 4) (?d[i := x])) :: u32) \<noteq> get_be (gslice a (a + 4) ?d)"
    if "a \<le> i" "i < a + 4" for a
  proof -
    have "gslice a (a + 4) ?d ! (i - a) = ?d ! i" using that ix by (simp add: gslice_nth)
    then have "(get_be ((gslice a (a + 4) ?d)[i - a := x]) :: u32) \<noteq> get_be (gslice a (a + 4) ?d)"
      using that ix by (intro get_be_u32_update_neq) auto
    then show ?thesis using that ix by (simp add: gslice_update_in)
  qed
  have crc: "crc32 (gslice 0 36 (?d[i := x])) \<noteq> crc32 (gslice 0 36 ?d)" if "i < 36"
  proof -
    have "gslice 0 36 ?d ! i = ?d ! i" using that by (simp add: gslice_nth)
    then have "crc32 ((gslice 0 36 ?d)[i := x]) \<noteq> crc32 (gslice 0 36 ?d)"
      using that ix by (intro crc32_update_neq) auto
    then show ?thesis using that by (simp add: gslice_update_in)
  qed
  note ok = assms [unfolded header_ok_def]
  consider "i < 4" | "4 \<le> i" "i < 8" | "8 \<le> i" "i < 12" | "12 \<le> i" "i < 36" | "36 \<le> i" "i < 40"
    using ix by linarith
  then show "decodeHeader (?d[i := x]) =
      Inl (if i < 4 then ErrNotAPagerFile else if i < 8 then ErrUnsupportedVersion
           else if i < 12 then ErrPageSizeMismatch else ErrHeaderCorrupt)"
  proof cases
    case 1
    then show ?thesis using word [of 0] ok f by (simp add: decodeHeader_def codec_simps)
  next
    case 2
    then show ?thesis
      using word [of 4] ok f by (simp add: decodeHeader_def gslice_update_out codec_simps)
  next
    case 3
    then show ?thesis
      using word [of 8] ok f by (simp add: decodeHeader_def gslice_update_out codec_simps)
  next
    case 4
    then show ?thesis
      using crc ok f by (simp add: decodeHeader_def Let_def gslice_update_out codec_simps)
  next
    case 5
    then show ?thesis
      using word [of 36] ok f by (simp add: decodeHeader_def Let_def gslice_update_out codec_simps)
  qed
qed

theorem header_integrity_witness:
  "decodeHeader (encodeHeader \<lparr>h_magic = 0x506C6D76, h_version = 2, h_pageSize = 4096,
       h_pageCount = 2, h_freeListHead = freeListSentinel, h_freePageCount = 0\<rparr>)
   = Inr \<lparr>h_magic = 0x506C6D76, h_version = 2, h_pageSize = 4096,
       h_pageCount = 2, h_freeListHead = freeListSentinel, h_freePageCount = 0\<rparr>"
  using header_integrity [of "\<lparr>h_magic = 0x506C6D76, h_version = 2, h_pageSize = 4096,
       h_pageCount = 2, h_freeListHead = freeListSentinel, h_freePageCount = 0\<rparr>"]
  by (simp add: header_ok_def)

end
