(* ===== verification/Pager.thy ===== *)
theory Pager
  imports Pager_Codec "HOL-Library.AList" "HOL-Library.Multiset"
begin

text \<open>
  The page manager \<open>internal/storage/pager/pager.go\<close> as a state machine over its two files.
  The record \<open>filePager\<close> holds the fields of the Go struct and the contents of the main file
  and of the log; every method is a function from a state to a state and a result.  The outcome of
  each writing file operation (success, a write that fails after \<open>n\<close> bytes, a short write) is
  taken from the list \<open>fp_io\<close>, the empty list standing for a healthy disk, so that every error
  path of the code is a path of the model.  \<open>fp_order\<close> is the order in which the runtime
  iterates over a map.  A context is the value its \<open>Err()\<close> returns; the mutex makes every
  method one step.
\<close>

section \<open>Files\<close>

datatype io_outcome = IoOk | IoFail nat | IoShort nat

definition write_file :: "bytes \<Rightarrow> nat \<Rightarrow> bytes \<Rightarrow> bytes" where
  "write_file f off d =
     (if d = [] then f
      else take off (f @ zero_bytes (off - length f)) @ d @ drop (off + length d) f)"

definition read_file :: "bytes \<Rightarrow> int \<Rightarrow> nat \<Rightarrow> pager_err + bytes" where
  "read_file f off n =
     (if off < 0 then Inl ErrIO
      else if nat off + n \<le> length f then Inr (gslice (nat off) (nat off + n) f)
      else Inl ErrEOF)"

text \<open>\<open>int64(pageID) * PageSize\<close>, with the wrap-around of \<open>int64\<close>.\<close>

definition page_offset :: "u64 \<Rightarrow> int" where
  "page_offset pageID = sint (pageID * 4096)"

section \<open>State\<close>

datatype storeState = stateNeverOpened | stateOpen | stateClosed

record filePager =
  fp_threshold :: int
  fp_main :: bytes
  fp_wal :: bytes
  fp_io :: "io_outcome list"
  fp_order :: "(u64 \<times> bytes) list \<Rightarrow> (u64 \<times> bytes) list"
  fp_state :: storeState
  fp_openErr :: "pager_err option"
  fp_pageCount :: u64
  fp_freeListHead :: u64
  fp_freeCount :: u64
  fp_freeSet :: "u64 set"
  fp_inTxn :: bool
  fp_nextTxnID :: u64
  fp_currentTxn :: u64
  fp_txnBuffer :: "(u64 \<times> bytes) list"
  fp_walSize :: nat

type_synonym ctx = "pager_err option"

definition next_io :: "filePager \<Rightarrow> filePager \<times> io_outcome" where
  "next_io p = (case fp_io p of [] \<Rightarrow> (p, IoOk) | o1 # rest \<Rightarrow> (p\<lparr>fp_io := rest\<rparr>, o1))"

text \<open>\<open>WriteAt\<close> on the main file followed by the code's checks of the error and of the count.\<close>

definition main_WriteAt :: "bytes \<Rightarrow> int \<Rightarrow> filePager \<Rightarrow> filePager \<times> (pager_err + unit)" where
  "main_WriteAt d off p =
     (if off < 0 then (p, Inl ErrIO)
      else (case next_io p of (p, o1) \<Rightarrow>
        (case o1 of
           IoOk \<Rightarrow> (p\<lparr>fp_main := write_file (fp_main p) (nat off) d\<rparr>, Inr ())
         | IoFail n \<Rightarrow> (p\<lparr>fp_main := write_file (fp_main p) (nat off) (take n d)\<rparr>, Inl ErrIO)
         | IoShort n \<Rightarrow> (p\<lparr>fp_main := write_file (fp_main p) (nat off) (take n d)\<rparr>,
                        if n < length d then Inl ErrShortWrite else Inr ()))))"

definition wal_WriteAt :: "bytes \<Rightarrow> nat \<Rightarrow> filePager \<Rightarrow> filePager \<times> (pager_err + unit)" where
  "wal_WriteAt d off p =
     (case next_io p of (p, o1) \<Rightarrow>
        (case o1 of
           IoOk \<Rightarrow> (p\<lparr>fp_wal := write_file (fp_wal p) off d\<rparr>, Inr ())
         | IoFail n \<Rightarrow> (p\<lparr>fp_wal := write_file (fp_wal p) off (take n d)\<rparr>, Inl ErrIO)
         | IoShort n \<Rightarrow> (p\<lparr>fp_wal := write_file (fp_wal p) off (take n d)\<rparr>,
                        if n < length d then Inl ErrShortWrite else Inr ())))"

text \<open>\<open>Sync\<close>, \<open>Stat\<close> and \<open>Close\<close> of a file: they may fail and change no content.\<close>

definition file_op :: "filePager \<Rightarrow> filePager \<times> (pager_err + unit)" where
  "file_op p = (case next_io p of (p, o1) \<Rightarrow> (case o1 of IoOk \<Rightarrow> (p, Inr ()) | _ \<Rightarrow> (p, Inl ErrIO)))"

definition wal_Truncate :: "filePager \<Rightarrow> filePager \<times> (pager_err + unit)" where
  "wal_Truncate p =
     (case next_io p of (p, o1) \<Rightarrow>
        (case o1 of IoOk \<Rightarrow> (p\<lparr>fp_wal := []\<rparr>, Inr ()) | _ \<Rightarrow> (p, Inl ErrIO)))"

definition newPager :: "int \<Rightarrow> bytes \<Rightarrow> bytes \<Rightarrow> io_outcome list
    \<Rightarrow> ((u64 \<times> bytes) list \<Rightarrow> (u64 \<times> bytes) list) \<Rightarrow> filePager" where
  "newPager threshold mainFile walFile io order =
     \<lparr>fp_threshold = threshold, fp_main = mainFile, fp_wal = walFile, fp_io = io, fp_order = order,
      fp_state = stateNeverOpened, fp_openErr = None, fp_pageCount = 0,
      fp_freeListHead = freeListSentinel, fp_freeCount = 0, fp_freeSet = {},
      fp_inTxn = False, fp_nextTxnID = 0, fp_currentTxn = 0, fp_txnBuffer = [], fp_walSize = 0\<rparr>"

definition checkState :: "filePager \<Rightarrow> pager_err option" where
  "checkState p =
     (case fp_state p of
        stateOpen \<Rightarrow> None
      | stateNeverOpened \<Rightarrow> Some ErrNotOpen
      | stateClosed \<Rightarrow> Some ErrClosed)"

section \<open>Pages and headers\<close>

definition readBodyUnchecked :: "bytes \<Rightarrow> u64 \<Rightarrow> pager_err + bytes" where
  "readBodyUnchecked f pageID =
     (case read_file f (page_offset pageID) PageSize of
        Inl e \<Rightarrow> Inl e
      | Inr buf \<Rightarrow> decodeDataPage buf)"

definition writeBodyUnchecked :: "u64 \<Rightarrow> bytes \<Rightarrow> filePager \<Rightarrow> filePager \<times> (pager_err + unit)" where
  "writeBodyUnchecked pageID body p =
     (case encodeDataPage body of
        Inl e \<Rightarrow> (p, Inl e)
      | Inr encoded \<Rightarrow>
        (case main_WriteAt encoded (page_offset pageID) p of
           (p, Inl e) \<Rightarrow> (p, Inl e)
         | (p, Inr _) \<Rightarrow> file_op p))"

definition writeHeader :: "u64 \<Rightarrow> u64 \<Rightarrow> filePager \<Rightarrow> filePager \<times> (pager_err + unit)" where
  "writeHeader pageCount freeListHead p =
     (let header = encodeHeader
            \<lparr>h_magic = MagicNumber, h_version = FormatVersion, h_pageSize = 4096,
             h_pageCount = pageCount, h_freeListHead = freeListHead,
             h_freePageCount = fp_freeCount p\<rparr> in
      case main_WriteAt header (page_offset MirrorHeaderPageID) p of
        (p, Inl e) \<Rightarrow> (p, Inl e)
      | (p, Inr _) \<Rightarrow>
        (case file_op p of
           (p, Inl e) \<Rightarrow> (p, Inl e)
         | (p, Inr _) \<Rightarrow>
           (case main_WriteAt header (page_offset HeaderPageID) p of
              (p, Inl e) \<Rightarrow> (p, Inl e)
            | (p, Inr _) \<Rightarrow> file_op p)))"

definition validatePageID :: "u64 \<Rightarrow> filePager \<Rightarrow> pager_err option" where
  "validatePageID pageID p =
     (if pageID = 0 \<or> pageID = MirrorHeaderPageID then Some ErrInvalidPageID
      else if pageID \<ge> fp_pageCount p then Some ErrInvalidPageID
      else None)"

section \<open>Log replay\<close>

function parse_wal :: "bytes \<Rightarrow> pager_err + (u64 \<times> u64 \<times> bytes) list" where
  "parse_wal data =
     (if data = [] then Inr []
      else (case decodeNextWALRecord data of
          Inl e \<Rightarrow> if e = ErrEOF then Inr [] else Inl e
        | Inr (txnID, pageID, body, consumed) \<Rightarrow>
          (case parse_wal (drop consumed data) of
             Inl e \<Rightarrow> Inl e
           | Inr recs \<Rightarrow> Inr ((txnID, pageID, body) # recs))))"
  by pat_completeness auto
termination
  by (relation "measure length") (auto dest!: decodeNextWALRecord_consumed)

text \<open>Grouping by transaction, in order of first appearance.\<close>

fun add_to_group :: "u64 \<times> u64 \<times> bytes \<Rightarrow> (u64 \<times> (u64 \<times> u64 \<times> bytes) list) list
    \<Rightarrow> (u64 \<times> (u64 \<times> u64 \<times> bytes) list) list" where
  "add_to_group rec [] = [(fst rec, [rec])]"
| "add_to_group rec ((t, recs) # gs) =
     (if t = fst rec then (t, recs @ [rec]) # gs else (t, recs) # add_to_group rec gs)"

definition group_records :: "(u64 \<times> u64 \<times> bytes) list \<Rightarrow> (u64 \<times> (u64 \<times> u64 \<times> bytes) list) list" where
  "group_records recs = foldl (\<lambda>gs rec. add_to_group rec gs) [] recs"

definition group_hasEOT :: "(u64 \<times> u64 \<times> bytes) list \<Rightarrow> bool" where
  "group_hasEOT recs = list_ex (\<lambda>(_, pageID, _). isEOTMarker pageID 0) recs"

definition group_applied :: "(u64 \<times> u64 \<times> bytes) list \<Rightarrow> (u64 \<times> bytes) list" where
  "group_applied recs =
     foldl (\<lambda>m (_, pageID, body). if isEOTMarker pageID 0 then m else AList.update pageID body m) [] recs"

text \<open>Writing a list of page images to the main file (the loop over a Go map).\<close>

fun write_pages :: "(u64 \<times> bytes) list \<Rightarrow> filePager \<Rightarrow> filePager \<times> (pager_err + unit)" where
  "write_pages [] p = (p, Inr ())"
| "write_pages ((pageID, body) # rest) p =
     (case encodeDataPage body of
        Inl e \<Rightarrow> (p, Inl e)
      | Inr encoded \<Rightarrow>
        (case main_WriteAt encoded (page_offset pageID) p of
           (p, Inl e) \<Rightarrow> (p, Inl e)
         | (p, Inr _) \<Rightarrow> write_pages rest p))"

fun apply_groups :: "(u64 \<times> (u64 \<times> u64 \<times> bytes) list) list \<Rightarrow> filePager
    \<Rightarrow> filePager \<times> (pager_err + unit)" where
  "apply_groups [] p = (p, Inr ())"
| "apply_groups ((t, recs) # gs) p =
     (if \<not> group_hasEOT recs then apply_groups gs p
      else (case write_pages (fp_order p (group_applied recs)) p of
          (p, Inl e) \<Rightarrow> (p, Inl e)
        | (p, Inr _) \<Rightarrow>
          (case file_op p of
             (p, Inl e) \<Rightarrow> (p, Inl e)
           | (p, Inr _) \<Rightarrow> apply_groups gs p)))"

definition truncate_wal :: "filePager \<Rightarrow> filePager \<times> (pager_err + unit)" where
  "truncate_wal p =
     (case wal_Truncate p of
        (p, Inl e) \<Rightarrow> (p, Inl e)
      | (p, Inr _) \<Rightarrow> (p\<lparr>fp_walSize := 0\<rparr>, Inr ()))"

definition replayWALInternal :: "filePager \<Rightarrow> filePager \<times> (pager_err + unit)" where
  "replayWALInternal p =
     (if fp_walSize p = 0 then (p, Inr ())
      else (case read_file (fp_wal p) 0 (fp_walSize p) of
          Inl e \<Rightarrow> (p, Inl e)
        | Inr walData \<Rightarrow>
          (case parse_wal walData of
             Inl e \<Rightarrow> (p, Inl e)
           | Inr records \<Rightarrow>
             (if records = [] then truncate_wal p
              else (case apply_groups (group_records records) p of
                  (p, Inl e) \<Rightarrow> (p, Inl e)
                | (p, Inr _) \<Rightarrow> truncate_wal p)))))"

section \<open>Opening and closing\<close>

lemma card_unseen_less [termination_simp]:
  "x \<notin> seen \<Longrightarrow> card (UNIV - insert x seen) < card (UNIV - seen)" for seen :: "u64 set"
  by (rule psubset_card_mono) auto

function free_walk :: "bytes \<Rightarrow> u64 \<Rightarrow> u64 \<Rightarrow> u64 set \<Rightarrow> u64 set \<Rightarrow> pager_err + u64 set" where
  "free_walk f pageCount cur walkSeen freeSet =
     (if cur = freeListSentinel then Inr freeSet
      else if cur = 0 \<or> cur \<ge> pageCount then Inl ErrFreeListCorrupt
      else if cur \<in> walkSeen then Inl ErrFreeListCorrupt
      else (case readBodyUnchecked f cur of
          Inl e \<Rightarrow> Inl e
        | Inr body \<Rightarrow>
          (case decodeFreeListPointer body of
             Inl e \<Rightarrow> Inl e
           | Inr nxt \<Rightarrow> free_walk f pageCount nxt (insert cur walkSeen) (insert cur freeSet))))"
  by pat_completeness auto
termination
  by (relation "measure (\<lambda>(f, pc, cur, seen, fs). card (UNIV - seen))")
    (auto simp del: card_Diff_insert simp add: card_unseen_less)

text \<open>The header: page 0, or else page 1, which is then copied back to page 0 (best effort).\<close>

definition read_header :: "filePager \<Rightarrow> filePager \<times> (pager_err + pagerHeader)" where
  "read_header p =
     (let primary = (case read_file (fp_main p) (page_offset HeaderPageID) PageSize of
                       Inl e \<Rightarrow> Inl e | Inr buf \<Rightarrow> decodeHeader buf) in
      case primary of
        Inr h \<Rightarrow> (p, Inr h)
      | Inl _ \<Rightarrow>
        (case read_file (fp_main p) (page_offset MirrorHeaderPageID) PageSize of
           Inl e \<Rightarrow> (p, Inl e)
         | Inr buf \<Rightarrow>
           (case decodeHeader buf of
              Inl e \<Rightarrow> (p, Inl e)
            | Inr h \<Rightarrow>
              (case main_WriteAt buf (page_offset HeaderPageID) p of
                 (p, Inl ErrIO) \<Rightarrow> (p, Inr h)
               | (p, _) \<Rightarrow> (fst (file_op p), Inr h)))))"

definition pager_Open :: "ctx \<Rightarrow> filePager \<Rightarrow> filePager \<times> (pager_err + unit)" where
  "pager_Open ctx p =
     (case ctx of Some e \<Rightarrow> (p, Inl e) | None \<Rightarrow>
      case fp_openErr p of Some e \<Rightarrow> (p, Inl e) | None \<Rightarrow>
      if fp_state p = stateOpen then (p, Inl ErrAlreadyOpen)
      else if fp_state p \<noteq> stateNeverOpened then (p, Inl ErrClosed)
      else (case file_op p of
          (p, Inl e) \<Rightarrow> (p, Inl e)
        | (p, Inr _) \<Rightarrow>
          if length (fp_main p) = 0 then
            (case writeHeader 2 freeListSentinel p of
               (p, Inl e) \<Rightarrow> (p, Inl e)
             | (p, Inr _) \<Rightarrow>
               (p\<lparr>fp_state := stateOpen, fp_pageCount := 2, fp_freeListHead := freeListSentinel,
                  fp_freeCount := 0\<rparr>, Inr ()))
          else
            (case read_header p of
               (p, Inl e) \<Rightarrow> (p, Inl e)
             | (p, Inr h) \<Rightarrow>
               (case free_walk (fp_main p) (h_pageCount h) (h_freeListHead h) {} {} of
                  Inl e \<Rightarrow> (p, Inl e)
                | Inr freeSet \<Rightarrow>
                  (let p = p\<lparr>fp_state := stateOpen, fp_pageCount := h_pageCount h,
                             fp_freeListHead := h_freeListHead h,
                             fp_freeCount := h_freePageCount h, fp_freeSet := freeSet\<rparr> in
                   if word_of_nat (card freeSet) \<noteq> fp_freeCount p then (p, Inl ErrFreeListCorrupt)
                   else (case file_op p of
                       (p, Inl e) \<Rightarrow> (p, Inl e)
                     | (p, Inr _) \<Rightarrow>
                       replayWALInternal (p\<lparr>fp_walSize := length (fp_wal p)\<rparr>)))))))"

definition pager_Close :: "filePager \<Rightarrow> filePager \<times> (pager_err + unit)" where
  "pager_Close p =
     (case checkState p of Some e \<Rightarrow> (p, Inl e) | None \<Rightarrow>
      case replayWALInternal p of (p, Inl e) \<Rightarrow> (p, Inl e) | (p, Inr _) \<Rightarrow>
      case file_op p of (p, Inl e) \<Rightarrow> (p, Inl e) | (p, Inr _) \<Rightarrow>
      case file_op p of (p, Inl e) \<Rightarrow> (p, Inl e) | (p, Inr _) \<Rightarrow>
      case file_op p of (p, Inl e) \<Rightarrow> (p, Inl e) | (p, Inr _) \<Rightarrow>
      (p\<lparr>fp_state := stateClosed\<rparr>, Inr ()))"

section \<open>Transactions\<close>

definition BeginTx :: "ctx \<Rightarrow> filePager \<Rightarrow> filePager \<times> (pager_err + unit)" where
  "BeginTx ctx p =
     (case ctx of Some e \<Rightarrow> (p, Inl e) | None \<Rightarrow>
      case checkState p of Some e \<Rightarrow> (p, Inl e) | None \<Rightarrow>
      if fp_inTxn p then (p, Inl ErrTxAlreadyActive)
      else (let p = p\<lparr>fp_inTxn := True, fp_nextTxnID := fp_nextTxnID p + 1\<rparr> in
        (p\<lparr>fp_currentTxn := fp_nextTxnID p, fp_txnBuffer := []\<rparr>, Inr ())))"

definition CommitTx :: "ctx \<Rightarrow> filePager \<Rightarrow> filePager \<times> (pager_err + unit)" where
  "CommitTx ctx p =
     (case ctx of Some e \<Rightarrow> (p, Inl e) | None \<Rightarrow>
      case checkState p of Some e \<Rightarrow> (p, Inl e) | None \<Rightarrow>
      if \<not> fp_inTxn p then (p, Inl ErrNoActiveTx)
      else (let eot = encodeEOTMarker (fp_currentTxn p) in
        case wal_WriteAt eot (fp_walSize p) p of (p, Inl e) \<Rightarrow> (p, Inl e) | (p, Inr _) \<Rightarrow>
        case file_op p of (p, Inl e) \<Rightarrow> (p, Inl e) | (p, Inr _) \<Rightarrow>
        (let applyBuffer = fp_txnBuffer p;
             p = p\<lparr>fp_walSize := fp_walSize p + length eot, fp_inTxn := False,
                   fp_txnBuffer := [], fp_currentTxn := 0\<rparr> in
         case write_pages (fp_order p applyBuffer) p of (p, Inl e) \<Rightarrow> (p, Inl e) | (p, Inr _) \<Rightarrow>
         case file_op p of (p, Inl e) \<Rightarrow> (p, Inl e) | (p, Inr _) \<Rightarrow>
         if fp_threshold p = 0 \<or> int (fp_walSize p) \<ge> fp_threshold p
         then replayWALInternal p
         else (p, Inr ()))))"

definition RollbackTx :: "ctx \<Rightarrow> filePager \<Rightarrow> filePager \<times> (pager_err + unit)" where
  "RollbackTx ctx p =
     (case ctx of Some e \<Rightarrow> (p, Inl e) | None \<Rightarrow>
      case checkState p of Some e \<Rightarrow> (p, Inl e) | None \<Rightarrow>
      if \<not> fp_inTxn p then (p, Inl ErrNoActiveTx)
      else (p\<lparr>fp_inTxn := False, fp_txnBuffer := [], fp_currentTxn := 0\<rparr>, Inr ()))"

section \<open>Page operations\<close>

definition AllocatePage :: "ctx \<Rightarrow> filePager \<Rightarrow> filePager \<times> (pager_err + u64)" where
  "AllocatePage ctx p =
     (case ctx of Some e \<Rightarrow> (p, Inl e) | None \<Rightarrow>
      case checkState p of Some e \<Rightarrow> (p, Inl e) | None \<Rightarrow>
      if fp_inTxn p then (p, Inl ErrTxUnsupportedOp)
      else if fp_freeListHead p \<noteq> freeListSentinel then
        (let allocID = fp_freeListHead p in
         case readBodyUnchecked (fp_main p) allocID of Inl e \<Rightarrow> (p, Inl e) | Inr body \<Rightarrow>
         case decodeFreeListPointer body of Inl e \<Rightarrow> (p, Inl e) | Inr nextHead \<Rightarrow>
         case writeBodyUnchecked allocID (zero_bytes DataPageBodySize) p of
           (p, Inl e) \<Rightarrow> (p, Inl e)
         | (p, Inr _) \<Rightarrow>
           (let oldHead = fp_freeListHead p;
                oldCount = fp_freeCount p;
                p = p\<lparr>fp_freeSet := fp_freeSet p - {allocID}, fp_freeListHead := nextHead,
                      fp_freeCount := if fp_freeCount p > 0 then fp_freeCount p - 1
                                      else fp_freeCount p\<rparr> in
            case writeHeader (fp_pageCount p) nextHead p of
              (p, Inl e) \<Rightarrow>
                (p\<lparr>fp_freeSet := insert allocID (fp_freeSet p), fp_freeListHead := oldHead,
                   fp_freeCount := oldCount\<rparr>, Inl e)
            | (p, Inr _) \<Rightarrow> (p, Inr allocID)))
      else
        (let newID = fp_pageCount p in
         case writeBodyUnchecked newID (zero_bytes DataPageBodySize) p of
           (p, Inl e) \<Rightarrow> (p, Inl e)
         | (p, Inr _) \<Rightarrow>
           (let oldPageCount = fp_pageCount p;
                p = p\<lparr>fp_pageCount := fp_pageCount p + 1\<rparr> in
            case writeHeader (fp_pageCount p) (fp_freeListHead p) p of
              (p, Inl e) \<Rightarrow> (p\<lparr>fp_pageCount := oldPageCount\<rparr>, Inl e)
            | (p, Inr _) \<Rightarrow> (p, Inr newID))))"

definition ReadPage :: "ctx \<Rightarrow> u64 \<Rightarrow> filePager \<Rightarrow> pager_err + bytes" where
  "ReadPage ctx pageID p =
     (case ctx of Some e \<Rightarrow> Inl e | None \<Rightarrow>
      case checkState p of Some e \<Rightarrow> Inl e | None \<Rightarrow>
      case validatePageID pageID p of Some e \<Rightarrow> Inl e | None \<Rightarrow>
      if pageID \<in> fp_freeSet p then Inl ErrInvalidPageID
      else (case (if fp_inTxn p then map_of (fp_txnBuffer p) pageID else None) of
          Some buf \<Rightarrow> Inr (copy_at 0 buf (zero_bytes DataPageBodySize))
        | None \<Rightarrow> readBodyUnchecked (fp_main p) pageID))"

definition appendWAL :: "u64 \<Rightarrow> bytes \<Rightarrow> filePager \<Rightarrow> filePager \<times> (pager_err + unit)" where
  "appendWAL pageID body p =
     (let rec = encodeWALRecord (fp_currentTxn p) pageID body in
      case wal_WriteAt rec (fp_walSize p) p of (p, Inl e) \<Rightarrow> (p, Inl e) | (p, Inr _) \<Rightarrow>
      case file_op p of (p, Inl e) \<Rightarrow> (p, Inl e) | (p, Inr _) \<Rightarrow>
      (let cp = copy_at 0 body (zero_bytes DataPageBodySize) in
       (p\<lparr>fp_txnBuffer := AList.update pageID cp (fp_txnBuffer p),
          fp_walSize := fp_walSize p + length rec\<rparr>, Inr ())))"

definition WritePage :: "ctx \<Rightarrow> u64 \<Rightarrow> bytes \<Rightarrow> filePager \<Rightarrow> filePager \<times> (pager_err + unit)" where
  "WritePage ctx pageID body p =
     (case ctx of Some e \<Rightarrow> (p, Inl e) | None \<Rightarrow>
      case checkState p of Some e \<Rightarrow> (p, Inl e) | None \<Rightarrow>
      case validatePageID pageID p of Some e \<Rightarrow> (p, Inl e) | None \<Rightarrow>
      if pageID \<in> fp_freeSet p then (p, Inl ErrInvalidPageID)
      else if length body \<noteq> DataPageBodySize then (p, Inl ErrBodySizeMismatch)
      else if \<not> fp_inTxn p then writeBodyUnchecked pageID body p
      else appendWAL pageID body p)"

definition FreePage :: "ctx \<Rightarrow> u64 \<Rightarrow> filePager \<Rightarrow> filePager \<times> (pager_err + unit)" where
  "FreePage ctx pageID p =
     (case ctx of Some e \<Rightarrow> (p, Inl e) | None \<Rightarrow>
      case checkState p of Some e \<Rightarrow> (p, Inl e) | None \<Rightarrow>
      if fp_inTxn p then (p, Inl ErrTxUnsupportedOp)
      else if pageID = 0 then (p, Inl ErrInvalidPageID)
      else if pageID \<ge> fp_pageCount p then (p, Inl ErrInvalidPageID)
      else if pageID \<in> fp_freeSet p then (p, Inl ErrAlreadyFree)
      else (let oldHead = fp_freeListHead p; oldCount = fp_freeCount p in
        case writeBodyUnchecked pageID (encodeFreeListPointer (fp_freeListHead p)) p of
          (p, Inl e) \<Rightarrow> (p, Inl e)
        | (p, Inr _) \<Rightarrow>
          (let p = p\<lparr>fp_freeSet := insert pageID (fp_freeSet p), fp_freeListHead := pageID,
                     fp_freeCount := fp_freeCount p + 1\<rparr> in
           case writeHeader (fp_pageCount p) pageID p of
             (p, Inl e) \<Rightarrow>
               (p\<lparr>fp_freeSet := fp_freeSet p - {pageID}, fp_freeListHead := oldHead,
                  fp_freeCount := oldCount\<rparr>, Inl e)
           | (p, Inr _) \<Rightarrow> (p, Inr ()))))"

definition PageCount :: "filePager \<Rightarrow> pager_err + u64" where
  "PageCount p = (case checkState p of Some e \<Rightarrow> Inl e | None \<Rightarrow> Inr (fp_pageCount p))"

end
