(* ===== verification/Kv_Node.thy ===== *)
theory Kv_Node
  imports Pager_Codec
begin

text \<open>
  The page formats of the tree store (\<open>kv/node.go\<close>) and the constants and errors of
  \<open>kv/kv.go\<close>.  The store uses a \<open>key.Key\<close> only through \<open>Bytes\<close> and \<open>Compare\<close>, so a
  key is its byte string here, \<open>importKey\<close> is the identity and \<open>Compare\<close> is
  \<open>bytes_compare\<close>.  Leaf and internal nodes are tables of fixed-size slots; the lemma that a
  table decodes to what was encoded is proved once, in the locale \<open>slot_codec\<close>.
\<close>

abbreviation (input) MaxKeySize :: nat where "MaxKeySize \<equiv> 63"
abbreviation (input) MaxValSize :: nat where "MaxValSize \<equiv> 512"
abbreviation (input) MaxLeafKeys :: nat where "MaxLeafKeys \<equiv> 7"
abbreviation (input) MaxInternalKeys :: nat where "MaxInternalKeys \<equiv> 56"
abbreviation (input) LeafSlotSize :: nat where "LeafSlotSize \<equiv> 580"
abbreviation (input) InternalSlotSize :: nat where "InternalSlotSize \<equiv> 72"
abbreviation (input) MaxValSizeEnterprise :: nat where "MaxValSizeEnterprise \<equiv> 16777216"
abbreviation (input) MaxOverflowChainLen :: nat where "MaxOverflowChainLen \<equiv> 5000"
abbreviation (input) NodeTypeLeaf :: byte where "NodeTypeLeaf \<equiv> 1"
abbreviation (input) NodeTypeInternal :: byte where "NodeTypeInternal \<equiv> 2"
abbreviation (input) NodeTypeMeta :: byte where "NodeTypeMeta \<equiv> 3"
abbreviation (input) NodeTypeOverflow :: byte where "NodeTypeOverflow \<equiv> 4"
abbreviation (input) MetaPageID :: u64 where "MetaPageID \<equiv> 2"
abbreviation (input) overflowChunkSize :: nat where "overflowChunkSize \<equiv> 4075"

definition rootSentinel :: u64 where
  "rootSentinel = 0xFFFFFFFFFFFFFFFF"

text \<open>
  The errors of the package; \<open>KvPager\<close> wraps an error of the pager, \<open>KvPanic\<close> is a run-time
  panic (a slice expression out of range).
\<close>

datatype kv_err =
    ErrKeyNotFound | ErrKeyTooLarge | ErrValueTooLarge | ErrTreeCorrupt | KvNotOpen | KvClosed
  | KvPager pager_err | KvPanic

section \<open>Meta page\<close>

definition encodeMetaPage :: "u64 \<Rightarrow> bytes" where
  "encodeMetaPage rootPageID =
     (let body = zero_bytes DataPageBodySize;
          body = body[0 := NodeTypeMeta]
      in copy_at 1 (put_be 8 rootPageID) body)"

definition decodeMetaPage :: "bytes \<Rightarrow> kv_err + u64" where
  "decodeMetaPage data =
     (if length data \<noteq> DataPageBodySize then Inl ErrTreeCorrupt
      else if data ! 0 \<noteq> NodeTypeMeta then Inl ErrTreeCorrupt
      else Inr (get_be (gslice 1 9 data)))"

section \<open>Slots\<close>

text \<open>
  The loops over the slots of a node: \<open>slot := body[offset : offset+size]\<close>, fill or read it, move
  on by \<open>size\<close>.
\<close>

fun put_slots :: "nat \<Rightarrow> ('a \<Rightarrow> bytes \<Rightarrow> kv_err + bytes) \<Rightarrow> nat \<Rightarrow> 'a list \<Rightarrow> bytes \<Rightarrow> kv_err + bytes" where
  "put_slots sz fill offset [] body = Inr body"
| "put_slots sz fill offset (x # xs) body =
     (case fill x (gslice offset (offset + sz) body) of
        Inl e \<Rightarrow> Inl e
      | Inr slot \<Rightarrow> put_slots sz fill (offset + sz) xs (copy_at offset slot body))"

fun get_slots :: "nat \<Rightarrow> (bytes \<Rightarrow> kv_err + 'b) \<Rightarrow> nat \<Rightarrow> nat \<Rightarrow> bytes \<Rightarrow> kv_err + 'b list" where
  "get_slots sz read offset 0 data = Inr []"
| "get_slots sz read offset (Suc n) data =
     (case read (gslice offset (offset + sz) data) of
        Inl e \<Rightarrow> Inl e
      | Inr x \<Rightarrow> (case get_slots sz read (offset + sz) n data of
                  Inl e \<Rightarrow> Inl e | Inr xs \<Rightarrow> Inr (x # xs)))"

text \<open>The check that keys are strictly ascending.\<close>

fun ascending :: "bytes list \<Rightarrow> bool" where
  "ascending (a # b # ks) \<longleftrightarrow> \<not> bytes_compare a b \<ge> 0 \<and> ascending (b # ks)"
| "ascending _ \<longleftrightarrow> True"

section \<open>Leaf nodes\<close>

record leafValueRef =
  totalLen :: u32
  inline :: bytes
  overflowPageID :: u64
  hasOverflow :: bool

definition fill_leaf_slot :: "bytes \<times> bytes \<Rightarrow> bytes \<Rightarrow> kv_err + bytes" where
  "fill_leaf_slot = (\<lambda>(k, v) slot.
     if length k > MaxKeySize then Inl ErrKeyTooLarge
     else if length v > MaxValSizeEnterprise then Inl ErrValueTooLarge
     else (let slot = slot[0 := word_of_nat (length k)];
               slot = copy_at 1 (take 63 k) slot in
       if length v > MaxValSize then
         (let total = length v - 8;
              slot = copy_at 64 (put_be 4 (word_of_nat total :: u32)) slot;
              slot = copy_at 68 (take 8 v) slot
          in Inr (copy_at 76 (take 504 (drop 8 v)) slot))
       else
         (let slot = copy_at 64 (put_be 4 (word_of_nat (length v) :: u32)) slot
          in Inr (copy_at 68 (take 512 v) slot))))"

definition encodeLeafNode :: "bytes list \<Rightarrow> bytes list \<Rightarrow> u64 \<Rightarrow> kv_err + bytes" where
  "encodeLeafNode keys values nextLeaf =
     (if length keys \<noteq> length values then Inl ErrTreeCorrupt
      else if length keys > MaxLeafKeys then Inl ErrTreeCorrupt
      else if \<not> ascending keys then Inl ErrTreeCorrupt
      else (let body = zero_bytes DataPageBodySize;
                body = body[0 := NodeTypeLeaf];
                body = copy_at 1 (put_be 2 (word_of_nat (length keys) :: u16)) body;
                body = copy_at 3 (put_be 8 nextLeaf) body
            in put_slots LeafSlotSize fill_leaf_slot 11 (zip keys values) body))"

definition read_leaf_slot :: "bytes \<Rightarrow> kv_err + (bytes \<times> leafValueRef)" where
  "read_leaf_slot slot =
     (let kLen = unat (slot ! 0) in
      if kLen > MaxKeySize then Inl ErrTreeCorrupt
      else (let k = gslice 1 (1 + kLen) slot; total = (get_be (gslice 64 68 slot) :: u32) in
        if unat total > MaxValSizeEnterprise then Inl ErrTreeCorrupt
        else if unat total > MaxValSize then
          Inr (k, \<lparr>totalLen = total, inline = gslice 76 580 slot,
                   overflowPageID = get_be (gslice 68 76 slot), hasOverflow = True\<rparr>)
        else
          Inr (k, \<lparr>totalLen = total, inline = gslice 68 (68 + unat total) slot,
                   overflowPageID = 0, hasOverflow = False\<rparr>)))"

definition decodeLeafNodeRefs :: "bytes \<Rightarrow> kv_err + (bytes list \<times> leafValueRef list \<times> u64)" where
  "decodeLeafNodeRefs data =
     (if length data \<noteq> DataPageBodySize then Inl ErrTreeCorrupt
      else if data ! 0 \<noteq> NodeTypeLeaf then Inl ErrTreeCorrupt
      else (let count = unat (get_be (gslice 1 3 data) :: u16) in
        if count > MaxLeafKeys then Inl ErrTreeCorrupt
        else (let nextLeaf = get_be (gslice 3 11 data) in
          case get_slots LeafSlotSize read_leaf_slot 11 count data of
            Inl e \<Rightarrow> Inl e
          | Inr slots \<Rightarrow> Inr (map fst slots, map snd slots, nextLeaf))))"

definition ref_value :: "leafValueRef \<Rightarrow> bytes" where
  "ref_value ref =
     (if hasOverflow ref
      then copy_at 8 (inline ref) (copy_at 0 (put_be 8 (overflowPageID ref)) (zero_bytes 512))
      else inline ref)"

definition decodeLeafNode :: "bytes \<Rightarrow> kv_err + (bytes list \<times> bytes list \<times> u64)" where
  "decodeLeafNode data =
     (case decodeLeafNodeRefs data of
        Inl e \<Rightarrow> Inl e
      | Inr (keys, refs, nextLeaf) \<Rightarrow> Inr (keys, map ref_value refs, nextLeaf))"

section \<open>Internal nodes\<close>

definition fill_internal_slot :: "bytes \<times> u64 \<Rightarrow> bytes \<Rightarrow> kv_err + bytes" where
  "fill_internal_slot = (\<lambda>(k, childPtr) slot.
     if length k > MaxKeySize then Inl ErrKeyTooLarge
     else (let slot = slot[0 := word_of_nat (length k)];
               slot = copy_at 1 (take 63 k) slot
           in Inr (copy_at 64 (put_be 8 childPtr) slot)))"

definition encodeInternalNode :: "u64 list \<Rightarrow> bytes list \<Rightarrow> kv_err + bytes" where
  "encodeInternalNode childPtrs keys =
     (if length childPtrs \<noteq> length keys + 1 then Inl ErrTreeCorrupt
      else if length keys > MaxInternalKeys then Inl ErrTreeCorrupt
      else if \<not> ascending keys then Inl ErrTreeCorrupt
      else (let body = zero_bytes DataPageBodySize;
                body = body[0 := NodeTypeInternal];
                body = copy_at 1 (put_be 2 (word_of_nat (length keys) :: u16)) body;
                body = copy_at 3 (put_be 8 (childPtrs ! 0)) body
            in put_slots InternalSlotSize fill_internal_slot 11 (zip keys (tl childPtrs)) body))"

definition read_internal_slot :: "bytes \<Rightarrow> kv_err + (bytes \<times> u64)" where
  "read_internal_slot slot =
     (let kLen = unat (slot ! 0) in
      if kLen > MaxKeySize then Inl ErrTreeCorrupt
      else Inr (gslice 1 (1 + kLen) slot, get_be (gslice 64 72 slot)))"

definition decodeInternalNode :: "bytes \<Rightarrow> kv_err + (u64 list \<times> bytes list)" where
  "decodeInternalNode data =
     (if length data \<noteq> DataPageBodySize then Inl ErrTreeCorrupt
      else if data ! 0 \<noteq> NodeTypeInternal then Inl ErrTreeCorrupt
      else (let count = unat (get_be (gslice 1 3 data) :: u16) in
        if count > MaxInternalKeys then Inl ErrTreeCorrupt
        else (let childPtr0 = get_be (gslice 3 11 data) in
          case get_slots InternalSlotSize read_internal_slot 11 count data of
            Inl e \<Rightarrow> Inl e
          | Inr slots \<Rightarrow> Inr (childPtr0 # map snd slots, map fst slots))))"

section \<open>Overflow pages\<close>

definition encodeOverflowPage :: "u64 \<Rightarrow> bytes \<Rightarrow> kv_err + bytes" where
  "encodeOverflowPage nextPtr chunk =
     (if length chunk > overflowChunkSize then Inl ErrTreeCorrupt
      else (let body = zero_bytes DataPageBodySize;
                body = body[0 := NodeTypeOverflow];
                body = copy_at 1 (put_be 8 nextPtr) body
            in Inr (copy_at 9 chunk body)))"

definition decodeOverflowPage :: "bytes \<Rightarrow> kv_err + (u64 \<times> bytes)" where
  "decodeOverflowPage data =
     (if length data \<noteq> DataPageBodySize then Inl ErrTreeCorrupt
      else if data ! 0 \<noteq> NodeTypeOverflow then Inl ErrTreeCorrupt
      else Inr (get_be (gslice 1 9 data), gslice 9 DataPageBodySize data))"

section \<open>Round trips\<close>

lemma copy_at_split:
  assumes "off + length src \<le> length dst"
  shows "copy_at off src dst = take off dst @ src @ drop (off + length src) dst"
  using assms by (simp add: copy_at_def)

locale slot_codec =
  fixes sz :: nat
    and fill :: "'a \<Rightarrow> bytes \<Rightarrow> kv_err + bytes"
    and read :: "bytes \<Rightarrow> kv_err + 'b"
    and ok :: "'a \<Rightarrow> bool"
    and dec :: "'a \<Rightarrow> 'b"
  assumes fill_law: "ok x \<Longrightarrow> \<exists>slot. fill x (zero_bytes sz) = Inr slot \<and> length slot = sz \<and> read slot = Inr (dec x)"
begin

lemma slots_roundtrip:
  assumes "\<forall>x \<in> set xs. ok x" "off + sz * length xs \<le> length body"
    and "drop off body = zero_bytes (length body - off)"
  shows "\<exists>body'. put_slots sz fill off xs body = Inr body' \<and> length body' = length body
    \<and> take off body' = take off body \<and> get_slots sz read off (length xs) body' = Inr (map dec xs)"
  using assms
proof (induction xs arbitrary: off body)
  case Nil
  then show ?case by simp
next
  case (Cons x xs)
  have room: "off + sz \<le> length body" "off + sz + sz * length xs \<le> length body"
    using Cons.prems(2) by simp_all
  have z: "gslice off (off + sz) body = zero_bytes sz"
    using room(1) Cons.prems(3) by (simp add: gslice_def zero_bytes_def)
  obtain slot where s: "fill x (zero_bytes sz) = Inr slot" "length slot = sz" "read slot = Inr (dec x)"
    using fill_law [of x] Cons.prems(1) by auto
  let ?b = "copy_at off slot body"
  have b: "?b = take off body @ slot @ drop (off + sz) body"
    using room(1) s(2) by (simp add: copy_at_split)
  have "drop (off + sz) ?b = zero_bytes (length ?b - (off + sz))"
    using room(1) s(2) arg_cong [OF Cons.prems(3), of "drop sz"]
    by (simp add: b zero_bytes_def add.commute)
  moreover have "length ?b = length body" by simp
  ultimately obtain body' where IH: "put_slots sz fill (off + sz) xs ?b = Inr body'"
    "length body' = length body" "take (off + sz) body' = take (off + sz) ?b"
    "get_slots sz read (off + sz) (length xs) body' = Inr (map dec xs)"
    using Cons.IH [of "off + sz" ?b] Cons.prems(1) room(2) by auto
  have pre: "take (off + sz) ?b = take off body @ slot" using room(1) s(2) by (simp add: b)
  have "take off body' = take off (take (off + sz) body')" by simp
  also have "\<dots> = take off body" using IH(3) pre room(1) by simp
  finally have t: "take off body' = take off body" .
  have "gslice off (off + sz) body' = drop off (take (off + sz) body')"
    by (simp add: gslice_def drop_take)
  also have "\<dots> = slot" using IH(3) pre room(1) by simp
  finally have g: "gslice off (off + sz) body' = slot" .
  show ?case using s(1,3) z IH t g by simp
qed

end

lemma gslice_update [codec_simps]: "i < a \<Longrightarrow> gslice a b (xs[i := x]) = gslice a b xs"
  by (simp add: gslice_def)

lemma unat_of_nat_u8: "n < 256 \<Longrightarrow> unat (word_of_nat n :: byte) = n"
  by (simp add: unat_of_nat)

lemma unat_of_nat_u16: "n < 65536 \<Longrightarrow> unat (word_of_nat n :: u16) = n"
  by (simp add: unat_of_nat)

lemma unat_of_nat_u32: "n < 4294967296 \<Longrightarrow> unat (word_of_nat n :: u32) = n"
  by (simp add: unat_of_nat)

text \<open>A key fits its slot; a value is stored in the slot, or is a packed large value.\<close>

definition key_fits :: "bytes \<Rightarrow> bool" where
  "key_fits k \<longleftrightarrow> length k \<le> 63"

definition small_value :: "bytes \<Rightarrow> bool" where
  "small_value v \<longleftrightarrow> length v \<le> 512"

definition packed_value :: "bytes \<Rightarrow> bool" where
  "packed_value v \<longleftrightarrow> 520 < length v \<and> length v \<le> 16777216"

definition ref_of :: "bytes \<Rightarrow> leafValueRef" where
  "ref_of v =
     (if length v \<le> 512
      then \<lparr>totalLen = word_of_nat (length v), inline = v, overflowPageID = 0, hasOverflow = False\<rparr>
      else \<lparr>totalLen = word_of_nat (length v - 8), inline = take 504 (drop 8 v),
            overflowPageID = get_be (take 8 v), hasOverflow = True\<rparr>)"

lemma fill_leaf_small:
  assumes "key_fits k" "small_value v"
  shows "\<exists>slot. fill_leaf_slot (k, v) (zero_bytes 580) = Inr slot \<and> length slot = 580
    \<and> read_leaf_slot slot = Inr (k, ref_of v)"
proof -
  have k: "length k < 256" "length k \<le> 63" and v: "length v < 4294967296" "length v \<le> 512"
    using assms by (auto simp: key_fits_def small_value_def)
  let ?s = "copy_at 68 v (copy_at 64 (put_be 4 (word_of_nat (length v) :: u32))
    (copy_at 1 k ((zero_bytes 580)[0 := word_of_nat (length k)])))"
  have "fill_leaf_slot (k, v) (zero_bytes 580) = Inr ?s"
    using k v by (simp add: fill_leaf_slot_def Let_def)
  moreover have "?s ! 0 = word_of_nat (length k)" by (simp add: codec_simps)
  moreover have "gslice 64 68 ?s = put_be 4 (word_of_nat (length v) :: u32)"
    using k by (simp add: codec_simps)
  moreover have "gslice 1 (1 + length k) ?s = k" "gslice 68 (68 + length v) ?s = v"
    using k v by (simp_all add: codec_simps)
  ultimately show ?thesis
    using k v
    by (simp add: read_leaf_slot_def ref_of_def Let_def unat_of_nat_u8 unat_of_nat_u32 get_put_be_u32)
qed

lemma fill_leaf_packed:
  assumes "key_fits k" "packed_value v"
  shows "\<exists>slot. fill_leaf_slot (k, v) (zero_bytes 580) = Inr slot \<and> length slot = 580
    \<and> read_leaf_slot slot = Inr (k, ref_of v)"
proof -
  define n where "n = length v - 8"
  have k: "length k < 256" "length k \<le> 63"
    and v: "n < 4294967296" "512 < n" "n \<le> 16777216" "520 < length v" "length v \<le> 16777216"
    using assms by (auto simp: n_def key_fits_def packed_value_def)
  let ?s = "copy_at 76 (take 504 (drop 8 v)) (copy_at 68 (take 8 v)
    (copy_at 64 (put_be 4 (word_of_nat n :: u32))
      (copy_at 1 k ((zero_bytes 580)[0 := word_of_nat (length k)]))))"
  have "fill_leaf_slot (k, v) (zero_bytes 580) = Inr ?s"
    using k v unfolding n_def by (simp add: fill_leaf_slot_def Let_def)
  moreover have "?s ! 0 = word_of_nat (length k)" by (simp add: codec_simps)
  moreover have "gslice 64 68 ?s = put_be 4 (word_of_nat n :: u32)"
    using k by (simp add: codec_simps)
  moreover have "gslice 1 (1 + length k) ?s = k" "gslice 68 76 ?s = take 8 v"
    "gslice 76 580 ?s = take 504 (drop 8 v)"
    using k v by (simp_all add: codec_simps)
  ultimately show ?thesis
    using k v unfolding ref_of_def n_def [symmetric]
    by (simp add: read_leaf_slot_def Let_def unat_of_nat_u8 unat_of_nat_u32 get_put_be_u32)
qed

lemma fill_internal:
  assumes "key_fits k"
  shows "\<exists>slot. fill_internal_slot (k, c) (zero_bytes 72) = Inr slot \<and> length slot = 72
    \<and> read_internal_slot slot = Inr (k, c)"
proof -
  have k: "length k < 256" "length k \<le> 63" using assms by (auto simp: key_fits_def)
  let ?s = "copy_at 64 (put_be 8 c) (copy_at 1 k ((zero_bytes 72)[0 := word_of_nat (length k)]))"
  have "fill_internal_slot (k, c) (zero_bytes 72) = Inr ?s"
    using k by (simp add: fill_internal_slot_def Let_def)
  moreover have "?s ! 0 = word_of_nat (length k)" by (simp add: codec_simps)
  moreover have "gslice 64 72 ?s = put_be 8 c" "gslice 1 (1 + length k) ?s = k"
    using k by (simp_all add: codec_simps)
  ultimately show ?thesis
    using k by (simp add: read_internal_slot_def Let_def unat_of_nat_u8 get_put_be_u64)
qed

interpretation leaf_codec: slot_codec 580 fill_leaf_slot read_leaf_slot
  "\<lambda>(k, v). key_fits k \<and> (small_value v \<or> packed_value v)" "\<lambda>(k, v). (k, ref_of v)"
  by unfold_locales (auto intro: fill_leaf_small fill_leaf_packed)

interpretation internal_codec: slot_codec 72 fill_internal_slot read_internal_slot
  "\<lambda>(k, c). key_fits k" "\<lambda>x. x"
  by unfold_locales (auto intro: fill_internal)

lemma ascending_iff: "ascending ks \<longleftrightarrow> sorted_wrt (<) ks"
proof (induction ks rule: ascending.induct)
  case (1 a b ks)
  then show ?case by (auto simp: linorder_not_le intro: order.strict_trans)
qed auto

definition leaf_values_ok :: "bytes list \<Rightarrow> bool" where
  "leaf_values_ok vs \<longleftrightarrow> (\<forall>v \<in> set vs. small_value v \<or> packed_value v)"

definition leaf_header :: "nat \<Rightarrow> u64 \<Rightarrow> byte \<Rightarrow> bytes" where
  "leaf_header n nxt ty =
     copy_at 3 (put_be 8 nxt) (copy_at 1 (put_be 2 (word_of_nat n :: u16)) ((zero_bytes 4084)[0 := ty]))"

lemma leaf_header_facts:
  "length (leaf_header n nxt ty) = 4084"
  "drop 11 (leaf_header n nxt ty) = zero_bytes (length (leaf_header n nxt ty) - 11)"
  "take 11 xs = take 11 (leaf_header n nxt ty) \<Longrightarrow> length xs = 4084 \<Longrightarrow>
     xs ! 0 = ty \<and> gslice 1 3 xs = put_be 2 (word_of_nat n :: u16) \<and> gslice 3 11 xs = put_be 8 nxt"
proof -
  show "length (leaf_header n nxt ty) = 4084" by (simp add: leaf_header_def)
  show "drop 11 (leaf_header n nxt ty) = zero_bytes (length (leaf_header n nxt ty) - 11)"
    by (simp add: leaf_header_def copy_at_split zero_bytes_def)
  assume t: "take 11 xs = take 11 (leaf_header n nxt ty)" "length xs = 4084"
  have sl: "gslice a b xs = gslice a b (leaf_header n nxt ty)" if "b \<le> 11" for a b
  proof -
    have "gslice a b ys = gslice a b (take 11 ys)" for ys :: bytes
      using that by (simp add: gslice_def drop_take min_def)
    then show ?thesis using t(1) by metis
  qed
  have "xs ! 0 = take 11 xs ! 0" by simp
  also have "\<dots> = ty" by (simp only: t(1)) (simp add: leaf_header_def codec_simps)
  finally show "xs ! 0 = ty \<and> gslice 1 3 xs = put_be 2 (word_of_nat n :: u16) \<and> gslice 3 11 xs = put_be 8 nxt"
    by (simp add: sl) (simp add: leaf_header_def codec_simps)
qed

text \<open>A leaf decodes to the keys, value references and next pointer it was encoded from.\<close>

lemma leaf_roundtrip:
  assumes "length ks = length vs" "length ks \<le> 7" "sorted_wrt (<) ks"
    and "\<forall>k \<in> set ks. key_fits k" "leaf_values_ok vs"
  shows "\<exists>body. encodeLeafNode ks vs nxt = Inr body \<and> length body = 4084 \<and> body ! 0 = 1
    \<and> decodeLeafNodeRefs body = Inr (ks, map ref_of vs, nxt)"
proof -
  let ?h = "leaf_header (length ks) nxt 1"
  have ok: "\<forall>x \<in> set (zip ks vs). case x of (k, v) \<Rightarrow> key_fits k \<and> (small_value v \<or> packed_value v)"
    using assms(4,5) by (auto simp: leaf_values_ok_def dest: set_zip_leftD set_zip_rightD)
  have l: "length (zip ks vs) = length ks" using assms(1) by simp
  have e: "encodeLeafNode ks vs nxt = put_slots 580 fill_leaf_slot 11 (zip ks vs) ?h"
    using assms(1-3) by (simp add: encodeLeafNode_def Let_def ascending_iff leaf_header_def)
  obtain body where b: "put_slots 580 fill_leaf_slot 11 (zip ks vs) ?h = Inr body" "length body = 4084"
    "take 11 body = take 11 ?h"
    "get_slots 580 read_leaf_slot 11 (length ks) body = Inr (map (\<lambda>(k, v). (k, ref_of v)) (zip ks vs))"
    using leaf_codec.slots_roundtrip [OF ok, of 11 ?h] assms(2) l
    by (auto simp: leaf_header_facts)
  note h = leaf_header_facts(3) [OF b(3,2)]
  have "map fst (map (\<lambda>(k, v). (k, ref_of v)) (zip ks vs)) = ks"
    "map snd (map (\<lambda>(k, v). (k, ref_of v)) (zip ks vs)) = map ref_of vs"
    using assms(1) by (auto intro!: nth_equalityI)
  then have "decodeLeafNodeRefs body = Inr (ks, map ref_of vs, nxt)"
    using b h assms(2)
    by (simp add: decodeLeafNodeRefs_def Let_def unat_of_nat_u16 get_put_be_u16 get_put_be_u64)
  then show ?thesis using e b h by simp
qed

lemma internal_roundtrip:
  assumes "length cs = length ks + 1" "length ks \<le> 56" "sorted_wrt (<) ks" "\<forall>k \<in> set ks. key_fits k"
  shows "\<exists>body. encodeInternalNode cs ks = Inr body \<and> length body = 4084 \<and> body ! 0 = 2
    \<and> decodeInternalNode body = Inr (cs, ks)"
proof -
  obtain c cs' where cs: "cs = c # cs'" "length cs' = length ks" using assms(1) by (cases cs) auto
  let ?h = "leaf_header (length ks) c 2"
  have ok: "\<forall>x \<in> set (zip ks cs'). case x of (k, c) \<Rightarrow> key_fits k"
    using assms(4) by (auto dest: set_zip_leftD)
  have l: "length (zip ks cs') = length ks" using cs by simp
  have e: "encodeInternalNode cs ks = put_slots 72 fill_internal_slot 11 (zip ks cs') ?h"
    using assms(1-3) cs by (simp add: encodeInternalNode_def Let_def ascending_iff leaf_header_def)
  obtain body where b: "put_slots 72 fill_internal_slot 11 (zip ks cs') ?h = Inr body" "length body = 4084"
    "take 11 body = take 11 ?h"
    "get_slots 72 read_internal_slot 11 (length ks) body = Inr (zip ks cs')"
    using internal_codec.slots_roundtrip [OF ok, of 11 ?h] assms(2) l
    by (auto simp: leaf_header_facts)
  note h = leaf_header_facts(3) [OF b(3,2)]
  have "decodeInternalNode body = Inr (cs, ks)"
    using b h assms(2) cs
    by (simp add: decodeInternalNode_def Let_def unat_of_nat_u16 get_put_be_u16 get_put_be_u64)
  then show ?thesis using e b h by simp
qed

lemma ref_of_small: "small_value v \<Longrightarrow> ref_value (ref_of v) = v"
  by (simp add: ref_value_def ref_of_def small_value_def)

lemma ref_value_packed:
  assumes "packed_value v"
  shows "ref_value (ref_of v) = take 512 v" "small_value (ref_value (ref_of v))"
proof -
  have v: "520 < length v" using assms by (simp add: packed_value_def)
  have "put_be (length (take 8 v)) (get_be (take 8 v) :: u64) = take 8 v"
    using v by (intro put_get_be) simp
  then have p: "put_be 8 (get_be (take 8 v) :: u64) = take 8 v" using v by simp
  have "take 512 v = take 8 v @ take 504 (drop 8 v)" by (simp add: take_add [of 8 504, symmetric])
  then show r: "ref_value (ref_of v) = take 512 v"
    using v by (simp add: ref_value_def ref_of_def p copy_at_split zero_bytes_def)
  show "small_value (ref_value (ref_of v))" using v by (simp add: r small_value_def)
qed



text \<open>C28: An internal node decodes to exactly the child pointers and separator keys it was encoded
  from, for up to 56 strictly ascending keys and one more pointer than keys.\<close>

theorem internal_node_roundtrip:
  assumes "length cs = length ks + 1" "length ks \<le> 56" "sorted_wrt (<) ks" "\<forall>k \<in> set ks. key_fits k"
  shows "\<exists>body. encodeInternalNode cs ks = Inr body \<and> length body = 4084
    \<and> decodeInternalNode body = Inr (cs, ks)"
  using internal_roundtrip [OF assms] by blast

theorem internal_node_roundtrip_witness:
  "\<exists>body. encodeInternalNode [3, 4] [[9]] = Inr body \<and> decodeInternalNode body = Inr ([3, 4], [[9]])"
  using internal_node_roundtrip [of "[3, 4]" "[[9]]"] by (auto simp: key_fits_def)

text \<open>C37: Decoding a leaf with \<open>decodeLeafNode\<close> and encoding the result again, as every update of
  a leaf does with the other slots, turns a large value into a 512-byte one: the slot afterwards
  has no overflow chain, and its value is the 8-byte page number followed by the first 504 bytes.\<close>

theorem reencoding_truncates_large_value:
  assumes "key_fits k" "packed_value v"
  shows "\<exists>body vs body'. encodeLeafNode [k] [v] nxt = Inr body \<and> decodeLeafNode body = Inr ([k], vs, nxt)
    \<and> encodeLeafNode [k] vs nxt = Inr body'
    \<and> decodeLeafNodeRefs body' = Inr ([k], [\<lparr>totalLen = 512, inline = take 512 v, overflowPageID = 0, hasOverflow = False\<rparr>], nxt)"
proof -
  have "leaf_values_ok [v]" using assms(2) by (simp add: leaf_values_ok_def)
  from leaf_roundtrip [OF _ _ _ _ this, of "[k]" nxt] assms(1) obtain body where
    b: "encodeLeafNode [k] [v] nxt = Inr body" "decodeLeafNodeRefs body = Inr ([k], [ref_of v], nxt)" by auto
  have d: "decodeLeafNode body = Inr ([k], [take 512 v], nxt)"
    using b(2) by (simp add: decodeLeafNode_def ref_value_packed [OF assms(2)])
  have l: "length (take 512 v) = 512" using assms(2) by (simp add: packed_value_def)
  then have "leaf_values_ok [take 512 v]" by (simp add: leaf_values_ok_def small_value_def)
  from leaf_roundtrip [OF _ _ _ _ this, of "[k]" nxt] assms(1) obtain body' where
    "encodeLeafNode [k] [take 512 v] nxt = Inr body'"
    "decodeLeafNodeRefs body' = Inr ([k], [ref_of (take 512 v)], nxt)" by auto
  moreover have "ref_of (take 512 v) = \<lparr>totalLen = 512, inline = take 512 v, overflowPageID = 0, hasOverflow = False\<rparr>"
    using l by (simp add: ref_of_def)
  ultimately show ?thesis using b d by auto
qed

theorem reencoding_truncates_large_value_witness:
  "\<exists>body vs. encodeLeafNode [[1]] [replicate 600 0] 5 = Inr body \<and> decodeLeafNode body = Inr ([[1]], vs, 5)"
proof -
  have "key_fits [1]" "packed_value (replicate 600 0)" by (simp_all add: key_fits_def packed_value_def)
  from reencoding_truncates_large_value [OF this, of 5] show ?thesis by blast
qed

text \<open>Meta and overflow pages.\<close>

lemma length_encodeMetaPage [simp]: "length (encodeMetaPage r) = 4084"
  by (simp add: encodeMetaPage_def)

lemma decode_encodeMetaPage [simp]: "decodeMetaPage (encodeMetaPage r) = Inr r"
  by (simp add: decodeMetaPage_def encodeMetaPage_def codec_simps)

lemma overflow_roundtrip:
  assumes "length chunk \<le> 4075"
  shows "\<exists>body. encodeOverflowPage nxt chunk = Inr body \<and> length body = 4084
    \<and> decodeOverflowPage body = Inr (nxt, chunk @ zero_bytes (4075 - length chunk))"
proof -
  let ?b = "copy_at 9 chunk (copy_at 1 (put_be 8 nxt) ((zero_bytes 4084)[0 := 4]))"
  have e: "encodeOverflowPage nxt chunk = Inr ?b"
    using assms by (simp add: encodeOverflowPage_def Let_def)
  have "gslice 9 4084 ?b = chunk @ zero_bytes (4075 - length chunk)"
    using assms by (simp add: gslice_def copy_at_split zero_bytes_def)
  moreover have "?b ! 0 = 4" "gslice 1 9 ?b = put_be 8 nxt" by (simp_all add: codec_simps)
  ultimately show ?thesis using e by (simp add: decodeOverflowPage_def get_put_be_u64)
qed

end
