(* ===== verification/Btree.thy ===== *)
theory Btree
  imports Pager Kv_Node
begin

text \<open>
  The tree store of \<open>kv/btree.go\<close>: the whole of \<open>btreeStore\<close>, method by method, over the pager.
  The mutex is not modelled (a method is one step).  Loops that follow page pointers need not end
  on a corrupt file; they are \<open>partial_function (option)\<close>, so that not returning is \<open>None\<close>.
  A traversal path is kept innermost entry first: appending in the code is \<open>#\<close> here,
  \<open>path[len-1]\<close> is the head and \<open>path[:len-1]\<close> the tail.
\<close>

record btreeStore =
  bt_pg :: filePager
  bt_isOpen :: bool
  bt_closed :: bool
  bt_root :: u64

definition newBtreeStore :: "filePager \<Rightarrow> btreeStore" where
  "newBtreeStore p = \<lparr>bt_pg = p, bt_isOpen = False, bt_closed = False, bt_root = rootSentinel\<rparr>"

text \<open>A call of a pager method: its state change, and its error wrapped.\<close>

definition pgcall :: "(filePager \<Rightarrow> filePager \<times> (pager_err + 'a)) \<Rightarrow> btreeStore \<Rightarrow> btreeStore \<times> (kv_err + 'a)" where
  "pgcall f s = (case f (bt_pg s) of (p, r) \<Rightarrow>
     (s\<lparr>bt_pg := p\<rparr>, case r of Inl e \<Rightarrow> Inl (KvPager e) | Inr x \<Rightarrow> Inr x))"

definition rollback :: "ctx \<Rightarrow> btreeStore \<Rightarrow> btreeStore" where
  "rollback ctx s = fst (pgcall (RollbackTx ctx) s)"

definition readPage :: "ctx \<Rightarrow> u64 \<Rightarrow> filePager \<Rightarrow> kv_err + bytes" where
  "readPage ctx pageID p = (case ReadPage ctx pageID p of Inl e \<Rightarrow> Inl (KvPager e) | Inr b \<Rightarrow> Inr b)"

definition checkOpen :: "btreeStore \<Rightarrow> kv_err option" where
  "checkOpen s = (if bt_closed s then Some KvClosed else if \<not> bt_isOpen s then Some KvNotOpen else None)"

section \<open>Open and Close\<close>

definition kv_Open :: "ctx \<Rightarrow> btreeStore \<Rightarrow> btreeStore \<times> (kv_err + unit)" where
  "kv_Open ctx s =
     (if bt_closed s then (s, Inl KvClosed)
      else if bt_isOpen s then (s, Inr ())
      else (case PageCount (bt_pg s) of
          Inl e \<Rightarrow> (s, Inl (KvPager e))
        | Inr pc \<Rightarrow>
          if pc = FirstDataPageID then
            (case pgcall (AllocatePage ctx) s of (s, Inl e) \<Rightarrow> (s, Inl e) | (s, Inr pid) \<Rightarrow>
             if pid \<noteq> MetaPageID then (s, Inl ErrTreeCorrupt) else
             case pgcall (BeginTx ctx) s of (s, Inl e) \<Rightarrow> (s, Inl e) | (s, Inr _) \<Rightarrow>
             case pgcall (WritePage ctx MetaPageID (encodeMetaPage rootSentinel)) s of
               (s, Inl e) \<Rightarrow> (rollback ctx s, Inl e)
             | (s, Inr _) \<Rightarrow>
               (case pgcall (CommitTx ctx) s of (s, Inl e) \<Rightarrow> (s, Inl e) | (s, Inr _) \<Rightarrow>
                (s\<lparr>bt_isOpen := True\<rparr>, Inr ())))
          else
            (case readPage ctx MetaPageID (bt_pg s) of Inl e \<Rightarrow> (s, Inl e) | Inr body \<Rightarrow>
             case decodeMetaPage body of Inl e \<Rightarrow> (s, Inl e) | Inr rootID \<Rightarrow>
             (s\<lparr>bt_root := rootID, bt_isOpen := True\<rparr>, Inr ()))))"

definition kv_Close :: "btreeStore \<Rightarrow> btreeStore \<times> (kv_err + unit)" where
  "kv_Close s = (if bt_closed s then (s, Inr ())
     else (s\<lparr>bt_isOpen := False, bt_closed := True\<rparr>, Inr ()))"

section \<open>Get\<close>

text \<open>The overflow chain: \<open>n\<close> is the number of pages that may still be read.\<close>

fun overflow_loop :: "nat \<Rightarrow> ctx \<Rightarrow> filePager \<Rightarrow> u64 \<Rightarrow> nat \<Rightarrow> bytes \<Rightarrow> kv_err + (nat \<times> bytes)" where
  "overflow_loop n ctx p pageID pos buf =
     (if pageID = rootSentinel \<or> pageID = 0 then Inr (pos, buf)
      else (case n of
          0 \<Rightarrow> Inl ErrTreeCorrupt
        | Suc m \<Rightarrow>
          (case readPage ctx pageID p of Inl e \<Rightarrow> Inl e | Inr body \<Rightarrow>
           case decodeOverflowPage body of Inl e \<Rightarrow> Inl e | Inr (nextPtr, chunk) \<Rightarrow>
           overflow_loop m ctx p nextPtr (pos + min (length buf - pos) (length chunk))
             (copy_at pos chunk buf))))"

declare overflow_loop.simps [simp del]

definition readOverflowValue :: "ctx \<Rightarrow> filePager \<Rightarrow> leafValueRef \<Rightarrow> kv_err + bytes" where
  "readOverflowValue ctx p ref =
     (let buf = copy_at 0 (inline ref) (zero_bytes (unat (totalLen ref))) in
      case overflow_loop MaxOverflowChainLen ctx p (overflowPageID ref) (length (inline ref)) buf of
        Inl e \<Rightarrow> Inl e
      | Inr (pos, buf) \<Rightarrow> if pos \<noteq> unat (totalLen ref) then Inl ErrTreeCorrupt else Inr buf)"

fun upperBoundIdx_from :: "nat \<Rightarrow> nat \<Rightarrow> bytes list \<Rightarrow> bytes \<Rightarrow> nat" where
  "upperBoundIdx_from lst i [] k = lst"
| "upperBoundIdx_from lst i (ik # iks) k =
     (if bytes_compare k ik < 0 then i else upperBoundIdx_from lst (Suc i) iks k)"

definition upperBoundIdx :: "u64 list \<Rightarrow> bytes list \<Rightarrow> bytes \<Rightarrow> nat" where
  "upperBoundIdx childPtrs ikeys k = upperBoundIdx_from (length childPtrs - 1) 0 ikeys k"

definition upperBound :: "u64 list \<Rightarrow> bytes list \<Rightarrow> bytes \<Rightarrow> u64" where
  "upperBound childPtrs ikeys k = childPtrs ! upperBoundIdx childPtrs ikeys k"

text \<open>The position of a key in a leaf.\<close>

fun find_key :: "nat \<Rightarrow> bytes list \<Rightarrow> bytes \<Rightarrow> nat option" where
  "find_key i [] k = None"
| "find_key i (lk # lks) k = (if bytes_compare lk k = 0 then Some i else find_key (Suc i) lks k)"

definition ref_read :: "ctx \<Rightarrow> filePager \<Rightarrow> leafValueRef \<Rightarrow> kv_err + bytes" where
  "ref_read ctx p ref = (if \<not> hasOverflow ref then Inr (inline ref) else readOverflowValue ctx p ref)"

partial_function (option) kv_search :: "ctx \<Rightarrow> filePager \<Rightarrow> u64 \<Rightarrow> bytes \<Rightarrow> (kv_err + bytes) option" where
  "kv_search ctx p pageID k =
     (case readPage ctx pageID p of Inl e \<Rightarrow> Some (Inl e) | Inr body \<Rightarrow>
      if body ! 0 = NodeTypeLeaf then
        (case decodeLeafNodeRefs body of Inl e \<Rightarrow> Some (Inl e) | Inr (keys, refs, nextLeaf) \<Rightarrow>
         case find_key 0 keys k of
           Some i \<Rightarrow> Some (ref_read ctx p (refs ! i))
         | None \<Rightarrow> Some (Inl ErrKeyNotFound))
      else if body ! 0 = NodeTypeInternal then
        (case decodeInternalNode body of Inl e \<Rightarrow> Some (Inl e) | Inr (childPtrs, ikeys) \<Rightarrow>
         kv_search ctx p (upperBound childPtrs ikeys k) k)
      else Some (Inl ErrTreeCorrupt))"

definition kv_Get :: "ctx \<Rightarrow> bytes \<Rightarrow> btreeStore \<Rightarrow> (kv_err + bytes) option" where
  "kv_Get ctx k s =
     (case checkOpen s of Some e \<Rightarrow> Some (Inl e) | None \<Rightarrow>
      if bt_root s = rootSentinel then Some (Inl ErrKeyNotFound)
      else kv_search ctx (bt_pg s) (bt_root s) k)"

section \<open>Large values\<close>

text \<open>\<open>make([]uint64, n)\<close> filled by \<open>AllocatePage\<close>; the second component tells whether all were allocated.\<close>

fun alloc_overflow :: "nat \<Rightarrow> ctx \<Rightarrow> btreeStore \<Rightarrow> btreeStore \<times> u64 list \<times> bool" where
  "alloc_overflow 0 ctx s = (s, [], True)"
| "alloc_overflow (Suc n) ctx s =
     (case pgcall (AllocatePage ctx) s of
        (s, Inl e) \<Rightarrow> (s, [], False)
      | (s, Inr pid) \<Rightarrow> (case alloc_overflow n ctx s of (s, ids, ok) \<Rightarrow> (s, pid # ids, ok)))"

definition prepareOverflow :: "ctx \<Rightarrow> bytes \<Rightarrow> btreeStore \<Rightarrow> btreeStore \<times> u64 list \<times> bytes" where
  "prepareOverflow ctx v s =
     (let prefixLen = (if length v < 504 then length v else 504);
          remaining = length v - prefixLen;
          numOverflow = (remaining + overflowChunkSize - 1) div overflowChunkSize in
      case alloc_overflow numOverflow ctx s of (s, overflowIDs, ok) \<Rightarrow>
      if \<not> ok then (s, overflowIDs, [])
      else (let firstOverflowID = (if numOverflow > 0 then overflowIDs ! 0 else 0)
            in (s, overflowIDs, put_be 8 firstOverflowID @ v)))"

fun overflow_pages :: "ctx \<Rightarrow> nat \<Rightarrow> u64 list \<Rightarrow> bytes \<Rightarrow> btreeStore \<Rightarrow> btreeStore \<times> (kv_err + unit)" where
  "overflow_pages ctx i [] remaining s = (s, Inr ())"
| "overflow_pages ctx i (pageID # ids) remaining s =
     (let start = i * overflowChunkSize;
          stop = (if start + overflowChunkSize > length remaining then length remaining
                  else start + overflowChunkSize);
          chunk = gslice start stop remaining;
          nextPtr = (case ids of [] \<Rightarrow> rootSentinel | pid # _ \<Rightarrow> pid) in
      case encodeOverflowPage nextPtr chunk of Inl e \<Rightarrow> (s, Inl e) | Inr body \<Rightarrow>
      case pgcall (WritePage ctx pageID body) s of (s, Inl e) \<Rightarrow> (s, Inl e) | (s, Inr _) \<Rightarrow>
      overflow_pages ctx (Suc i) ids remaining s)"

definition writeOverflowChain :: "ctx \<Rightarrow> u64 list \<Rightarrow> bytes \<Rightarrow> btreeStore \<Rightarrow> btreeStore \<times> (kv_err + unit)" where
  "writeOverflowChain ctx overflowIDs v s =
     (let prefixLen = (if length v < 504 then length v else 504)
      in overflow_pages ctx 0 overflowIDs (drop prefixLen v) s)"

text \<open>\<open>writeOverflowChainFull(ctx, ids, packedVal[8:])\<close> when there are pages; slicing a short value panics.\<close>

definition write_packed_chain :: "ctx \<Rightarrow> u64 list \<Rightarrow> bytes \<Rightarrow> btreeStore \<Rightarrow> btreeStore \<times> (kv_err + unit)" where
  "write_packed_chain ctx overflowIDs packedVal s =
     (if overflowIDs = [] then (s, Inr ())
      else if length packedVal < 8 then (s, Inl KvPanic)
      else writeOverflowChain ctx overflowIDs (drop 8 packedVal) s)"

section \<open>Set\<close>

text \<open>The body of \<open>if len(overflowIDs) > 0 { ... }\<close> inside a transaction: an error rolls back.\<close>

definition chain_or_rollback :: "ctx \<Rightarrow> u64 list \<Rightarrow> bytes \<Rightarrow> btreeStore \<Rightarrow> btreeStore \<times> (kv_err + unit)" where
  "chain_or_rollback ctx overflowIDs packedVal s =
     (case write_packed_chain ctx overflowIDs packedVal s of
        (s, Inl e) \<Rightarrow> ((if e = KvPanic then s else rollback ctx s), Inl e)
      | (s, Inr _) \<Rightarrow> (s, Inr ()))"

definition setInEmpty :: "ctx \<Rightarrow> bytes \<Rightarrow> bytes \<Rightarrow> btreeStore \<Rightarrow> btreeStore \<times> (kv_err + unit)" where
  "setInEmpty ctx k v s =
     (case (if length v > MaxValSize then prepareOverflow ctx v s else (s, [], v)) of
        (s, overflowIDs, packedVal) \<Rightarrow>
      case pgcall (AllocatePage ctx) s of (s, Inl e) \<Rightarrow> (s, Inl e) | (s, Inr leafID) \<Rightarrow>
      case pgcall (BeginTx ctx) s of (s, Inl e) \<Rightarrow> (s, Inl e) | (s, Inr _) \<Rightarrow>
      case (if overflowIDs \<noteq> [] then writeOverflowChain ctx overflowIDs v s else (s, Inr ())) of
        (s, Inl e) \<Rightarrow> (rollback ctx s, Inl e)
      | (s, Inr _) \<Rightarrow>
        (case encodeLeafNode [k] [packedVal] rootSentinel of
           Inl e \<Rightarrow> (rollback ctx s, Inl e)
         | Inr leafBody \<Rightarrow>
           (case pgcall (WritePage ctx leafID leafBody) s of
              (s, Inl e) \<Rightarrow> (rollback ctx s, Inl e)
            | (s, Inr _) \<Rightarrow>
              (case pgcall (WritePage ctx MetaPageID (encodeMetaPage leafID)) s of
                 (s, Inl e) \<Rightarrow> (rollback ctx s, Inl e)
               | (s, Inr _) \<Rightarrow>
                 (case pgcall (CommitTx ctx) s of (s, Inl e) \<Rightarrow> (s, Inl e) | (s, Inr _) \<Rightarrow>
                  (s\<lparr>bt_root := leafID\<rparr>, Inr ()))))))"

text \<open>The tail that \<open>updateLeaf\<close> and \<open>insertIntoLeaf\<close> share: one transaction that writes the
  overflow chain and the leaf.\<close>

definition write_leaf_tx :: "ctx \<Rightarrow> u64 \<Rightarrow> bytes \<Rightarrow> u64 list \<Rightarrow> bytes \<Rightarrow> btreeStore \<Rightarrow> btreeStore \<times> (kv_err + unit)" where
  "write_leaf_tx ctx pageID body overflowIDs packedVal s =
     (case pgcall (BeginTx ctx) s of (s, Inl e) \<Rightarrow> (s, Inl e) | (s, Inr _) \<Rightarrow>
      case chain_or_rollback ctx overflowIDs packedVal s of (s, Inl e) \<Rightarrow> (s, Inl e) | (s, Inr _) \<Rightarrow>
      case pgcall (WritePage ctx pageID body) s of
        (s, Inl e) \<Rightarrow> (rollback ctx s, Inl e)
      | (s, Inr _) \<Rightarrow> pgcall (CommitTx ctx) s)"

definition updateLeaf :: "ctx \<Rightarrow> u64 \<Rightarrow> bytes list \<Rightarrow> bytes list \<Rightarrow> nat \<Rightarrow> bytes \<Rightarrow> u64 list \<Rightarrow> u64
    \<Rightarrow> btreeStore \<Rightarrow> btreeStore \<times> (kv_err + unit)" where
  "updateLeaf ctx pageID keys vals pos packedVal overflowIDs nextLeaf s =
     (case encodeLeafNode keys (vals[pos := packedVal]) nextLeaf of
        Inl e \<Rightarrow> (s, Inl e)
      | Inr body \<Rightarrow> write_leaf_tx ctx pageID body overflowIDs packedVal s)"

fun insert_pos :: "bytes list \<Rightarrow> bytes \<Rightarrow> nat" where
  "insert_pos [] k = 0"
| "insert_pos (lk # lks) k = (if bytes_compare lk k < 0 then Suc (insert_pos lks k) else 0)"

definition insertIntoLeaf :: "ctx \<Rightarrow> u64 \<Rightarrow> bytes list \<Rightarrow> bytes list \<Rightarrow> bytes \<Rightarrow> bytes \<Rightarrow> u64 list \<Rightarrow> u64
    \<Rightarrow> btreeStore \<Rightarrow> btreeStore \<times> (kv_err + unit)" where
  "insertIntoLeaf ctx pageID keys vals k packedVal overflowIDs nextLeaf s =
     (let pos = insert_pos keys k;
          newKeys = take pos keys @ k # drop pos keys;
          newVals = take pos vals @ packedVal # drop pos vals in
      case encodeLeafNode newKeys newVals nextLeaf of
        Inl e \<Rightarrow> (s, Inl e)
      | Inr body \<Rightarrow> write_leaf_tx ctx pageID body overflowIDs packedVal s)"

record pathEntry =
  pe_pageID :: u64
  pe_childIdx :: nat
  pe_keys :: "bytes list"
  pe_childPtrs :: "u64 list"

definition insertIntoInternal :: "ctx \<Rightarrow> u64 \<Rightarrow> bytes list \<Rightarrow> u64 list \<Rightarrow> nat \<Rightarrow> u64 \<Rightarrow> u64 \<Rightarrow> bytes
    \<Rightarrow> btreeStore \<Rightarrow> btreeStore \<times> (kv_err + unit)" where
  "insertIntoInternal ctx pageID keys childPtrs childIdx leftChildID rightChildID sepKey s =
     (let newPtrs = take childIdx childPtrs @ [leftChildID, rightChildID] @ drop (childIdx + 1) childPtrs;
          newKeys = take childIdx keys @ [sepKey] @ drop childIdx keys in
      case encodeInternalNode newPtrs newKeys of
        Inl e \<Rightarrow> (s, Inl e)
      | Inr body \<Rightarrow> pgcall (WritePage ctx pageID body) s)"

text \<open>\<open>splitInternal\<close> up to its last line: the new page, the key to push up and the pages left.\<close>

definition splitInternal :: "ctx \<Rightarrow> u64 \<Rightarrow> bytes list \<Rightarrow> u64 list \<Rightarrow> nat \<Rightarrow> u64 \<Rightarrow> u64 \<Rightarrow> bytes
    \<Rightarrow> u64 list \<Rightarrow> btreeStore \<Rightarrow> btreeStore \<times> (kv_err + (u64 \<times> bytes \<times> u64 list))" where
  "splitInternal ctx pageID keys childPtrs childIdx leftChildID rightChildID sepKey newPages s =
     (case newPages of
        [] \<Rightarrow> (s, Inl ErrTreeCorrupt)
      | newInternalID # newPages' \<Rightarrow>
        (let allPtrs = take childIdx childPtrs @ [leftChildID, rightChildID] @ drop (childIdx + 1) childPtrs;
             allKeys = take childIdx keys @ [sepKey] @ drop childIdx keys;
             mid = length allKeys div 2;
             leftKeys = take mid allKeys;
             rightKeys = drop (mid + 1) allKeys;
             middleKey = allKeys ! mid;
             leftPtrs = take (mid + 1) allPtrs;
             rightPtrs = drop (mid + 1) allPtrs in
         case encodeInternalNode leftPtrs leftKeys of Inl e \<Rightarrow> (s, Inl e) | Inr leftBody \<Rightarrow>
         case pgcall (WritePage ctx pageID leftBody) s of (s, Inl e) \<Rightarrow> (s, Inl e) | (s, Inr _) \<Rightarrow>
         case encodeInternalNode rightPtrs rightKeys of Inl e \<Rightarrow> (s, Inl e) | Inr rightBody \<Rightarrow>
         case pgcall (WritePage ctx newInternalID rightBody) s of (s, Inl e) \<Rightarrow> (s, Inl e) | (s, Inr _) \<Rightarrow>
         (s, Inr (newInternalID, middleKey, newPages'))))"

text \<open>The root case of \<open>insertIntoParent\<close>.\<close>

definition newRootNode :: "ctx \<Rightarrow> u64 \<Rightarrow> u64 \<Rightarrow> bytes \<Rightarrow> u64 list \<Rightarrow> btreeStore \<Rightarrow> btreeStore \<times> (kv_err + u64)" where
  "newRootNode ctx leftChildID rightChildID sepKey newPages s =
     (case newPages of
        [] \<Rightarrow> (s, Inl ErrTreeCorrupt)
      | newRootID # _ \<Rightarrow>
        (case encodeInternalNode [leftChildID, rightChildID] [sepKey] of
           Inl e \<Rightarrow> (s, Inl e)
         | Inr rootBody \<Rightarrow>
           (case pgcall (WritePage ctx newRootID rootBody) s of (s, Inl e) \<Rightarrow> (s, Inl e) | (s, Inr _) \<Rightarrow>
            case pgcall (WritePage ctx MetaPageID (encodeMetaPage newRootID)) s of
              (s, Inl e) \<Rightarrow> (s, Inl e)
            | (s, Inr _) \<Rightarrow> (s, Inr newRootID))))"

primrec insertIntoParent :: "ctx \<Rightarrow> pathEntry list \<Rightarrow> u64 \<Rightarrow> u64 \<Rightarrow> bytes \<Rightarrow> u64 list
    \<Rightarrow> btreeStore \<Rightarrow> btreeStore \<times> (kv_err + u64)" where
  "insertIntoParent ctx [] leftChildID rightChildID sepKey newPages s =
     newRootNode ctx leftChildID rightChildID sepKey newPages s"
| "insertIntoParent ctx (parent # path) leftChildID rightChildID sepKey newPages s =
     (if length (pe_keys parent) < MaxInternalKeys then
        (case insertIntoInternal ctx (pe_pageID parent) (pe_keys parent) (pe_childPtrs parent)
                (pe_childIdx parent) leftChildID rightChildID sepKey s of
           (s, Inl e) \<Rightarrow> (s, Inl e)
         | (s, Inr _) \<Rightarrow> (s, Inr 0))
      else (case splitInternal ctx (pe_pageID parent) (pe_keys parent) (pe_childPtrs parent)
                   (pe_childIdx parent) leftChildID rightChildID sepKey newPages s of
          (s, Inl e) \<Rightarrow> (s, Inl e)
        | (s, Inr (newInternalID, middleKey, newPages')) \<Rightarrow>
          insertIntoParent ctx path (pe_pageID parent) newInternalID middleKey newPages' s))"

text \<open>The merge loop of \<open>splitLeaf\<close>; the flag tells whether the new pair was inserted.\<close>

fun merge_new :: "bytes \<Rightarrow> bytes \<Rightarrow> bool \<Rightarrow> (bytes \<times> bytes) list \<Rightarrow> (bytes \<times> bytes) list" where
  "merge_new k v inserted [] = (if \<not> inserted then [(k, v)] else [])"
| "merge_new k v inserted ((lk, lv) # es) =
     (if \<not> inserted \<and> bytes_compare k lk < 0 then (k, v) # (lk, lv) # merge_new k v True es
      else (lk, lv) # merge_new k v inserted es)"

fun alloc_pages :: "nat \<Rightarrow> ctx \<Rightarrow> btreeStore \<Rightarrow> btreeStore \<times> (kv_err + u64 list)" where
  "alloc_pages 0 ctx s = (s, Inr [])"
| "alloc_pages (Suc n) ctx s =
     (case pgcall (AllocatePage ctx) s of (s, Inl e) \<Rightarrow> (s, Inl e) | (s, Inr pid) \<Rightarrow>
      case alloc_pages n ctx s of (s, Inl e) \<Rightarrow> (s, Inl e) | (s, Inr ids) \<Rightarrow> (s, Inr (pid # ids)))"

text \<open>The part of \<open>splitLeaf\<close> that writes both leaves and the parents; the caller rolls back on an error.\<close>

definition split_leaf_write :: "ctx \<Rightarrow> u64 \<Rightarrow> pathEntry list \<Rightarrow> (bytes list \<times> bytes list) \<Rightarrow> (bytes list \<times> bytes list)
    \<Rightarrow> u64 \<Rightarrow> u64 list \<Rightarrow> u64 \<Rightarrow> btreeStore \<Rightarrow> btreeStore \<times> (kv_err + u64)" where
  "split_leaf_write ctx leafID path left right newLeafID splitPages nextLeaf s =
     (case encodeLeafNode (fst left) (snd left) newLeafID of Inl e \<Rightarrow> (s, Inl e) | Inr leftBody \<Rightarrow>
      case pgcall (WritePage ctx leafID leftBody) s of (s, Inl e) \<Rightarrow> (s, Inl e) | (s, Inr _) \<Rightarrow>
      case encodeLeafNode (fst right) (snd right) nextLeaf of Inl e \<Rightarrow> (s, Inl e) | Inr rightBody \<Rightarrow>
      case pgcall (WritePage ctx newLeafID rightBody) s of (s, Inl e) \<Rightarrow> (s, Inl e) | (s, Inr _) \<Rightarrow>
      insertIntoParent ctx path leafID newLeafID (fst right ! 0) splitPages s)"

text \<open>The transaction of \<open>splitLeaf\<close>.\<close>

definition split_leaf_tx :: "ctx \<Rightarrow> u64 \<Rightarrow> pathEntry list \<Rightarrow> (bytes list \<times> bytes list) \<Rightarrow> (bytes list \<times> bytes list)
    \<Rightarrow> bytes \<Rightarrow> u64 list \<Rightarrow> u64 \<Rightarrow> u64 list \<Rightarrow> u64 \<Rightarrow> btreeStore \<Rightarrow> btreeStore \<times> (kv_err + unit)" where
  "split_leaf_tx ctx leafID path left right packedVal overflowIDs newLeafID splitPages nextLeaf s =
     (case pgcall (BeginTx ctx) s of (s, Inl e) \<Rightarrow> (s, Inl e) | (s, Inr _) \<Rightarrow>
      case chain_or_rollback ctx overflowIDs packedVal s of (s, Inl e) \<Rightarrow> (s, Inl e) | (s, Inr _) \<Rightarrow>
      case split_leaf_write ctx leafID path left right newLeafID splitPages nextLeaf s of
        (s, Inl e) \<Rightarrow> (rollback ctx s, Inl e)
      | (s, Inr newRoot) \<Rightarrow>
        (case pgcall (CommitTx ctx) s of (s, Inl e) \<Rightarrow> (s, Inl e) | (s, Inr _) \<Rightarrow>
         ((if newRoot \<noteq> 0 then s\<lparr>bt_root := newRoot\<rparr> else s), Inr ())))"

definition splitLeaf :: "ctx \<Rightarrow> u64 \<Rightarrow> pathEntry list \<Rightarrow> bytes list \<Rightarrow> bytes list \<Rightarrow> bytes \<Rightarrow> bytes
    \<Rightarrow> u64 list \<Rightarrow> u64 \<Rightarrow> btreeStore \<Rightarrow> btreeStore \<times> (kv_err + unit)" where
  "splitLeaf ctx leafID path keys vals newKey packedVal overflowIDs nextLeaf s =
     (let allEntries = merge_new newKey packedVal False (zip keys vals);
          allKeys = map fst allEntries;
          allVals = map snd allEntries;
          mid = length allKeys div 2 in
      case pgcall (AllocatePage ctx) s of (s, Inl e) \<Rightarrow> (s, Inl e) | (s, Inr newLeafID) \<Rightarrow>
      case alloc_pages (length path + 1) ctx s of (s, Inl e) \<Rightarrow> (s, Inl e) | (s, Inr splitPages) \<Rightarrow>
      split_leaf_tx ctx leafID path (take mid allKeys, take mid allVals) (drop mid allKeys, drop mid allVals)
        packedVal overflowIDs newLeafID splitPages nextLeaf s)"

partial_function (option) set_loop :: "ctx \<Rightarrow> u64 \<Rightarrow> pathEntry list \<Rightarrow> bytes \<Rightarrow> bytes \<Rightarrow> u64 list
    \<Rightarrow> btreeStore \<Rightarrow> (btreeStore \<times> (kv_err + unit)) option" where
  "set_loop ctx pageID path k packedVal overflowIDs s =
     (case readPage ctx pageID (bt_pg s) of Inl e \<Rightarrow> Some (s, Inl e) | Inr body \<Rightarrow>
      if body ! 0 = NodeTypeLeaf then
        (case decodeLeafNode body of Inl e \<Rightarrow> Some (s, Inl e) | Inr (keys, vals, nextLeaf) \<Rightarrow>
         case find_key 0 keys k of
           Some i \<Rightarrow> Some (updateLeaf ctx pageID keys vals i packedVal overflowIDs nextLeaf s)
         | None \<Rightarrow>
           if length keys < MaxLeafKeys
           then Some (insertIntoLeaf ctx pageID keys vals k packedVal overflowIDs nextLeaf s)
           else Some (splitLeaf ctx pageID path keys vals k packedVal overflowIDs nextLeaf s))
      else if body ! 0 = NodeTypeInternal then
        (case decodeInternalNode body of Inl e \<Rightarrow> Some (s, Inl e) | Inr (childPtrs, ikeys) \<Rightarrow>
         (let childIdx = upperBoundIdx childPtrs ikeys k in
          set_loop ctx (childPtrs ! childIdx)
            (\<lparr>pe_pageID = pageID, pe_childIdx = childIdx, pe_keys = ikeys, pe_childPtrs = childPtrs\<rparr> # path)
            k packedVal overflowIDs s))
      else Some (s, Inl ErrTreeCorrupt))"

definition setInTree :: "ctx \<Rightarrow> bytes \<Rightarrow> bytes \<Rightarrow> btreeStore \<Rightarrow> (btreeStore \<times> (kv_err + unit)) option" where
  "setInTree ctx k v s =
     (case (if length v > MaxValSize then prepareOverflow ctx v s else (s, [], v)) of
        (s, overflowIDs, packedVal) \<Rightarrow> set_loop ctx (bt_root s) [] k packedVal overflowIDs s)"

definition kv_Set :: "ctx \<Rightarrow> bytes \<Rightarrow> bytes \<Rightarrow> btreeStore \<Rightarrow> (btreeStore \<times> (kv_err + unit)) option" where
  "kv_Set ctx k v s =
     (if length k > MaxKeySize then Some (s, Inl ErrKeyTooLarge)
      else if length v > MaxValSizeEnterprise then Some (s, Inl ErrValueTooLarge)
      else (case checkOpen s of Some e \<Rightarrow> Some (s, Inl e) | None \<Rightarrow>
        if bt_root s = rootSentinel then Some (setInEmpty ctx k v s) else setInTree ctx k v s))"

section \<open>Delete\<close>

text \<open>The leaf case of \<open>deleteFromTree\<close>.\<close>

definition delete_in_leaf :: "ctx \<Rightarrow> u64 \<Rightarrow> bytes \<Rightarrow> bytes \<Rightarrow> btreeStore \<Rightarrow> btreeStore \<times> (kv_err + unit)" where
  "delete_in_leaf ctx pageID body k s =
     (case decodeLeafNode body of Inl e \<Rightarrow> (s, Inl e) | Inr (keys, vals, nextLeaf) \<Rightarrow>
      case find_key 0 keys k of
        None \<Rightarrow> (s, Inr ())
      | Some pos \<Rightarrow>
        (let newKeys = take pos keys @ drop (pos + 1) keys;
             newVals = take pos vals @ drop (pos + 1) vals in
         case encodeLeafNode newKeys newVals nextLeaf of Inl e \<Rightarrow> (s, Inl e) | Inr leafBody \<Rightarrow>
         case pgcall (BeginTx ctx) s of (s, Inl e) \<Rightarrow> (s, Inl e) | (s, Inr _) \<Rightarrow>
         case pgcall (WritePage ctx pageID leafBody) s of
           (s, Inl e) \<Rightarrow> (rollback ctx s, Inl e)
         | (s, Inr _) \<Rightarrow> pgcall (CommitTx ctx) s))"

partial_function (option) deleteFromTree :: "ctx \<Rightarrow> u64 \<Rightarrow> bytes \<Rightarrow> btreeStore
    \<Rightarrow> (btreeStore \<times> (kv_err + unit)) option" where
  "deleteFromTree ctx pageID k s =
     (case readPage ctx pageID (bt_pg s) of Inl e \<Rightarrow> Some (s, Inl e) | Inr body \<Rightarrow>
      if body ! 0 = NodeTypeLeaf then Some (delete_in_leaf ctx pageID body k s)
      else if body ! 0 = NodeTypeInternal then
        (case decodeInternalNode body of Inl e \<Rightarrow> Some (s, Inl e) | Inr (childPtrs, ikeys) \<Rightarrow>
         deleteFromTree ctx (upperBound childPtrs ikeys k) k s)
      else Some (s, Inl ErrTreeCorrupt))"

definition kv_Delete :: "ctx \<Rightarrow> bytes \<Rightarrow> btreeStore \<Rightarrow> (btreeStore \<times> (kv_err + unit)) option" where
  "kv_Delete ctx k s =
     (case checkOpen s of Some e \<Rightarrow> Some (s, Inl e) | None \<Rightarrow>
      if bt_root s = rootSentinel then Some (s, Inr ())
      else deleteFromTree ctx (bt_root s) k s)"

section \<open>Scan\<close>

text \<open>The loop over the keys of one leaf: an error, or the results and whether the end was passed.\<close>

fun scan_keys :: "ctx \<Rightarrow> filePager \<Rightarrow> bytes \<Rightarrow> bytes \<Rightarrow> (bytes \<times> leafValueRef) list \<Rightarrow> (bytes \<times> bytes) list
    \<Rightarrow> kv_err + ((bytes \<times> bytes) list \<times> bool)" where
  "scan_keys ctx p start stop [] results = Inr (results, False)"
| "scan_keys ctx p start stop ((lk, ref) # es) results =
     (if length start > 0 \<and> bytes_compare lk start < 0 then scan_keys ctx p start stop es results
      else if length stop > 0 \<and> bytes_compare lk stop \<ge> 0 then Inr (results, True)
      else (case ref_read ctx p ref of
          Inl e \<Rightarrow> Inl e
        | Inr val \<Rightarrow> scan_keys ctx p start stop es (results @ [(lk, val)])))"

partial_function (option) scanLeaf :: "ctx \<Rightarrow> filePager \<Rightarrow> u64 \<Rightarrow> bytes \<Rightarrow> bytes \<Rightarrow> (bytes \<times> bytes) list
    \<Rightarrow> (kv_err + (bytes \<times> bytes) list) option" where
  "scanLeaf ctx p pageID start stop results =
     (if pageID = rootSentinel \<or> pageID = 0 then Some (Inr results)
      else (case readPage ctx pageID p of Inl e \<Rightarrow> Some (Inl e) | Inr body \<Rightarrow>
        case decodeLeafNodeRefs body of Inl e \<Rightarrow> Some (Inl e) | Inr (keys, refs, nextLeaf) \<Rightarrow>
        case scan_keys ctx p start stop (zip keys refs) results of
          Inl e \<Rightarrow> Some (Inl e)
        | Inr (results, stopped) \<Rightarrow>
          if stopped then Some (Inr results) else scanLeaf ctx p nextLeaf start stop results))"

text \<open>The descent shared by \<open>Scan\<close> and \<open>scanAll\<close> (an empty start goes to the leftmost child).\<close>

partial_function (option) scan_from :: "ctx \<Rightarrow> filePager \<Rightarrow> u64 \<Rightarrow> bytes \<Rightarrow> bytes
    \<Rightarrow> (kv_err + (bytes \<times> bytes) list) option" where
  "scan_from ctx p pageID start stop =
     (case readPage ctx pageID p of Inl e \<Rightarrow> Some (Inl e) | Inr body \<Rightarrow>
      if body ! 0 = NodeTypeLeaf then scanLeaf ctx p pageID start stop []
      else if body ! 0 = NodeTypeInternal then
        (case decodeInternalNode body of Inl e \<Rightarrow> Some (Inl e) | Inr (childPtrs, ikeys) \<Rightarrow>
         scan_from ctx p (if length start = 0 then childPtrs ! 0 else upperBound childPtrs ikeys start) start stop)
      else Some (Inl ErrTreeCorrupt))"

definition kv_Scan :: "ctx \<Rightarrow> bytes \<Rightarrow> bytes \<Rightarrow> btreeStore \<Rightarrow> (kv_err + (bytes \<times> bytes) list) option" where
  "kv_Scan ctx start stop s =
     (case checkOpen s of Some e \<Rightarrow> Some (Inl e) | None \<Rightarrow>
      if bt_root s = rootSentinel then Some (Inr [])
      else scan_from ctx (bt_pg s) (bt_root s) start stop)"

definition scanAll :: "ctx \<Rightarrow> btreeStore \<Rightarrow> (kv_err + (bytes \<times> bytes) list) option" where
  "scanAll ctx s = scan_from ctx (bt_pg s) (bt_root s) [] []"

section \<open>Check\<close>

text \<open>
  The set of visited pages is threaded through.  The recursion is bounded by a counter that starts
  above the page count: every nested call visits a new page below it.
\<close>

fun check_chain :: "nat \<Rightarrow> ctx \<Rightarrow> filePager \<Rightarrow> u64 \<Rightarrow> u64 \<Rightarrow> nat \<Rightarrow> u64 set \<Rightarrow> kv_err + (nat \<times> u64 set)" where
  "check_chain n ctx p pageCount pageID bufLen visited =
     (if pageID = rootSentinel \<or> pageID = 0 then Inr (bufLen, visited)
      else (case n of
          0 \<Rightarrow> Inl ErrTreeCorrupt
        | Suc m \<Rightarrow>
          if pageID \<ge> pageCount \<or> pageID \<in> visited then Inl ErrTreeCorrupt
          else (case readPage ctx pageID p of Inl e \<Rightarrow> Inl e | Inr body \<Rightarrow>
            case decodeOverflowPage body of Inl e \<Rightarrow> Inl e | Inr (nextPtr, chunk) \<Rightarrow>
            check_chain m ctx p pageCount nextPtr (bufLen + length chunk) (insert pageID visited))))"

declare check_chain.simps [simp del]

definition checkOverflowChain :: "ctx \<Rightarrow> filePager \<Rightarrow> leafValueRef \<Rightarrow> u64 set \<Rightarrow> u64 \<Rightarrow> kv_err + u64 set" where
  "checkOverflowChain ctx p ref visited pageCount =
     (case check_chain MaxOverflowChainLen ctx p pageCount (overflowPageID ref) (length (inline ref)) visited of
        Inl e \<Rightarrow> Inl e
      | Inr (bufLen, visited) \<Rightarrow>
        if bufLen \<noteq> unat (totalLen ref) then Inl ErrTreeCorrupt else Inr visited)"

fun check_refs :: "ctx \<Rightarrow> filePager \<Rightarrow> leafValueRef list \<Rightarrow> u64 set \<Rightarrow> u64 \<Rightarrow> kv_err + u64 set" where
  "check_refs ctx p [] visited pageCount = Inr visited"
| "check_refs ctx p (ref # refs) visited pageCount =
     (if hasOverflow ref then
        (case checkOverflowChain ctx p ref visited pageCount of
           Inl e \<Rightarrow> Inl e | Inr visited \<Rightarrow> check_refs ctx p refs visited pageCount)
      else check_refs ctx p refs visited pageCount)"

definition check_leaf :: "ctx \<Rightarrow> filePager \<Rightarrow> bytes \<Rightarrow> u64 set \<Rightarrow> u64 \<Rightarrow> bytes option \<Rightarrow> kv_err + u64 set" where
  "check_leaf ctx p body visited pageCount prevKey =
     (case decodeLeafNodeRefs body of Inl e \<Rightarrow> Inl ErrTreeCorrupt | Inr (keys, refs, nextLeaf) \<Rightarrow>
      if \<not> ascending keys then Inl ErrTreeCorrupt
      else if (case prevKey of None \<Rightarrow> False | Some pk \<Rightarrow> keys \<noteq> [] \<and> bytes_compare (keys ! 0) pk < 0)
      then Inl ErrTreeCorrupt
      else (case check_refs ctx p refs visited pageCount of Inl e \<Rightarrow> Inl e | Inr visited \<Rightarrow>
        if nextLeaf \<noteq> rootSentinel \<and> nextLeaf \<noteq> 0 \<and> nextLeaf \<ge> pageCount then Inl ErrTreeCorrupt
        else Inr visited))"

fun checkNode :: "nat \<Rightarrow> ctx \<Rightarrow> filePager \<Rightarrow> u64 \<Rightarrow> u64 set \<Rightarrow> u64 \<Rightarrow> bytes option
    \<Rightarrow> (kv_err + u64 set) option"
  and check_children :: "nat \<Rightarrow> ctx \<Rightarrow> filePager \<Rightarrow> (u64 \<times> bytes option) list \<Rightarrow> u64 set \<Rightarrow> u64
    \<Rightarrow> (kv_err + u64 set) option" where
  "checkNode 0 ctx p pageID visited pageCount prevKey = None"
| "checkNode (Suc n) ctx p pageID visited pageCount prevKey =
     (if pageID \<ge> pageCount then Some (Inl ErrTreeCorrupt)
      else if pageID \<in> visited then Some (Inl ErrTreeCorrupt)
      else (case readPage ctx pageID p of Inl e \<Rightarrow> Some (Inl e) | Inr body \<Rightarrow>
        if body ! 0 = NodeTypeLeaf then
          Some (check_leaf ctx p body (insert pageID visited) pageCount prevKey)
        else if body ! 0 = NodeTypeInternal then
          (case decodeInternalNode body of Inl e \<Rightarrow> Some (Inl ErrTreeCorrupt) | Inr (childPtrs, ikeys) \<Rightarrow>
           if \<not> ascending ikeys then Some (Inl ErrTreeCorrupt)
           else check_children n ctx p (zip childPtrs (None # map Some ikeys)) (insert pageID visited) pageCount)
        else Some (Inl ErrTreeCorrupt)))"
| "check_children n ctx p [] visited pageCount = Some (Inr visited)"
| "check_children n ctx p ((c, childPrev) # cs) visited pageCount =
     (case checkNode n ctx p c visited pageCount childPrev of
        None \<Rightarrow> None
      | Some (Inl e) \<Rightarrow> Some (Inl e)
      | Some (Inr visited) \<Rightarrow> check_children n ctx p cs visited pageCount)"

definition kv_Check :: "ctx \<Rightarrow> btreeStore \<Rightarrow> (kv_err + unit) option" where
  "kv_Check ctx s =
     (case checkOpen s of Some e \<Rightarrow> Some (Inl e) | None \<Rightarrow>
      if bt_root s = rootSentinel then Some (Inr ())
      else (case PageCount (bt_pg s) of Inl e \<Rightarrow> Some (Inl (KvPager e)) | Inr pc \<Rightarrow>
        case checkNode (unat pc + 1) ctx (bt_pg s) (bt_root s) {} pc None of
          None \<Rightarrow> None
        | Some (Inl e) \<Rightarrow> Some (Inl e)
        | Some (Inr _) \<Rightarrow> Some (Inr ())))"

end
