(* ===== verification/Pager_Disk.thy ===== *)
theory Pager_Disk
  imports Pager
begin

text \<open>
  The page view of the main file: what a page-aligned write does to each page, what
  \<open>readBodyUnchecked\<close> sees afterwards, and the effect of every file operation of the pager on a
  healthy disk (no pending fault).  These facts are collected in \<open>disk_simps\<close>; the invariant
  proofs of \<open>Pager_Inv\<close> rest on them.
\<close>

named_theorems disk_simps \<open>page-aligned reads and writes on a healthy disk\<close>

definition page_at :: "bytes \<Rightarrow> nat \<Rightarrow> bytes" where
  "page_at f i = gslice (i * 4096) (i * 4096 + 4096) f"

definition covers :: "bytes \<Rightarrow> nat \<Rightarrow> bool" where
  "covers f n \<longleftrightarrow> n * 4096 \<le> length f"

text \<open>Page numbers whose byte offset fits an \<open>int64\<close>: below \<open>2^51\<close>.\<close>

definition small_id :: "u64 \<Rightarrow> bool" where
  "small_id pid \<longleftrightarrow> unat pid < 2251799813685248"

section \<open>Offsets\<close>

lemma page_offset_small:
  assumes "small_id pid"
  shows "page_offset pid = int (unat pid * 4096)"
proof -
  have u: "uint pid = int (unat pid)" by simp
  have lt: "unat pid * 4096 < 9223372036854775808" using assms by (simp add: small_id_def)
  then have lt': "uint pid * 4096 < 9223372036854775808" unfolding u by linarith
  then have "uint pid * uint (4096 :: u64) < 2 ^ LENGTH(64)" by simp
  then have m: "uint (pid * 4096) = uint pid * 4096"
    using uint_mult_lem [of pid "4096 :: u64"] by simp
  have "signed_take_bit 63 (uint pid * 4096) = uint pid * 4096"
  proof (rule signed_take_bit_int_eq_self)
    show "- (2 ^ 63) \<le> uint pid * 4096" by (rule order_trans [of _ 0]) simp_all
    show "uint pid * 4096 < 2 ^ 63" using lt' by simp
  qed
  then have "sint (pid * 4096) = uint pid * 4096"
    by (simp add: sint_uint m)
  then show ?thesis unfolding page_offset_def u by simp
qed

lemma page_offset_nat:
  assumes "small_id pid"
  shows "\<not> page_offset pid < 0" "nat (page_offset pid) = unat pid * 4096"
  unfolding page_offset_small [OF assms] by linarith+

lemma small_id_consts [simp]: "small_id 0" "small_id 1" "small_id 2"
  by (simp_all add: small_id_def)

lemma small_id_less: "small_id m \<Longrightarrow> n \<le> m \<Longrightarrow> small_id n"
  unfolding small_id_def word_le_nat_alt by linarith

section \<open>Writing pages\<close>

lemma length_write_page:
  "length d = 4096 \<Longrightarrow> length (write_file f (i * 4096) d) = max (length f) (i * 4096 + 4096)"
  by (auto simp: write_file_def max_def min_def)

lemma covers_write: "length d = 4096 \<Longrightarrow> covers f n \<Longrightarrow> covers (write_file f (i * 4096) d) n"
  by (simp add: covers_def length_write_page)

lemma covers_write_Suc: "length d = 4096 \<Longrightarrow> covers (write_file f (i * 4096) d) (Suc i)"
  by (simp add: covers_def length_write_page)

lemma page_at_write_same: "length d = 4096 \<Longrightarrow> page_at (write_file f (i * 4096) d) i = d"
  by (auto simp: page_at_def write_file_def gslice_def min_def)

lemma page_at_write_other:
  assumes "length d = 4096" "i \<noteq> j" "covers f (Suc j)"
  shows "page_at (write_file f (i * 4096) d) j = page_at f j"
proof -
  have len: "j * 4096 + 4096 \<le> length f" using assms(3) by (simp add: covers_def)
  have ne: "d \<noteq> []" using assms(1) by auto
  consider "j < i" | "i < j" using assms(2) by linarith
  then show ?thesis
  proof cases
    case 1
    then have "j * 4096 + 4096 \<le> i * 4096" by simp
    then have "take (j * 4096 + 4096) (write_file f (i * 4096) d) = take (j * 4096 + 4096) f"
      using len ne by (simp add: write_file_def min_def)
    then show ?thesis
      unfolding page_at_def gslice_def by (metis add_diff_cancel_left' drop_take)
  next
    case 2
    then have "i * 4096 + 4096 \<le> j * 4096" by simp
    then have "drop (j * 4096) (write_file f (i * 4096) d) = drop (j * 4096) f"
      using assms(1) len ne by (simp add: write_file_def min_def)
    then show ?thesis by (simp add: page_at_def gslice_def)
  qed
qed

section \<open>Reading bodies\<close>

lemma read_page:
  assumes "small_id pid" "covers f (Suc (unat pid))"
  shows "read_file f (page_offset pid) 4096 = Inr (page_at f (unat pid))"
  using assms(2) by (simp add: read_file_def page_offset_nat [OF assms(1)] page_at_def covers_def)

lemma readBody_page:
  assumes "small_id pid" "covers f (Suc (unat pid))"
  shows "readBodyUnchecked f pid = decodeDataPage (page_at f (unat pid))"
  using read_page [OF assms] by (simp add: readBodyUnchecked_def)

lemma readBody_length: "readBodyUnchecked f pid = Inr b \<Longrightarrow> length b = 4084"
  by (auto simp: readBodyUnchecked_def dest: decodeDataPage_length split: sum.splits)

lemma readBody_write_same:
  assumes "small_id pid" "encodeDataPage body = Inr img"
  shows "readBodyUnchecked (write_file f (unat pid * 4096) img) pid = Inr body"
  using assms length_encodeDataPage [OF assms(2)]
  by (simp add: readBody_page covers_write_Suc page_at_write_same decode_encodeDataPage)

lemma readBody_write_other:
  assumes "small_id pid" "small_id qid" "pid \<noteq> qid" "length img = 4096"
    and "covers f (Suc (unat qid))"
  shows "readBodyUnchecked (write_file f (unat pid * 4096) img) qid = readBodyUnchecked f qid"
proof -
  have "unat pid \<noteq> unat qid" using assms(3) by (simp add: word_unat_eq_iff)
  then show ?thesis
    using assms by (simp add: readBody_page covers_write page_at_write_other)
qed

section \<open>A healthy disk\<close>

definition healthy :: "filePager \<Rightarrow> bool" where
  "healthy p \<longleftrightarrow> fp_io p = []"

lemma next_io_healthy: "healthy p \<Longrightarrow> next_io p = (p, IoOk)"
  by (simp add: next_io_def healthy_def)

lemma file_op_healthy [disk_simps]: "healthy p \<Longrightarrow> file_op p = (p, Inr ())"
  by (simp add: file_op_def next_io_healthy)

lemma main_WriteAt_healthy [disk_simps]:
  "healthy p \<Longrightarrow> small_id pid \<Longrightarrow>
   main_WriteAt d (page_offset pid) p =
     (p\<lparr>fp_main := write_file (fp_main p) (unat pid * 4096) d\<rparr>, Inr ())"
  by (simp add: main_WriteAt_def next_io_healthy page_offset_nat)

lemma wal_WriteAt_healthy [disk_simps]:
  "healthy p \<Longrightarrow> wal_WriteAt d off p = (p\<lparr>fp_wal := write_file (fp_wal p) off d\<rparr>, Inr ())"
  by (simp add: wal_WriteAt_def next_io_healthy)

lemma wal_Truncate_healthy [disk_simps]: "healthy p \<Longrightarrow> wal_Truncate p = (p\<lparr>fp_wal := []\<rparr>, Inr ())"
  by (simp add: wal_Truncate_def next_io_healthy)

lemma healthy_update [simp]:
  "healthy (p\<lparr>fp_main := m\<rparr>) = healthy p"
  "healthy (p\<lparr>fp_wal := w\<rparr>) = healthy p"
  "healthy (p\<lparr>fp_state := st\<rparr>) = healthy p"
  "healthy (p\<lparr>fp_pageCount := n\<rparr>) = healthy p"
  "healthy (p\<lparr>fp_freeListHead := n\<rparr>) = healthy p"
  "healthy (p\<lparr>fp_freeCount := n\<rparr>) = healthy p"
  "healthy (p\<lparr>fp_freeSet := s\<rparr>) = healthy p"
  "healthy (p\<lparr>fp_inTxn := b\<rparr>) = healthy p"
  "healthy (p\<lparr>fp_nextTxnID := n\<rparr>) = healthy p"
  "healthy (p\<lparr>fp_currentTxn := n\<rparr>) = healthy p"
  "healthy (p\<lparr>fp_txnBuffer := buf\<rparr>) = healthy p"
  "healthy (p\<lparr>fp_walSize := k\<rparr>) = healthy p"
  by (simp_all add: healthy_def)

text \<open>The header image the pager writes for its in-memory state.\<close>

definition header_of :: "u64 \<Rightarrow> u64 \<Rightarrow> u64 \<Rightarrow> pagerHeader" where
  "header_of pageCount freeListHead freeCount =
     \<lparr>h_magic = 0x506C6D76, h_version = 2, h_pageSize = 4096, h_pageCount = pageCount,
      h_freeListHead = freeListHead, h_freePageCount = freeCount\<rparr>"

lemma header_of_ok [simp]: "header_ok (header_of pc fh fc)"
  by (simp add: header_ok_def header_of_def)

definition put_headers :: "bytes \<Rightarrow> pagerHeader \<Rightarrow> bytes" where
  "put_headers f h = write_file (write_file f (1 * 4096) (encodeHeader h)) (0 * 4096) (encodeHeader h)"

lemma writeHeader_healthy [disk_simps]:
  assumes "healthy p"
  shows "writeHeader pc fh p =
     (p\<lparr>fp_main := put_headers (fp_main p) (header_of pc fh (fp_freeCount p))\<rparr>, Inr ())"
proof -
  have "main_WriteAt d (page_offset 1) q =
      (q\<lparr>fp_main := write_file (fp_main q) (1 * 4096) d\<rparr>, Inr ())"
    and "main_WriteAt d (page_offset 0) q =
      (q\<lparr>fp_main := write_file (fp_main q) (0 * 4096) d\<rparr>, Inr ())" if "healthy q" for d q
    using main_WriteAt_healthy [OF that, of 1] main_WriteAt_healthy [OF that, of 0] by simp_all
  then show ?thesis
    using assms by (simp add: writeHeader_def Let_def disk_simps header_of_def put_headers_def)
qed

lemma writeBody_healthy [disk_simps]:
  assumes "healthy p" "small_id pid" "encodeDataPage body = Inr img"
  shows "writeBodyUnchecked pid body p =
     (p\<lparr>fp_main := write_file (fp_main p) (unat pid * 4096) img\<rparr>, Inr ())"
  using assms by (simp add: writeBodyUnchecked_def disk_simps)

lemma encode_ok: "length body = 4084 \<Longrightarrow> \<exists>img. encodeDataPage body = Inr img"
  by (simp add: encodeDataPage_Inr)

section \<open>Headers and bodies do not interfere\<close>

lemma covers_put_headers: "covers f n \<Longrightarrow> covers (put_headers f h) n"
  unfolding put_headers_def by (intro covers_write) auto

lemma covers_put_headers_2: "covers (put_headers f h) 2"
proof -
  have "covers (write_file f (1 * 4096) (encodeHeader h)) (Suc 1)"
    by (rule covers_write_Suc) simp
  then show ?thesis unfolding put_headers_def numeral_2_eq_2 One_nat_def
    by (rule covers_write [OF length_encodeHeader])
qed

lemma page_at_put_headers:
  "page_at (put_headers f h) 0 = encodeHeader h" "page_at (put_headers f h) 1 = encodeHeader h"
  unfolding put_headers_def
  using page_at_write_same [of "encodeHeader h" _ 0]
    page_at_write_other [of "encodeHeader h" 0 1 "write_file f (1 * 4096) (encodeHeader h)"]
    page_at_write_same [of "encodeHeader h" f 1] covers_write_Suc [of "encodeHeader h" f 1]
  by simp_all

lemma page_at_put_headers_other:
  assumes "2 \<le> j" "covers f (Suc j)"
  shows "page_at (put_headers f h) j = page_at f j"
proof -
  have "page_at (write_file f (1 * 4096) (encodeHeader h)) j = page_at f j"
    using assms by (intro page_at_write_other) auto
  moreover have "page_at (put_headers f h) j = page_at (write_file f (1 * 4096) (encodeHeader h)) j"
    unfolding put_headers_def using assms by (intro page_at_write_other covers_write) auto
  ultimately show ?thesis by simp
qed

lemma readBody_put_headers:
  assumes "2 \<le> pid" "small_id pid" "covers f (Suc (unat pid))"
  shows "readBodyUnchecked (put_headers f h) pid = readBodyUnchecked f pid"
proof -
  have "2 \<le> unat pid" using assms(1) by (simp add: word_le_nat_alt)
  then show ?thesis
    using assms by (simp add: readBody_page covers_put_headers page_at_put_headers_other)
qed

end
