(* ===== verification/Pager_Inv.thy ===== *)
theory Pager_Inv
  imports Pager_Disk
begin

text \<open>
  The invariant of an open pager and its preservation by every method on a healthy disk.  The
  main file holds two equal header images, the free list is a finite chain of distinct data pages
  ending in the sentinel whose members are exactly \<open>freeSet\<close>, every data page decodes, the log
  is a sequence of complete records, and inside a transaction the buffer is what the logged
  records of that transaction add up to.
\<close>

section \<open>The free list on disk\<close>

fun free_chain :: "bytes \<Rightarrow> u64 \<Rightarrow> u64 list \<Rightarrow> bool" where
  "free_chain f h [] \<longleftrightarrow> h = freeListSentinel"
| "free_chain f h (x # xs) \<longleftrightarrow> h = x \<and>
     (\<exists>b n. readBodyUnchecked f x = Inr b \<and> decodeFreeListPointer b = Inr n \<and> free_chain f n xs)"

lemma free_chain_frame:
  assumes "\<forall>x \<in> set fl. readBodyUnchecked g x = readBodyUnchecked f x"
  shows "free_chain g h fl = free_chain f h fl"
  using assms by (induction fl arbitrary: h) auto

definition chain_part :: "bytes \<Rightarrow> u64 \<Rightarrow> u64 \<Rightarrow> u64 \<Rightarrow> u64 list \<Rightarrow> bool" where
  "chain_part f pc fh fc fl \<longleftrightarrow>
     small_id pc \<and> 2 \<le> pc \<and> covers f (unat pc) \<and> free_chain f fh fl \<and> distinct fl
     \<and> length fl = unat fc \<and> (\<forall>x \<in> set fl. 2 \<le> x \<and> x < pc)"

definition hdr_part :: "bytes \<Rightarrow> u64 \<Rightarrow> u64 \<Rightarrow> u64 \<Rightarrow> bool" where
  "hdr_part f pc fh fc \<longleftrightarrow>
     page_at f 0 = encodeHeader (header_of pc fh fc) \<and> page_at f 1 = encodeHeader (header_of pc fh fc)"

definition readable :: "bytes \<Rightarrow> u64 \<Rightarrow> bool" where
  "readable f pc \<longleftrightarrow> (\<forall>i. 2 \<le> i \<and> i < pc \<longrightarrow> (\<exists>b. readBodyUnchecked f i = Inr b))"

lemma covers_mono: "covers f n \<Longrightarrow> m \<le> n \<Longrightarrow> covers f m"
  unfolding covers_def by (meson le_trans mult_le_mono1)

lemma covers_id:
  assumes "covers f (unat pc)" "i < pc"
  shows "covers f (Suc (unat i))"
proof -
  have "Suc (unat i) \<le> unat pc" using assms(2) by (simp add: word_less_nat_alt)
  then show ?thesis using assms(1) covers_mono by blast
qed

lemma chain_part_ids:
  assumes "chain_part f pc fh fc fl"
  shows "i < pc \<Longrightarrow> small_id i" and "i < pc \<Longrightarrow> covers f (Suc (unat i))"
  using assms covers_id small_id_less less_imp_le unfolding chain_part_def by blast+

lemma unat_ge_2: "2 \<le> (i :: u64) \<longleftrightarrow> 2 \<le> unat i"
  by (simp add: word_le_nat_alt)

lemma covers_2: "chain_part f pc fh fc fl \<Longrightarrow> covers f 2"
  using covers_mono unfolding chain_part_def unat_ge_2 by blast

text \<open>The walk of \<open>Open\<close> over a well-formed chain collects exactly its members.\<close>

declare free_walk.simps [simp del]

lemma small_not_sentinel: "small_id i \<Longrightarrow> i \<noteq> freeListSentinel"
  by (auto simp: small_id_def freeListSentinel_def)

lemma free_walk_chain:
  assumes "free_chain f h fl" "distinct fl" "set fl \<inter> seen = {}"
    and "\<forall>x \<in> set fl. 2 \<le> x \<and> x < pc" "small_id pc"
  shows "free_walk f pc h seen fs = Inr (fs \<union> set fl)"
  using assms
proof (induction fl arbitrary: h seen fs)
  case Nil
  then show ?case by (simp add: free_walk.simps)
next
  case (Cons x fl)
  then obtain b n where rd: "readBodyUnchecked f x = Inr b" "decodeFreeListPointer b = Inr n"
    and ch: "free_chain f n fl" and h: "h = x" by auto
  have x: "2 \<le> x" "x < pc" "x \<notin> seen" using Cons.prems by auto
  then have "small_id x" using Cons.prems(5) small_id_less by fastforce
  then have "x \<noteq> freeListSentinel" by (rule small_not_sentinel)
  moreover have "x \<noteq> 0" using x(1) by auto
  ultimately have "free_walk f pc h seen fs = free_walk f pc n (insert x seen) (insert x fs)"
    using x rd h by (simp add: free_walk.simps [of f pc x] linorder_not_less [symmetric])
  also have "\<dots> = Inr (insert x fs \<union> set fl)"
    using Cons.prems ch by (intro Cons.IH) auto
  finally show ?case by simp
qed

section \<open>Frame lemmas\<close>

lemma readBody_write_frame:
  assumes "chain_part f pc fh fc fl" "i < pc" "small_id j" "i \<noteq> j" "length img = 4096"
  shows "readBodyUnchecked (write_file f (unat j * 4096) img) i = readBodyUnchecked f i"
  using assms chain_part_ids [OF assms(1,2)] by (intro readBody_write_other) auto

lemma chain_part_write:
  assumes "chain_part f pc fh fc fl" "small_id j" "j \<notin> set fl" "length img = 4096"
  shows "chain_part (write_file f (unat j * 4096) img) pc fh fc fl"
proof -
  have "\<forall>x \<in> set fl. readBodyUnchecked (write_file f (unat j * 4096) img) x = readBodyUnchecked f x"
    using assms readBody_write_frame [OF assms(1)] unfolding chain_part_def by blast
  then show ?thesis
    using assms free_chain_frame covers_write unfolding chain_part_def by blast
qed

lemma hdr_part_write:
  assumes "hdr_part f pc fh fc" "covers f 2" "2 \<le> (j :: u64)" "length img = 4096"
  shows "hdr_part (write_file f (unat j * 4096) img) pc fh fc"
proof -
  have j: "unat j \<noteq> 0" "unat j \<noteq> 1" using assms(3) unat_ge_2 [of j] by auto
  have c: "covers f (Suc 0)" "covers f (Suc 1)"
    using assms(2) covers_mono [of f 2] by (auto simp: numeral_2_eq_2)
  show ?thesis
    using assms(1) j c assms(4) unfolding hdr_part_def by (simp add: page_at_write_other)
qed

lemma readable_write:
  assumes "readable f pc" "chain_part f pc fh fc fl" "small_id j" "encodeDataPage b = Inr img"
  shows "readable (write_file f (unat j * 4096) img) pc"
  unfolding readable_def
proof (intro allI impI)
  fix i assume i: "2 \<le> i \<and> i < pc"
  show "\<exists>b. readBodyUnchecked (write_file f (unat j * 4096) img) i = Inr b"
  proof (cases "i = j")
    case True
    then show ?thesis using readBody_write_same assms(3,4) by blast
  next
    case False
    then have "readBodyUnchecked (write_file f (unat j * 4096) img) i = readBodyUnchecked f i"
      using i assms readBody_write_frame length_encodeDataPage by blast
    then show ?thesis using i assms(1) unfolding readable_def by auto
  qed
qed

lemma hdr_part_put_headers: "hdr_part (put_headers f (header_of pc fh fc)) pc fh fc"
  unfolding hdr_part_def using page_at_put_headers by blast

lemma readBody_put_headers_frame:
  assumes "chain_part f pc fh fc fl" "2 \<le> i" "i < pc"
  shows "readBodyUnchecked (put_headers f h) i = readBodyUnchecked f i"
  using assms chain_part_ids [OF assms(1,3)] by (intro readBody_put_headers) auto

lemma chain_part_put_headers:
  assumes "chain_part f pc fh fc fl"
  shows "chain_part (put_headers f h) pc fh fc fl"
proof -
  have "\<forall>x \<in> set fl. readBodyUnchecked (put_headers f h) x = readBodyUnchecked f x"
    using readBody_put_headers_frame [OF assms] assms unfolding chain_part_def by blast
  then show ?thesis
    using assms free_chain_frame covers_put_headers unfolding chain_part_def by blast
qed

lemma readable_put_headers:
  assumes "readable f pc" "chain_part f pc fh fc fl"
  shows "readable (put_headers f h) pc"
  using assms readBody_put_headers_frame [OF assms(2)] unfolding readable_def by auto

section \<open>The log\<close>

definition wal_of :: "(u64 \<times> u64 \<times> bytes) list \<Rightarrow> bytes" where
  "wal_of recs = concat (map (\<lambda>(t, i, b). wal_rec t i b) recs)"

definition recs_ok :: "(u64 \<times> u64 \<times> bytes) list \<Rightarrow> bool" where
  "recs_ok recs \<longleftrightarrow> (\<forall>(t, i, b) \<in> set recs. wal_shape i b)"

lemma wal_of_simps [simp]:
  "wal_of [] = []"
  "wal_of ((t, i, b) # recs) = wal_rec t i b @ wal_of recs"
  "wal_of (xs @ ys) = wal_of xs @ wal_of ys"
  by (simp_all add: wal_of_def)

lemma recs_ok_simps [simp]:
  "recs_ok []"
  "recs_ok ((t, i, b) # recs) \<longleftrightarrow> wal_shape i b \<and> recs_ok recs"
  "recs_ok (xs @ ys) \<longleftrightarrow> recs_ok xs \<and> recs_ok ys"
  unfolding recs_ok_def by (simp_all add: ball_Un)

declare parse_wal.simps [simp del]

lemma wal_rec_not_Nil [simp]: "wal_rec t i b \<noteq> []"
  by (metis length_wal_rec length_0_conv add_is_0 zero_neq_numeral)

text \<open>Parsing complete records followed by a torn one gives back the complete ones.\<close>

lemma parse_wal_recs:
  assumes "recs_ok recs" "wal_shape i b" "n < length (wal_rec t i b)"
  shows "parse_wal (wal_of recs @ take n (wal_rec t i b)) = Inr recs"
  using assms(1)
proof (induction recs)
  case Nil
  then show ?case
    using decode_wal_rec_torn [OF assms(2,3)] by (simp add: parse_wal.simps)
next
  case (Cons r recs)
  obtain t' i' b' where r: "r = (t', i', b')" by (cases r)
  let ?rest = "wal_of recs @ take n (wal_rec t i b)"
  have "decodeNextWALRecord (wal_rec t' i' b' @ ?rest)
      = Inr (t', i', b', length (wal_rec t' i' b'))"
    using Cons.prems r by (intro decode_wal_rec) simp
  then show ?case
    using Cons r by (simp add: parse_wal.simps [of "wal_rec t' i' b' @ ?rest"])
qed

lemma parse_wal_of: "recs_ok recs \<Longrightarrow> parse_wal (wal_of recs) = Inr recs"
  using parse_wal_recs [of recs walEOTPageID "[]" 0 0] by (simp add: wal_shape_def)

lemma append_write_file: "write_file f (length f) d = f @ d"
  by (simp add: write_file_def)

section \<open>Writing a batch of pages, with or without faults\<close>

definition page_img :: "bytes \<Rightarrow> bytes" where
  "page_img b = copy_at 12 b (copy_at 8 (put_be 4 (crc32 b)) (zero_bytes 4096))"

lemma encode_page_img: "length b = 4084 \<Longrightarrow> encodeDataPage b = Inr (page_img b)"
  by (simp add: encodeDataPage_Inr page_img_def)

lemma length_page_img [simp]: "length (page_img b) = 4096"
  by (simp add: page_img_def)

text \<open>\<open>same_pages S f g\<close>: the files agree on every page outside \<open>S\<close>.\<close>

definition same_pages :: "nat set \<Rightarrow> bytes \<Rightarrow> bytes \<Rightarrow> bool" where
  "same_pages S f g \<longleftrightarrow> length g = length f \<and>
     (\<forall>j. j \<notin> S \<longrightarrow> covers f (Suc j) \<longrightarrow> page_at g j = page_at f j)"

lemma same_pages_refl [simp]: "same_pages S f f"
  by (simp add: same_pages_def)

lemma same_pages_trans:
  "same_pages S f g \<Longrightarrow> same_pages T g h \<Longrightarrow> same_pages (S \<union> T) f h"
  by (simp add: same_pages_def covers_def)

lemma same_pages_mono: "same_pages S f g \<Longrightarrow> S \<subseteq> T \<Longrightarrow> same_pages T f g"
  by (auto simp: same_pages_def)

lemma write_file_inside:
  "off + length d \<le> length f \<Longrightarrow> write_file f off d = take off f @ d @ drop (off + length d) f"
  by (simp add: write_file_def)

lemma take_write_before:
  "off + length d \<le> length f \<Longrightarrow> n \<le> off \<Longrightarrow> take n (write_file f off d) = take n f"
  by (simp add: write_file_inside min_def)

lemma drop_write_after:
  "off + length d \<le> length f \<Longrightarrow> off + length d \<le> n \<Longrightarrow> drop n (write_file f off d) = drop n f"
  by (simp add: write_file_inside)

lemma same_pages_write:
  assumes "length d \<le> 4096" "covers f (Suc i)"
  shows "same_pages {i} f (write_file f (i * 4096) d)"
proof -
  have len: "i * 4096 + length d \<le> length f" using assms by (simp add: covers_def)
  have "page_at (write_file f (i * 4096) d) j = page_at f j" if "j \<noteq> i" for j
  proof (cases "j < i")
    case True
    then have "take (j * 4096 + 4096) (write_file f (i * 4096) d) = take (j * 4096 + 4096) f"
      using take_write_before [OF len] by simp
    then show ?thesis
      unfolding page_at_def gslice_def by (metis add_diff_cancel_left' drop_take)
  next
    case False
    then have "i * 4096 + 4096 \<le> j * 4096" using that by simp
    then have "i * 4096 + length d \<le> j * 4096" using assms(1) by linarith
    then show ?thesis
      using drop_write_after [OF len] by (simp add: page_at_def gslice_def)
  qed
  moreover have "length (write_file f (i * 4096) d) = length f"
    using len by (simp add: write_file_inside)
  ultimately show ?thesis by (simp add: same_pages_def)
qed

lemma same_pages_read:
  assumes "same_pages S f g" "small_id i" "covers f (Suc (unat i))" "unat i \<notin> S"
  shows "readBodyUnchecked g i = readBodyUnchecked f i"
proof -
  have "covers g (Suc (unat i))" using assms by (simp add: same_pages_def covers_def)
  then show ?thesis using assms by (simp add: readBody_page same_pages_def)
qed

lemma same_pages_chain:
  assumes "same_pages S f g" "chain_part f pc fh fc fl" "\<forall>x \<in> set fl. unat x \<notin> S"
  shows "chain_part g pc fh fc fl"
proof -
  have "\<forall>x \<in> set fl. readBodyUnchecked g x = readBodyUnchecked f x"
  proof
    fix x assume "x \<in> set fl"
    moreover have "x < pc" using assms(2) \<open>x \<in> set fl\<close> by (simp add: chain_part_def)
    ultimately show "readBodyUnchecked g x = readBodyUnchecked f x"
      using assms chain_part_ids [OF assms(2)] same_pages_read by blast
  qed
  moreover have "covers g (unat pc)"
    using assms(1,2) by (simp add: chain_part_def same_pages_def covers_def)
  ultimately show ?thesis
    using assms(2) free_chain_frame [of fl g f fh] by (simp add: chain_part_def)
qed

lemma same_pages_hdr:
  assumes "same_pages S f g" "hdr_part f pc fh fc" "covers f 2" "0 \<notin> S" "1 \<notin> S"
  shows "hdr_part g pc fh fc"
proof -
  have "covers f (Suc 0)" "covers f (Suc 1)"
    using assms(3) covers_mono [of f 2] by (auto simp: numeral_2_eq_2)
  then have "page_at g 0 = page_at f 0" "page_at g 1 = page_at f 1"
    using assms(1,4,5) unfolding same_pages_def by blast+
  then show ?thesis using assms(2) unfolding hdr_part_def by metis
qed

text \<open>The state after file operations: only the main file and the pending faults change.\<close>

definition disk_step :: "filePager \<Rightarrow> filePager \<Rightarrow> bool" where
  "disk_step p q \<longleftrightarrow> (\<exists>m io. q = p\<lparr>fp_main := m, fp_io := io\<rparr>) \<and> (healthy p \<longrightarrow> healthy q)"

lemma disk_step_refl [simp]: "disk_step p p"
proof -
  have "p = p\<lparr>fp_main := fp_main p, fp_io := fp_io p\<rparr>" by simp
  then show ?thesis unfolding disk_step_def by blast
qed

lemma disk_step_trans: "disk_step p q \<Longrightarrow> disk_step q r \<Longrightarrow> disk_step p r"
  unfolding disk_step_def
proof (elim conjE exE, intro conjI impI)
  fix m io m' io' assume "q = p\<lparr>fp_main := m, fp_io := io\<rparr>" "r = q\<lparr>fp_main := m', fp_io := io'\<rparr>"
  then have "r = p\<lparr>fp_main := m', fp_io := io'\<rparr>" by simp
  then show "\<exists>m io. r = p\<lparr>fp_main := m, fp_io := io\<rparr>" by blast
qed blast

lemma disk_step_fields:
  assumes "disk_step p q"
  shows "fp_wal q = fp_wal p" "fp_walSize q = fp_walSize p" "fp_state q = fp_state p"
    "fp_pageCount q = fp_pageCount p" "fp_freeListHead q = fp_freeListHead p"
    "fp_freeCount q = fp_freeCount p" "fp_freeSet q = fp_freeSet p" "fp_inTxn q = fp_inTxn p"
    "fp_threshold q = fp_threshold p" "fp_order q = fp_order p" "fp_txnBuffer q = fp_txnBuffer p"
    "fp_nextTxnID q = fp_nextTxnID p" "fp_currentTxn q = fp_currentTxn p"
    "healthy p \<Longrightarrow> healthy q"
  using assms by (auto simp: disk_step_def)

lemma main_WriteAt_step:
  assumes "main_WriteAt d (page_offset i) p = (q, r)" "small_id i" "length d \<le> 4096"
    and "covers (fp_main p) (Suc (unat i))"
  shows "disk_step p q \<and> same_pages {unat i} (fp_main p) (fp_main q)
    \<and> (r = Inr () \<longrightarrow> fp_main q = write_file (fp_main p) (unat i * 4096) d)
    \<and> (healthy p \<longrightarrow> r = Inr ())"
proof -
  have s: "same_pages {unat i} (fp_main p) (write_file (fp_main p) (unat i * 4096) (take n d))" for n
    using assms(3,4) by (intro same_pages_write) auto
  have d: "disk_step p (p\<lparr>fp_main := m\<rparr>)" "healthy p \<or> disk_step p (p\<lparr>fp_io := io, fp_main := m\<rparr>)"
    for m io
  proof -
    have "p\<lparr>fp_main := m\<rparr> = p\<lparr>fp_main := m, fp_io := fp_io p\<rparr>" by simp
    then show "disk_step p (p\<lparr>fp_main := m\<rparr>)" 
      unfolding disk_step_def healthy_def by (intro conjI exI [of _ m] exI [of _ "fp_io p"]) simp_all
    have "p\<lparr>fp_io := io, fp_main := m\<rparr> = p\<lparr>fp_main := m, fp_io := io\<rparr>" by simp
    then show "healthy p \<or> disk_step p (p\<lparr>fp_io := io, fp_main := m\<rparr>)"
      unfolding disk_step_def by blast
  qed
  show ?thesis
    using assms(1) s [of "length d"] s d
    by (auto simp: main_WriteAt_def page_offset_nat [OF assms(2)] next_io_def healthy_def
        split: list.splits io_outcome.splits if_splits)
qed

lemma file_op_step:
  assumes "file_op p = (q, r)"
  shows "disk_step p q \<and> fp_main q = fp_main p \<and> (healthy p \<longrightarrow> r = Inr ())"
proof -
  have "healthy p \<or> disk_step p (p\<lparr>fp_io := io\<rparr>)" for io
  proof -
    have "p\<lparr>fp_io := io\<rparr> = p\<lparr>fp_main := fp_main p, fp_io := io\<rparr>" by simp
    then show ?thesis unfolding disk_step_def by blast
  qed
  then show ?thesis
    using assms
    by (auto simp: file_op_def next_io_def healthy_def split: list.splits io_outcome.splits)
qed

definition pages_ok :: "bytes \<Rightarrow> (u64 \<times> bytes) list \<Rightarrow> bool" where
  "pages_ok f l \<longleftrightarrow> distinct (map fst l) \<and>
     (\<forall>(i, b) \<in> set l. small_id i \<and> covers f (Suc (unat i)) \<and> length b = 4084)"

abbreviation page_nums :: "(u64 \<times> bytes) list \<Rightarrow> nat set" where
  "page_nums l \<equiv> unat ` fst ` set l"

lemma mem_page_nums [simp]: "unat i \<in> page_nums l \<longleftrightarrow> i \<in> fst ` set l"
proof -
  have "inj (unat :: u64 \<Rightarrow> nat)" by (rule injI) (simp add: word_unat_eq_iff)
  then show ?thesis by (rule inj_image_mem_iff)
qed

lemma pages_ok_same: "pages_ok f l \<Longrightarrow> same_pages S f g \<Longrightarrow> pages_ok g l"
  by (auto simp: pages_ok_def same_pages_def covers_def)

lemma write_pages_step:
  assumes "write_pages l p = (q, r)" "pages_ok (fp_main p) l"
  shows "disk_step p q \<and> same_pages (page_nums l) (fp_main p) (fp_main q)
    \<and> (r = Inr () \<longrightarrow> (\<forall>(i, b) \<in> set l. readBodyUnchecked (fp_main q) i = Inr b))
    \<and> (healthy p \<longrightarrow> r = Inr ())"
  using assms
proof (induction l arbitrary: p)
  case Nil
  then show ?case by simp
next
  case (Cons ib l)
  obtain i b where ib: "ib = (i, b)" by (cases ib)
  have ok: "small_id i" "covers (fp_main p) (Suc (unat i))" "length b = 4084" "pages_ok (fp_main p) l"
    and new: "i \<notin> fst ` set l"
    using Cons.prems(2) ib by (auto simp: pages_ok_def)
  obtain p1 r1 where w: "main_WriteAt (page_img b) (page_offset i) p = (p1, r1)" by fastforce
  note st = main_WriteAt_step [OF w ok(1) _ ok(2), simplified]
  show ?case
  proof (cases r1)
    case (Inl e)
    then show ?thesis
      using Cons.prems(1) w st ib ok(3) by (auto simp: encode_page_img intro: same_pages_mono)
  next
    case (Inr u)
    then have run: "write_pages l p1 = (q, r)"
      using Cons.prems(1) w ib ok(3) by (simp add: encode_page_img)
    have "pages_ok (fp_main p1) l" using st ok(4) pages_ok_same by blast
    note IH = Cons.IH [OF run this]
    have m1: "fp_main p1 = write_file (fp_main p) (unat i * 4096) (page_img b)" using st Inr by simp
    have "readBodyUnchecked (fp_main p1) i = Inr b"
      unfolding m1 using ok by (intro readBody_write_same) (simp_all add: encode_page_img)
    moreover have "readBodyUnchecked (fp_main q) i = readBodyUnchecked (fp_main p1) i"
    proof (rule same_pages_read [OF _ ok(1)])
      show "same_pages (page_nums l) (fp_main p1) (fp_main q)" using IH by blast
      show "covers (fp_main p1) (Suc (unat i))"
        using st ok(2) by (simp add: same_pages_def covers_def)
      show "unat i \<notin> page_nums l" using new by simp
    qed
    ultimately have rd: "readBodyUnchecked (fp_main q) i = Inr b" by simp
    have "same_pages ({unat i} \<union> page_nums l) (fp_main p) (fp_main q)"
      using st IH same_pages_trans by blast
    then show ?thesis
      using IH st rd ib disk_step_trans [of p p1 q] disk_step_fields(14) [of p p1] by auto
  qed
qed

section \<open>Grouping the log\<close>

type_synonym wal_entry = "u64 \<times> u64 \<times> bytes"

definition no_eot :: "wal_entry list \<Rightarrow> bool" where
  "no_eot recs \<longleftrightarrow> (\<forall>r \<in> set recs. fst (snd r) \<noteq> walEOTPageID)"

lemma add_to_group_last:
  "t \<notin> fst ` set gs \<Longrightarrow> add_to_group (t, r) (gs @ [(t, rs)]) = gs @ [(t, rs @ [(t, r)])]"
  by (induction gs) auto

lemma add_to_group_fresh:
  "t \<notin> fst ` set gs \<Longrightarrow> add_to_group (t, r) gs = gs @ [(t, [(t, r)])]"
  by (induction gs) auto

lemma add_to_group_parts:
  "(t, rs) \<in> set (add_to_group rec gs) \<Longrightarrow>
   (t, rs) \<in> set gs \<or> t = fst rec \<and> (\<exists>rs0. rs = rs0 @ [rec] \<and> (rs0 = [] \<or> (t, rs0) \<in> set gs))"
  by (induction gs) (auto split: if_splits)

lemma group_records_parts:
  "(t, rs) \<in> set (group_records recs) \<Longrightarrow> t \<in> fst ` set recs \<and> set rs \<subseteq> set recs"
proof (induction recs arbitrary: t rs rule: rev_induct)
  case Nil
  then show ?case by (simp add: group_records_def)
next
  case (snoc rec recs)
  then have "(t, rs) \<in> set (add_to_group rec (group_records recs))"
    by (simp add: group_records_def)
  from add_to_group_parts [OF this] snoc.IH show ?case by fastforce
qed

lemma group_records_txn:
  assumes "c \<notin> fst ` set old" "\<forall>r \<in> set cur. fst r = c" "cur \<noteq> []"
  shows "group_records (old @ cur) = group_records old @ [(c, cur)]"
  using assms(2,3)
proof (induction cur rule: rev_induct)
  case Nil
  then show ?case by simp
next
  case (snoc r cur)
  obtain x where r: "r = (c, x)" using snoc.prems by (cases r) auto
  have new: "c \<notin> fst ` set (group_records old)"
    using assms(1) group_records_parts [of _ _ old] by fastforce
  have step: "group_records (old @ cur @ [r]) = add_to_group r (group_records (old @ cur))"
    by (simp add: group_records_def)
  show ?case
  proof (cases "cur = []")
    case True
    then show ?thesis using step new r by (simp add: add_to_group_fresh)
  next
    case False
    then show ?thesis
      using step snoc new r by (simp add: add_to_group_last)
  qed
qed

lemma group_hasEOT_iff: "group_hasEOT recs \<longleftrightarrow> \<not> no_eot recs"
  by (auto simp: group_hasEOT_def no_eot_def isEOTMarker_def list_ex_iff split_beta)

lemma no_eot_simps [simp]:
  "no_eot []" "no_eot (xs @ ys) \<longleftrightarrow> no_eot xs \<and> no_eot ys"
  "no_eot ((t, i, b) # recs) \<longleftrightarrow> i \<noteq> walEOTPageID \<and> no_eot recs"
  by (auto simp: no_eot_def)

lemma apply_groups_none:
  "\<forall>(t, rs) \<in> set gs. no_eot rs \<Longrightarrow> apply_groups gs p = (p, Inr ())"
  by (induction gs) (auto simp: group_hasEOT_iff)

lemma apply_groups_last:
  assumes "\<forall>(t, rs) \<in> set gs. no_eot rs" "\<not> no_eot rs"
  shows "apply_groups (gs @ [(c, rs)]) p =
     (case write_pages (fp_order p (group_applied rs)) p of
        (p, Inl e) \<Rightarrow> (p, Inl e) | (p, Inr _) \<Rightarrow> file_op p)"
  using assms
  by (induction gs) (auto simp: group_hasEOT_iff split: prod.splits sum.splits)

lemma group_applied_snoc:
  "group_applied (recs @ [(t, i, b)]) =
     (if i = walEOTPageID then group_applied recs else AList.update i b (group_applied recs))"
  by (simp add: group_applied_def isEOTMarker_def)

lemma group_applied_Nil [simp]: "group_applied [] = []"
  by (simp add: group_applied_def)

lemma distinct_group_applied: "distinct (map fst (group_applied recs))"
proof (induction recs rule: rev_induct)
  case (snoc r recs)
  then show ?case by (cases r) (simp add: group_applied_snoc distinct_update)
qed simp

lemma set_group_applied:
  "(i, b) \<in> set (group_applied recs) \<Longrightarrow> i \<noteq> walEOTPageID \<and> (\<exists>t. (t, i, b) \<in> set recs)"
proof (induction recs arbitrary: i b rule: rev_induct)
  case (snoc r recs)
  obtain t j c where r: "r = (t, j, c)" by (cases r)
  have "set (AList.update j c m) \<subseteq> insert (j, c) (set m)" for m :: "(u64 \<times> bytes) list"
    by (induction m) auto
  then show ?case
    using snoc r by (fastforce simp: group_applied_snoc split: if_splits)
qed simp

text \<open>Replaying a log that holds one committed transaction after uncommitted ones.\<close>

lemma replay_committed:
  assumes "fp_wal p = wal_of (old @ cur @ [(c, walEOTPageID, [])])"
    and "fp_walSize p = length (fp_wal p)" "recs_ok (old @ cur)" "no_eot (old @ cur)"
    and "c \<notin> fst ` set old" "\<forall>r \<in> set cur. fst r = c"
  shows "replayWALInternal p =
     (case write_pages (fp_order p (group_applied cur)) p of
        (p, Inl e) \<Rightarrow> (p, Inl e)
      | (p, Inr _) \<Rightarrow>
        (case file_op p of (p, Inl e) \<Rightarrow> (p, Inl e) | (p, Inr _) \<Rightarrow> truncate_wal p))"
proof -
  let ?recs = "old @ cur @ [(c, walEOTPageID, [])]"
  have ne: "fp_walSize p \<noteq> 0" using assms(1,2) by simp
  have rd: "read_file (fp_wal p) 0 (fp_walSize p) = Inr (fp_wal p)"
    by (simp add: read_file_def assms(2) gslice_def)
  have parse: "parse_wal (fp_wal p) = Inr ?recs"
    unfolding assms(1) using assms(3) by (intro parse_wal_of) (simp add: wal_shape_def)
  have grp: "group_records ?recs = group_records old @ [(c, cur @ [(c, walEOTPageID, [])])]"
    using assms(5,6) by (intro group_records_txn) auto
  have "\<forall>(t, rs) \<in> set (group_records old). no_eot rs"
    using assms(4) group_records_parts [of _ _ old] unfolding no_eot_def by fastforce
  from apply_groups_last [OF this, of "cur @ [(c, walEOTPageID, [])]" c p]
  have "apply_groups (group_records ?recs) p =
     (case write_pages (fp_order p (group_applied cur)) p of
        (p, Inl e) \<Rightarrow> (p, Inl e) | (p, Inr _) \<Rightarrow> file_op p)"
    unfolding grp by (simp add: group_applied_snoc)
  then show ?thesis
    using ne rd parse by (auto simp: replayWALInternal_def split: prod.splits sum.splits)
qed

lemma replay_uncommitted:
  assumes "parse_wal (fp_wal p) = Inr recs" "fp_walSize p = length (fp_wal p)" "no_eot recs"
  shows "replayWALInternal p = (if fp_wal p = [] then (p, Inr ()) else truncate_wal p)"
proof -
  have rd: "read_file (fp_wal p) 0 (fp_walSize p) = Inr (fp_wal p)"
    by (simp add: read_file_def assms(2) gslice_def)
  have "\<forall>(t, rs) \<in> set (group_records recs). no_eot rs"
    using assms(3) group_records_parts [of _ _ recs] unfolding no_eot_def by fastforce
  then show ?thesis
    using rd assms by (simp add: replayWALInternal_def apply_groups_none)
qed

end
