(* ===== verification/Pager_Txn.thy ===== *)
theory Pager_Txn
  imports Pager_Inv
begin

text \<open>
  The invariant \<open>pager_inv\<close> of an open pager, the effect of every method on a healthy disk, the
  interface \<open>page_store\<close> the tree layer relies on (interpreted on the methods of the pager) and
  the properties of the pager: transactional reads and writes, allocation and freeing, reopening,
  and the atomicity of a commit that is interrupted at an arbitrary file operation.
\<close>

section \<open>The invariant\<close>

definition wal_part :: "filePager \<Rightarrow> wal_entry list \<Rightarrow> wal_entry list \<Rightarrow> bool" where
  "wal_part p old cur \<longleftrightarrow>
     fp_wal p = wal_of (old @ cur) \<and> fp_walSize p = length (fp_wal p)
     \<and> recs_ok (old @ cur) \<and> no_eot (old @ cur) \<and> (\<forall>r \<in> set old. fst r \<le> fp_nextTxnID p)
     \<and> (if fp_inTxn p
        then (\<forall>r \<in> set cur. fst r = fp_currentTxn p) \<and> (\<forall>r \<in> set old. fst r \<noteq> fp_currentTxn p)
             \<and> fp_currentTxn p = fp_nextTxnID p \<and> fp_txnBuffer p = group_applied cur
        else cur = [] \<and> fp_txnBuffer p = [])"

text \<open>The pages a client owns: data pages that are not on the free list.\<close>

definition live :: "filePager \<Rightarrow> u64 set" where
  "live p = {i. 2 \<le> i \<and> i < fp_pageCount p \<and> i \<notin> fp_freeSet p}"

definition disk_part :: "filePager \<Rightarrow> u64 list \<Rightarrow> bool" where
  "disk_part p fl \<longleftrightarrow>
     chain_part (fp_main p) (fp_pageCount p) (fp_freeListHead p) (fp_freeCount p) fl
     \<and> set fl = fp_freeSet p
     \<and> hdr_part (fp_main p) (fp_pageCount p) (fp_freeListHead p) (fp_freeCount p)"

definition buffer_ok :: "filePager \<Rightarrow> bool" where
  "buffer_ok p \<longleftrightarrow> distinct (map fst (fp_txnBuffer p))
     \<and> (\<forall>(i, b) \<in> set (fp_txnBuffer p). i \<in> live p \<and> length b = 4084)"

definition settings_ok :: "filePager \<Rightarrow> bool" where
  "settings_ok p \<longleftrightarrow> fp_state p = stateOpen \<and> fp_threshold p \<le> 0
     \<and> (\<forall>xs. mset (fp_order p xs) = mset xs)"

definition pager_inv :: "filePager \<Rightarrow> bool" where
  "pager_inv p \<longleftrightarrow> settings_ok p \<and> (\<exists>fl. disk_part p fl)
     \<and> readable (fp_main p) (fp_pageCount p) \<and> (\<exists>old cur. wal_part p old cur) \<and> buffer_ok p"

lemma pager_invI:
  "settings_ok p \<Longrightarrow> disk_part p fl \<Longrightarrow> readable (fp_main p) (fp_pageCount p)
    \<Longrightarrow> wal_part p old cur \<Longrightarrow> buffer_ok p \<Longrightarrow> pager_inv p"
  unfolding pager_inv_def by blast

lemma live_ids:
  assumes "disk_part p fl" "i \<in> live p"
  shows "small_id i" "covers (fp_main p) (Suc (unat i))" "i \<notin> set fl" "2 \<le> i" "2 \<le> unat i"
    "i < fp_pageCount p"
  using assms chain_part_ids [of "fp_main p"] unat_ge_2 by (auto simp: disk_part_def live_def)

lemma live_wal_shape:
  assumes "disk_part p fl" "i \<in> live p" "length b = 4084"
  shows "wal_shape i b" "i \<noteq> walEOTPageID"
proof -
  have "small_id i" using live_ids assms by blast
  then show "i \<noteq> walEOTPageID" by (auto simp: small_id_def walEOTPageID_def)
  then show "wal_shape i b" using assms(3) by (simp add: wal_shape_def)
qed

lemma checkState_open: "settings_ok p \<Longrightarrow> checkState p = None"
  by (simp add: settings_ok_def checkState_def)

lemma validatePageID_live:
  "validatePageID i p = (if 2 \<le> i \<and> i < fp_pageCount p then None else Some ErrInvalidPageID)"
proof -
  have "i = 0 \<or> i = 1 \<longleftrightarrow> \<not> 2 \<le> i"
    unfolding unat_ge_2 by (auto simp: word_unat_eq_iff)
  then show ?thesis by (auto simp: validatePageID_def linorder_not_less)
qed

text \<open>What the main file holds for a page, whatever the transaction.\<close>

definition committed :: "filePager \<Rightarrow> u64 \<Rightarrow> pager_err + bytes" where
  "committed p i = (if i \<in> live p then readBodyUnchecked (fp_main p) i else Inl ErrInvalidPageID)"

lemma ReadPage_eq:
  assumes "pager_inv p"
  shows "ReadPage None i p =
    (case map_of (fp_txnBuffer p) i of Some b \<Rightarrow> Inr b | None \<Rightarrow> committed p i)"
proof (cases "i \<in> live p")
  case True
  have "length b = 4084" if "map_of (fp_txnBuffer p) i = Some b" for b
    using assms map_of_SomeD [OF that] by (auto simp: pager_inv_def buffer_ok_def)
  moreover have "fp_txnBuffer p = []" if "\<not> fp_inTxn p"
    using assms that by (auto simp: pager_inv_def wal_part_def)
  ultimately show ?thesis
    using True assms
    by (auto simp: ReadPage_def checkState_open pager_inv_def validatePageID_live live_def
        committed_def copy_at_whole split: option.splits)
next
  case False
  then have "map_of (fp_txnBuffer p) i = None"
    using assms by (auto simp: pager_inv_def buffer_ok_def map_of_eq_None_iff)
  then show ?thesis
    using False assms
    by (auto simp: ReadPage_def checkState_open pager_inv_def validatePageID_live live_def committed_def)
qed

lemma committed_ok:
  assumes "pager_inv p" "i \<in> live p"
  shows "\<exists>b. committed p i = Inr b \<and> length b = 4084"
  using assms readBody_length by (fastforce simp: pager_inv_def committed_def readable_def live_def)

lemma ReadPage_ok:
  assumes "pager_inv p" "i \<in> live p"
  shows "\<exists>b. ReadPage None i p = Inr b \<and> length b = 4084"
proof (cases "map_of (fp_txnBuffer p) i")
  case None
  then show ?thesis using committed_ok [OF assms] by (simp add: ReadPage_eq [OF assms(1)])
next
  case (Some b)
  then have "length b = 4084"
    using assms map_of_SomeD [OF Some] by (auto simp: pager_inv_def buffer_ok_def)
  then show ?thesis using Some by (simp add: ReadPage_eq [OF assms(1)])
qed

lemma ReadPage_dead: "pager_inv p \<Longrightarrow> i \<notin> live p \<Longrightarrow> ReadPage None i p = Inl ErrInvalidPageID"
  by (auto simp: ReadPage_def checkState_open pager_inv_def validatePageID_live live_def)

section \<open>Batches of live pages\<close>

definition live_batch :: "filePager \<Rightarrow> (u64 \<times> bytes) list \<Rightarrow> bool" where
  "live_batch p l \<longleftrightarrow> distinct (map fst l) \<and> (\<forall>(i, b) \<in> set l. i \<in> live p \<and> length b = 4084)"

lemma live_batch_pages_ok: "disk_part p fl \<Longrightarrow> live_batch p l \<Longrightarrow> pages_ok (fp_main p) l"
  using live_ids by (fastforce simp: live_batch_def pages_ok_def)

lemma live_batch_order:
  assumes "settings_ok p" "live_batch p l"
  shows "live_batch p (fp_order p l)" "set (fp_order p l) = set l"
proof -
  have m: "mset (fp_order p l) = mset l" using assms(1) by (simp add: settings_ok_def)
  then show s: "set (fp_order p l) = set l" by (rule mset_eq_setD)
  from m have "mset (map fst (fp_order p l)) = mset (map fst l)" by simp
  then have "distinct (map fst (fp_order p l))"
    using assms(2) mset_eq_imp_distinct_iff unfolding live_batch_def by blast
  then show "live_batch p (fp_order p l)" using assms(2) s by (simp add: live_batch_def)
qed

lemma disk_step_live: "disk_step p q \<Longrightarrow> live q = live p"
  by (simp add: live_def disk_step_fields)

lemma batch_disk_part:
  assumes "disk_part p fl" "live_batch p l" "disk_step p q"
    and "same_pages (page_nums l) (fp_main p) (fp_main q)"
  shows "disk_part q fl"
proof -
  have live: "i \<in> live p" if "(i, b) \<in> set l" for i b
    using that assms(2) by (auto simp: live_batch_def)
  have fl: "\<forall>x \<in> set fl. unat x \<notin> page_nums l"
    using live live_ids(3) [OF assms(1)] unfolding mem_page_nums by fastforce
  have ge: "2 \<le> n" if n: "n \<in> page_nums l" for n
  proof -
    obtain x where x: "x \<in> set l" "n = unat (fst x)" using n by blast
    then have "fst x \<in> live p" using live [of "fst x" "snd x"] by simp
    then show ?thesis using live_ids(5) [OF assms(1)] x(2) by simp
  qed
  have n: "0 \<notin> page_nums l" "1 \<notin> page_nums l"
    using ge [of 0] ge [of 1] by (simp_all only: numeral_2_eq_2 not_less_eq_eq) auto
  have c: "chain_part (fp_main p) (fp_pageCount p) (fp_freeListHead p) (fp_freeCount p) fl"
    and h: "hdr_part (fp_main p) (fp_pageCount p) (fp_freeListHead p) (fp_freeCount p)"
    and s: "set fl = fp_freeSet p"
    using assms(1) unfolding disk_part_def by blast+
  show ?thesis
    unfolding disk_part_def disk_step_fields [OF assms(3)]
    using same_pages_chain [OF assms(4) c fl] same_pages_hdr [OF assms(4) h covers_2 [OF c] n] s
    by (intro conjI)
qed

lemma batch_other:
  assumes "disk_part p fl" "same_pages (page_nums l) (fp_main p) (fp_main q)"
    and "i < fp_pageCount p" "i \<notin> fst ` set l"
  shows "readBodyUnchecked (fp_main q) i = readBodyUnchecked (fp_main p) i"
proof -
  have "unat i \<notin> page_nums l"
    using assms(4) by simp
  moreover have "small_id i" "covers (fp_main p) (Suc (unat i))"
    using assms(1,3) chain_part_ids [of "fp_main p"] unfolding disk_part_def by blast+
  ultimately show ?thesis using same_pages_read [OF assms(2)] by blast
qed

lemma batch_readable:
  assumes "disk_part p fl" "readable (fp_main p) (fp_pageCount p)"
    and "same_pages (page_nums l) (fp_main p) (fp_main q)" "disk_step p q"
    and "\<forall>(i, b) \<in> set l. readBodyUnchecked (fp_main q) i = Inr b"
  shows "readable (fp_main q) (fp_pageCount q)"
  unfolding readable_def disk_step_fields [OF assms(4)]
proof (intro allI impI)
  fix i assume i: "2 \<le> i \<and> i < fp_pageCount p"
  show "\<exists>b. readBodyUnchecked (fp_main q) i = Inr b"
  proof (cases "i \<in> fst ` set l")
    case True
    then show ?thesis using assms(5) by auto
  next
    case False
    then show ?thesis
      using i assms(2) batch_other [OF assms(1,3)] by (simp add: readable_def)
  qed
qed

lemma batch_committed:
  assumes "disk_part p fl" "live_batch p l" "disk_step p q"
    and "same_pages (page_nums l) (fp_main p) (fp_main q)"
    and "\<forall>(i, b) \<in> set l. readBodyUnchecked (fp_main q) i = Inr b"
  shows "committed q i = (case map_of l i of Some b \<Rightarrow> Inr b | None \<Rightarrow> committed p i)"
proof (cases "map_of l i")
  case None
  then have "i \<notin> fst ` set l" by (simp add: map_of_eq_None_iff)
  then show ?thesis
    using None batch_other [OF assms(1,4)] disk_step_live [OF assms(3)]
    by (simp add: committed_def live_def)
next
  case (Some b)
  then have "(i, b) \<in> set l" by (rule map_of_SomeD)
  then show ?thesis
    using Some assms(2,5) disk_step_live [OF assms(3)] by (auto simp: committed_def live_batch_def)
qed

lemma map_of_order:
  assumes "settings_ok p" "live_batch p l"
  shows "map_of (fp_order p l) = map_of l"
  using live_batch_order [OF assms] assms(2) map_of_inject_set unfolding live_batch_def by blast

section \<open>Opening files\<close>

lemma pager_Open_files:
  assumes "chain_part f pc fh fc fl" "hdr_part f pc fh fc"
  shows "pager_Open None (newPager thr f w [] ord) =
     replayWALInternal (newPager thr f w [] ord
       \<lparr>fp_state := stateOpen, fp_pageCount := pc, fp_freeListHead := fh, fp_freeCount := fc,
        fp_freeSet := set fl, fp_walSize := length w\<rparr>)"
proof -
  let ?p = "newPager thr f w [] ord"
  have h: "healthy ?p" by (simp add: healthy_def newPager_def)
  have c: "covers f (Suc (unat (0 :: u64)))" using covers_2 [OF assms(1)] covers_mono by fastforce
  then have len: "length f \<noteq> 0" by (auto simp: covers_def)
  have "read_file f (page_offset 0) 4096 = Inr (page_at f 0)"
    using read_page [OF _ c] by simp
  then have rh: "read_header ?p = (?p, Inr (header_of pc fh fc))"
    using assms(2) by (simp add: read_header_def newPager_def hdr_part_def decode_encodeHeader)
  have fw: "free_walk f pc fh {} {} = Inr (set fl)"
    using assms(1) by (subst free_walk_chain [where fl = fl]) (auto simp: chain_part_def)
  have cnt: "word_of_nat (card (set fl)) = fc"
    using assms(1) by (simp add: chain_part_def distinct_card)
  have hw: "fp_main ?p = f" "fp_wal ?p = w" "fp_openErr ?p = None" "fp_state ?p = stateNeverOpened"
    by (simp_all add: newPager_def)
  show ?thesis
    unfolding pager_Open_def using h len rh fw cnt hw
    by (simp add: file_op_healthy header_of_def)
qed

section \<open>Writing a page\<close>

lemma writeBodyUnchecked_batch:
  "length b = 4084 \<Longrightarrow> writeBodyUnchecked i b p =
     (case write_pages [(i, b)] p of (p, Inl e) \<Rightarrow> (p, Inl e) | (p, Inr _) \<Rightarrow> file_op p)"
  by (auto simp: writeBodyUnchecked_def encode_page_img split: prod.splits sum.splits)

text \<open>An error-free file batch keeps the invariant outside a transaction.\<close>

lemma batch_inv:
  assumes "pager_inv p" "live_batch p l" "disk_step p q" "\<not> fp_inTxn p"
    and "same_pages (page_nums l) (fp_main p) (fp_main q)"
    and "\<forall>(i, b) \<in> set l. readBodyUnchecked (fp_main q) i = Inr b"
  shows "pager_inv q"
proof -
  note f = disk_step_fields [OF assms(3)]
  obtain fl where d: "disk_part p fl" using assms(1) by (auto simp: pager_inv_def)
  have "disk_part q fl" by (rule batch_disk_part [OF d assms(2,3,5)])
  moreover have "readable (fp_main q) (fp_pageCount q)"
    using assms(1) by (intro batch_readable [OF d _ assms(5,3,6)]) (simp add: pager_inv_def)
  moreover have "\<exists>old cur. wal_part q old cur"
    using assms(1) unfolding pager_inv_def wal_part_def f by blast
  moreover have "settings_ok q" "buffer_ok q"
    using assms(1) by (simp_all add: pager_inv_def settings_ok_def buffer_ok_def f
      disk_step_live [OF assms(3)])
  ultimately show ?thesis unfolding pager_inv_def by blast
qed

lemma live_batch_single: "i \<in> live p \<Longrightarrow> length b = 4084 \<Longrightarrow> live_batch p [(i, b)]"
  by (simp add: live_batch_def)

lemma WritePage_direct:
  assumes "pager_inv p" "healthy p" "i \<in> live p" "length b = 4084" "\<not> fp_inTxn p"
  shows "\<exists>q. WritePage None i b p = (q, Inr ()) \<and> pager_inv q \<and> disk_step p q
    \<and> (\<forall>j. committed q j = (if j = i then Inr b else committed p j))"
proof -
  obtain fl where d: "disk_part p fl" using assms(1) by (auto simp: pager_inv_def)
  have lb: "live_batch p [(i, b)]" using assms by (intro live_batch_single)
  obtain q r where w: "write_pages [(i, b)] p = (q, r)" by fastforce
  note st = write_pages_step [OF w live_batch_pages_ok [OF d lb]]
  have r: "r = Inr ()" "disk_step p q" "healthy q"
    and st': "same_pages (page_nums [(i, b)]) (fp_main p) (fp_main q)"
      "\<forall>(i, b) \<in> set [(i, b)]. readBodyUnchecked (fp_main q) i = Inr b"
    using st assms(2) disk_step_fields(14) by blast+
  have "WritePage None i b p = writeBodyUnchecked i b p"
    using assms by (simp add: WritePage_def checkState_open pager_inv_def validatePageID_live live_def)
  also have "\<dots> = (q, Inr ())"
    using w r assms(4) by (simp add: writeBodyUnchecked_batch file_op_healthy del: write_pages.simps)
  finally have run: "WritePage None i b p = (q, Inr ())" .
  have "committed q j = (if j = i then Inr b else committed p j)" for j
    using batch_committed [OF d lb r(2) st', of j] by simp
  then show ?thesis
    using run r batch_inv [OF assms(1) lb r(2) assms(5) st'] by blast
qed

lemma WritePage_logged:
  assumes "pager_inv p" "healthy p" "i \<in> live p" "length b = 4084" "fp_inTxn p"
  defines "q \<equiv> p\<lparr>fp_wal := fp_wal p @ wal_rec (fp_currentTxn p) i b,
      fp_txnBuffer := AList.update i b (fp_txnBuffer p),
      fp_walSize := fp_walSize p + length (wal_rec (fp_currentTxn p) i b)\<rparr>"
  shows "WritePage None i b p = (q, Inr ()) \<and> pager_inv q"
proof
  obtain fl where d: "disk_part p fl" using assms(1) by (auto simp: pager_inv_def)
  obtain old cur where w: "wal_part p old cur" using assms(1) by (auto simp: pager_inv_def)
  have sz: "fp_walSize p = length (fp_wal p)" using w by (simp add: wal_part_def)
  show "WritePage None i b p = (q, Inr ())"
    using assms(1-5) sz
    by (simp add: q_def WritePage_def checkState_open pager_inv_def validatePageID_live live_def
        appendWAL_def encodeWALRecord_eq wal_WriteAt_healthy file_op_healthy append_write_file
        copy_at_whole)
  have "wal_part q old (cur @ [(fp_currentTxn p, i, b)])"
    using w assms(5) live_wal_shape [OF d assms(3,4)]
    by (auto simp: wal_part_def q_def group_applied_snoc)
  moreover have "disk_part q fl" using d by (simp add: disk_part_def q_def)
  moreover have "live q = live p" by (simp add: live_def q_def)
  moreover have "set (AList.update i b m) \<subseteq> insert (i, b) (set m)" for m :: "(u64 \<times> bytes) list"
    by (induction m) auto
  ultimately show "pager_inv q"
    using assms(1,3,4)
    unfolding pager_inv_def by (fastforce simp: q_def settings_ok_def buffer_ok_def distinct_update)
qed

section \<open>Transactions\<close>

lemma BeginTx_inv:
  assumes "pager_inv p" "\<not> fp_inTxn p" "fp_wal p = [] \<or> fp_nextTxnID p \<noteq> - 1"
  defines "q \<equiv> p\<lparr>fp_inTxn := True, fp_nextTxnID := fp_nextTxnID p + 1,
      fp_currentTxn := fp_nextTxnID p + 1, fp_txnBuffer := []\<rparr>"
  shows "BeginTx None p = (q, Inr ()) \<and> pager_inv q"
proof
  show "BeginTx None p = (q, Inr ())"
    using assms(1,2) by (simp add: q_def BeginTx_def checkState_open pager_inv_def)
  obtain fl old cur where d: "disk_part p fl" and w: "wal_part p old cur"
    using assms(1) by (auto simp: pager_inv_def)
  have less: "t < fp_nextTxnID p + 1" if "t \<le> fp_nextTxnID p" "fp_nextTxnID p \<noteq> - 1" for t
  proof -
    have "1 + fp_nextTxnID p \<noteq> 0" using that(2) by (metis add_eq_0_iff2 add.commute)
    then have "unat (1 + fp_nextTxnID p) = Suc (unat (fp_nextTxnID p))" by (rule unatSuc)
    then show ?thesis using that(1) by (simp add: word_less_nat_alt word_le_nat_alt add.commute)
  qed
  have "wal_part q old []"
  proof (cases "old = []")
    case True
    then show ?thesis using w assms(2) by (simp add: wal_part_def q_def)
  next
    case False
    then obtain r rs where "old = r # rs" by (cases old) auto
    then have "fp_wal p \<noteq> []" using w by (cases r) (simp add: wal_part_def)
    then have nx: "fp_nextTxnID p \<noteq> - 1" using assms(3) by simp
    have "fst r < fp_nextTxnID p + 1" if "r \<in> set old" for r
      using w that less [OF _ nx] by (simp add: wal_part_def)
    then have "\<forall>r \<in> set old. fst r \<noteq> fp_nextTxnID p + 1 \<and> fst r \<le> fp_nextTxnID p + 1"
      by (metis less_imp_le less_irrefl)
    then show ?thesis
      using w assms(2) by (simp add: wal_part_def q_def)
  qed
  moreover have "disk_part q fl" using d by (simp add: disk_part_def q_def)
  ultimately show "pager_inv q"
    using assms(1) unfolding pager_inv_def by (fastforce simp: q_def settings_ok_def buffer_ok_def)
qed

lemma RollbackTx_inv:
  assumes "pager_inv p" "fp_inTxn p"
  defines "q \<equiv> p\<lparr>fp_inTxn := False, fp_txnBuffer := [], fp_currentTxn := 0\<rparr>"
  shows "RollbackTx None p = (q, Inr ()) \<and> pager_inv q"
proof
  show "RollbackTx None p = (q, Inr ())"
    using assms(1,2) by (simp add: q_def RollbackTx_def checkState_open pager_inv_def)
  obtain fl old cur where d: "disk_part p fl" and w: "wal_part p old cur"
    using assms(1) by (auto simp: pager_inv_def)
  have "wal_part q (old @ cur) []"
    using w assms(2) by (auto simp: wal_part_def q_def)
  moreover have "disk_part q fl" using d by (simp add: disk_part_def q_def)
  ultimately show "pager_inv q"
    using assms(1) unfolding pager_inv_def by (fastforce simp: q_def settings_ok_def buffer_ok_def)
qed

text \<open>
  The possible outcomes of a commit, whatever the disk does: the marker is torn and nothing else
  was written; the log is complete and only pages of the transaction may be damaged; or the log
  is truncated and every page of the transaction holds its new body.
\<close>

definition commit_torn :: "filePager \<Rightarrow> filePager \<Rightarrow> bool" where
  "commit_torn p q \<longleftrightarrow> fp_main q = fp_main p \<and>
     (\<exists>n. n < 24 \<and> fp_wal q = fp_wal p @ take n (wal_rec (fp_currentTxn p) walEOTPageID []))"

definition commit_logged :: "filePager \<Rightarrow> filePager \<Rightarrow> bool" where
  "commit_logged p q \<longleftrightarrow> same_pages (page_nums (fp_txnBuffer p)) (fp_main p) (fp_main q)
     \<and> fp_wal q = fp_wal p @ wal_rec (fp_currentTxn p) walEOTPageID []"

definition commit_done :: "filePager \<Rightarrow> filePager \<Rightarrow> bool" where
  "commit_done p q \<longleftrightarrow> same_pages (page_nums (fp_txnBuffer p)) (fp_main p) (fp_main q)
     \<and> fp_wal q = [] \<and> (\<forall>(i, b) \<in> set (fp_txnBuffer p). readBodyUnchecked (fp_main q) i = Inr b)"

lemma truncate_wal_cases:
  assumes "truncate_wal p = (q, r)"
  shows "fp_main q = fp_main p
    \<and> (r \<noteq> Inr () \<and> fp_wal q = fp_wal p \<or> r = Inr () \<and> fp_wal q = [] \<and> fp_walSize q = 0)
    \<and> (healthy p \<longrightarrow> r = Inr () \<and> q = p\<lparr>fp_wal := [], fp_walSize := 0\<rparr>)"
  using assms
  by (auto simp: truncate_wal_def wal_Truncate_def next_io_def healthy_def
      split: list.splits io_outcome.splits)

text \<open>
  Writing the pages, syncing and truncating: the tail shared by the commit and the replay.  Every
  outcome is \<open>commit_logged\<close> or \<open>commit_done\<close>.
\<close>

definition apply_and_truncate :: "(u64 \<times> bytes) list \<Rightarrow> filePager \<Rightarrow> filePager \<times> (pager_err + unit)" where
  "apply_and_truncate l p =
     (case write_pages l p of
        (p, Inl e) \<Rightarrow> (p, Inl e)
      | (p, Inr _) \<Rightarrow>
        (case file_op p of (p, Inl e) \<Rightarrow> (p, Inl e) | (p, Inr _) \<Rightarrow> truncate_wal p))"

lemma write_sync_step:
  assumes "write_pages l p = (p1, Inr ())" "file_op p1 = (q, r)" "pages_ok (fp_main p) l"
  shows "disk_step p q \<and> same_pages (page_nums l) (fp_main p) (fp_main q)
    \<and> (\<forall>(i, b) \<in> set l. readBodyUnchecked (fp_main q) i = Inr b) \<and> (healthy p \<longrightarrow> r = Inr ())"
  using write_pages_step [OF assms(1,3)] file_op_step [OF assms(2)] disk_step_trans [of p p1 q]
    disk_step_fields(14) [of p p1] by simp

lemma apply_and_truncate_cases:
  assumes "apply_and_truncate l p = (q, r)" "pages_ok (fp_main p) l"
  shows "same_pages (page_nums l) (fp_main p) (fp_main q)
    \<and> (r \<noteq> Inr () \<and> fp_wal q = fp_wal p
       \<or> r = Inr () \<and> fp_wal q = [] \<and> (\<forall>(i, b) \<in> set l. readBodyUnchecked (fp_main q) i = Inr b))
    \<and> (healthy p \<longrightarrow> r = Inr () \<and> (\<exists>p2. disk_step p p2 \<and> q = p2\<lparr>fp_wal := [], fp_walSize := 0\<rparr>))"
proof -
  obtain p1 r1 where w: "write_pages l p = (p1, r1)" by fastforce
  obtain p2 r2 where f: "file_op p1 = (p2, r2)" by fastforce
  obtain p3 r3 where t: "truncate_wal p2 = (p3, r3)" by fastforce
  note ws = write_pages_step [OF w assms(2)]
  note fs = file_op_step [OF f]
  consider e where "r1 = Inl e" | e where "r1 = Inr ()" "r2 = Inl e" | "r1 = Inr ()" "r2 = Inr ()"
    by (cases r1; cases r2) auto
  then show ?thesis
  proof cases
    case 1
    then have "q = p1" "r = Inl e" using assms(1) w by (simp_all add: apply_and_truncate_def)
    then show ?thesis using ws 1 disk_step_fields(1) by auto
  next
    case 2
    then have "q = p2" "r = Inl e" using assms(1) w f by (simp_all add: apply_and_truncate_def)
    then show ?thesis
      using ws fs 2 disk_step_fields(1) [of p p1] disk_step_fields(1) [of p1 p2]
        disk_step_fields(14) [of p p1] by auto
  next
    case 3
    then have q: "q = p3" "r = r3" using assms(1) w f t by (simp_all add: apply_and_truncate_def)
    have d: "disk_step p p2" using ws fs disk_step_trans by blast
    then show ?thesis
      using q ws fs 3 truncate_wal_cases [OF t] disk_step_fields(1) [OF d] disk_step_fields(14) [OF d]
      by auto
  qed
qed

lemma wal_append_cases:
  assumes "wal_WriteAt d (length (fp_wal p)) p = (q, r)"
  shows "\<exists>n io. q = p\<lparr>fp_wal := fp_wal p @ take n d, fp_io := io\<rparr>
    \<and> (r = Inr () \<longrightarrow> take n d = d) \<and> (healthy p \<longrightarrow> r = Inr () \<and> io = [])"
proof (cases "fp_io p")
  case Nil
  then have "q = p\<lparr>fp_wal := fp_wal p @ take (length d) d, fp_io := fp_io p\<rparr>" "r = Inr ()"
    using assms by (auto simp: wal_WriteAt_def next_io_def append_write_file)
  then show ?thesis using Nil by (intro exI conjI) auto
next
  case (Cons out io)
  define n where "n = (case out of IoOk \<Rightarrow> length d | IoFail n \<Rightarrow> n | IoShort n \<Rightarrow> n)"
  have "q = p\<lparr>fp_wal := fp_wal p @ take n d, fp_io := io\<rparr> \<and> (r = Inr () \<longrightarrow> take n d = d)"
    using assms Cons
    by (auto simp: n_def wal_WriteAt_def next_io_def append_write_file
        split: io_outcome.splits if_splits)
  then show ?thesis using Cons by (auto simp: healthy_def)
qed

text \<open>After the marker is on disk: the state in which the commit starts to write pages.\<close>

definition committed_log :: "filePager \<Rightarrow> filePager \<Rightarrow> bool" where
  "committed_log p q \<longleftrightarrow> (\<exists>io. q = p\<lparr>fp_wal := fp_wal p @ wal_rec (fp_currentTxn p) walEOTPageID [],
      fp_walSize := fp_walSize p + 24, fp_inTxn := False, fp_txnBuffer := [], fp_currentTxn := 0,
      fp_io := io\<rparr> \<and> (healthy p \<longrightarrow> io = []))"

definition write_then_replay :: "(u64 \<times> bytes) list \<Rightarrow> filePager \<Rightarrow> filePager \<times> (pager_err + unit)" where
  "write_then_replay l p =
     (case write_pages l p of
        (p, Inl e) \<Rightarrow> (p, Inl e)
      | (p, Inr _) \<Rightarrow>
        (case file_op p of (p, Inl e) \<Rightarrow> (p, Inl e) | (p, Inr _) \<Rightarrow> replayWALInternal p))"

lemma main_WriteAt_threshold: "main_WriteAt d off p = (q, r) \<Longrightarrow> fp_threshold q = fp_threshold p"
  by (auto simp: main_WriteAt_def next_io_def split: list.splits io_outcome.splits if_splits)

lemma file_op_threshold: "file_op p = (q, r) \<Longrightarrow> fp_threshold q = fp_threshold p"
  by (auto simp: file_op_def next_io_def split: list.splits io_outcome.splits)

lemma write_pages_threshold: "write_pages l p = (q, r) \<Longrightarrow> fp_threshold q = fp_threshold p"
  by (induction l arbitrary: p)
    (auto split: sum.splits prod.splits dest: main_WriteAt_threshold)

lemma write_then_replay_commit:
  assumes "fp_threshold p \<le> 0"
  shows "(case write_pages l p of (p, Inl e) \<Rightarrow> (p, Inl e) | (p, Inr _) \<Rightarrow>
      case file_op p of (p, Inl e) \<Rightarrow> (p, Inl e) | (p, Inr _) \<Rightarrow>
      if fp_threshold p = 0 \<or> int (fp_walSize p) \<ge> fp_threshold p
      then replayWALInternal p else (p, Inr ())) = write_then_replay l p"
proof -
  obtain p1 r1 where w: "write_pages l p = (p1, r1)" by fastforce
  obtain p2 r2 where f: "file_op p1 = (p2, r2)" by fastforce
  have "fp_threshold p2 \<le> 0"
    using assms write_pages_threshold [OF w] file_op_threshold [OF f] by simp
  then have "int (fp_walSize p2) \<ge> fp_threshold p2" by simp
  then show ?thesis using w f by (simp add: write_then_replay_def split: sum.splits)
qed

lemma CommitTx_cases:
  assumes "pager_inv p" "fp_inTxn p"
  shows "(\<exists>q e. CommitTx None p = (q, Inl e) \<and> \<not> healthy p \<and> fp_main q = fp_main p
      \<and> (\<exists>n. fp_wal q = fp_wal p @ take n (wal_rec (fp_currentTxn p) walEOTPageID [])))
    \<or> (\<exists>p1. committed_log p p1 \<and>
        CommitTx None p = write_then_replay (fp_order p (fp_txnBuffer p)) p1)"
proof -
  let ?m = "wal_rec (fp_currentTxn p) walEOTPageID []"
  have st: "checkState p = None" and sz: "fp_walSize p = length (fp_wal p)" and th: "fp_threshold p \<le> 0"
    using assms(1) by (auto simp: pager_inv_def checkState_open wal_part_def settings_ok_def)
  obtain pw rw where w: "wal_WriteAt ?m (length (fp_wal p)) p = (pw, rw)" by fastforce
  then obtain n io where n: "pw = p\<lparr>fp_wal := fp_wal p @ take n ?m, fp_io := io\<rparr>"
    "rw = Inr () \<longrightarrow> take n ?m = ?m" "healthy p \<longrightarrow> rw = Inr () \<and> io = []"
    using wal_append_cases by blast
  obtain ps rs where f: "file_op pw = (ps, rs)" by fastforce
  note fs = file_op_step [OF f]
  have hw: "healthy p \<Longrightarrow> healthy pw" using n by (simp add: healthy_def)
  consider e where "rw = Inl e" | e where "rw = Inr ()" "rs = Inl e" | "rw = Inr ()" "rs = Inr ()"
    by (cases rw; cases rs) auto
  then show ?thesis
  proof cases
    case 1
    then have "CommitTx None p = (pw, Inl e)"
      using st sz assms(2) w by (simp add: CommitTx_def encodeEOTMarker_eq)
    then show ?thesis using n 1 by auto
  next
    case 2
    then have "CommitTx None p = (ps, Inl e)"
      using st sz assms(2) w f by (simp add: CommitTx_def encodeEOTMarker_eq)
    moreover have "fp_wal ps = fp_wal p @ take n ?m" "fp_main ps = fp_main p" "\<not> healthy p"
      using n(1) 2 fs disk_step_fields(1) [of pw ps] hw by auto
    ultimately show ?thesis by blast
  next
    case 3
    obtain m io' where ps: "ps = pw\<lparr>fp_main := m, fp_io := io'\<rparr>" "fp_main ps = fp_main pw"
      using fs unfolding disk_step_def by blast
    then have "ps = p\<lparr>fp_wal := fp_wal p @ ?m, fp_io := io'\<rparr>" using n 3 by simp
    moreover have "healthy p \<longrightarrow> io' = []"
      using fs hw ps(1) disk_step_fields(14) [of pw ps] by (auto simp: healthy_def)
    ultimately have c: "committed_log p (ps\<lparr>fp_walSize := fp_walSize p + 24, fp_inTxn := False,
        fp_txnBuffer := [], fp_currentTxn := 0\<rparr>)" (is "committed_log p ?p1")
      unfolding committed_log_def by (intro exI [of _ io']) simp
    have "CommitTx None p = write_then_replay (fp_order p (fp_txnBuffer p)) ?p1"
      using st sz assms(2) w f 3 th ps n
      by (simp add: CommitTx_def encodeEOTMarker_eq Let_def write_then_replay_commit)
    then show ?thesis using c by blast
  qed
qed

lemma replay_after_commit:
  assumes "wal_part p old cur" "fp_inTxn p" "committed_log p p1" "disk_step p1 p3"
  shows "replayWALInternal p3 = apply_and_truncate (fp_order p (fp_txnBuffer p)) p3"
proof -
  note f = disk_step_fields [OF assms(4)]
  have p1: "fp_wal p1 = fp_wal p @ wal_rec (fp_currentTxn p) walEOTPageID []"
    "fp_walSize p1 = fp_walSize p + 24" "fp_order p1 = fp_order p"
    using assms(3) by (auto simp: committed_log_def)
  have "fp_wal p3 = wal_of (old @ cur @ [(fp_currentTxn p, walEOTPageID, [])])"
    "fp_walSize p3 = length (fp_wal p3)" "recs_ok (old @ cur)" "no_eot (old @ cur)"
    "fp_currentTxn p \<notin> fst ` set old" "\<forall>r \<in> set cur. fst r = fp_currentTxn p"
    using assms(1,2) p1 f(1,2) by (auto simp: wal_part_def)
  from replay_committed [OF this] show ?thesis
    using assms(1,2) p1 f(10) by (simp add: wal_part_def apply_and_truncate_def)
qed

lemma write_then_replay_cases:
  assumes "pager_inv p" "fp_inTxn p" "committed_log p p1"
    and run: "write_then_replay (fp_order p (fp_txnBuffer p)) p1 = (q, r)"
  shows "(r \<noteq> Inr () \<and> commit_logged p q \<or> r = Inr () \<and> commit_done p q)
    \<and> (healthy p \<longrightarrow> r = Inr () \<and> (\<exists>p2. disk_step p1 p2 \<and> q = p2\<lparr>fp_wal := [], fp_walSize := 0\<rparr>))"
proof -
  let ?l = "fp_order p (fp_txnBuffer p)"
  obtain fl old cur where d: "disk_part p fl" and wp: "wal_part p old cur"
    using assms(1) by (auto simp: pager_inv_def)
  have lb: "live_batch p (fp_txnBuffer p)" and so: "settings_ok p"
    using assms(1) by (auto simp: pager_inv_def buffer_ok_def live_batch_def)
  have sl: "set ?l = set (fp_txnBuffer p)" using live_batch_order(2) [OF so lb] .
  have m1: "fp_main p1 = fp_main p" "healthy p \<Longrightarrow> healthy p1"
    and w1: "fp_wal p1 = fp_wal p @ wal_rec (fp_currentTxn p) walEOTPageID []"
    using assms(3) by (auto simp: committed_log_def healthy_def)
  have ok: "pages_ok (fp_main p1) ?l"
    unfolding m1 using live_batch_pages_ok [OF d live_batch_order(1) [OF so lb]] .
  obtain p2 r2 where w: "write_pages ?l p1 = (p2, r2)" by fastforce
  obtain p3 r3 where f: "file_op p2 = (p3, r3)" by fastforce
  note ws = write_pages_step [OF w ok] and fs = file_op_step [OF f]
  have d2: "disk_step p1 p2" and d3: "disk_step p1 p3" using ws fs disk_step_trans by blast+
  consider e where "r2 = Inl e" | e where "r2 = Inr ()" "r3 = Inl e" | "r2 = Inr ()" "r3 = Inr ()"
    by (cases r2; cases r3) auto
  then show ?thesis
  proof cases
    case 1
    then have "q = p2" "r = Inl e" using run w by (simp_all add: write_then_replay_def)
    then show ?thesis
      using ws 1 m1 sl w1 disk_step_fields(1) [OF d2] by (auto simp: commit_logged_def)
  next
    case 2
    then have "q = p3" "r = Inl e" using run w f by (simp_all add: write_then_replay_def)
    then show ?thesis
      using ws fs 2 m1 sl w1 disk_step_fields(1) [OF d3] disk_step_fields(14) [OF d2]
      by (auto simp: commit_logged_def)
  next
    case 3
    then have "apply_and_truncate ?l p3 = (q, r)"
      using run w f replay_after_commit [OF wp assms(2,3) d3] by (simp add: write_then_replay_def)
    moreover have s3: "same_pages (page_nums ?l) (fp_main p1) (fp_main p3)" using ws fs by simp
    ultimately have a: "same_pages (page_nums ?l) (fp_main p3) (fp_main q)
        \<and> (r \<noteq> Inr () \<and> fp_wal q = fp_wal p3
           \<or> r = Inr () \<and> fp_wal q = [] \<and> (\<forall>(i, b) \<in> set ?l. readBodyUnchecked (fp_main q) i = Inr b))
        \<and> (healthy p3 \<longrightarrow> r = Inr () \<and> (\<exists>p2. disk_step p3 p2 \<and> q = p2\<lparr>fp_wal := [], fp_walSize := 0\<rparr>))"
      using pages_ok_same [OF ok] apply_and_truncate_cases by blast
    have "same_pages (page_nums ?l) (fp_main p1) (fp_main q)"
      using same_pages_trans [OF s3] a by fastforce
    then show ?thesis
      using a sl w1 m1 disk_step_fields(1,14) [OF d3] disk_step_trans [OF d3]
      by (auto simp: commit_logged_def commit_done_def)
  qed
qed

lemma CommitTx_outcome:
  assumes "pager_inv p" "fp_inTxn p" "CommitTx None p = (q, r)"
  shows "r \<noteq> Inr () \<and> (commit_torn p q \<or> commit_logged p q) \<or> r = Inr () \<and> commit_done p q"
  using CommitTx_cases [OF assms(1,2)]
proof (elim disjE exE conjE)
  fix q' e n
  let ?m = "wal_rec (fp_currentTxn p) walEOTPageID []"
  assume c: "CommitTx None p = (q', Inl e)" "fp_main q' = fp_main p" "fp_wal q' = fp_wal p @ take n ?m"
  then show ?thesis
  proof (cases "n < 24")
    case True
    then have "commit_torn p q" using c assms(3) unfolding commit_torn_def by auto
    then show ?thesis using c(1) assms(3) by simp
  next
    case False
    then have "take n ?m = ?m" by simp
    then show ?thesis using c assms(3) by (simp add: commit_logged_def)
  qed
next
  fix p1 assume "committed_log p p1"
    "CommitTx None p = write_then_replay (fp_order p (fp_txnBuffer p)) p1"
  then show ?thesis using write_then_replay_cases [OF assms(1,2)] assms(3) by metis
qed

lemma CommitTx_inv:
  assumes "pager_inv p" "fp_inTxn p" "healthy p"
  shows "\<exists>q. CommitTx None p = (q, Inr ()) \<and> pager_inv q
    \<and> disk_step (p\<lparr>fp_inTxn := False, fp_txnBuffer := [], fp_currentTxn := 0,
         fp_wal := [], fp_walSize := 0\<rparr>) q
    \<and> (\<forall>j. committed q j = ReadPage None j p)"
proof -
  let ?p = "p\<lparr>fp_inTxn := False, fp_txnBuffer := [], fp_currentTxn := 0, fp_wal := [], fp_walSize := 0\<rparr>"
  obtain p1 where c: "committed_log p p1"
    and run: "CommitTx None p = write_then_replay (fp_order p (fp_txnBuffer p)) p1"
    using CommitTx_cases [OF assms(1,2)] assms(3) by blast
  obtain q r where w: "write_then_replay (fp_order p (fp_txnBuffer p)) p1 = (q, r)" by fastforce
  note o = write_then_replay_cases [OF assms(1,2) c w]
  obtain p2 where p2: "disk_step p1 p2" "q = p2\<lparr>fp_wal := [], fp_walSize := 0\<rparr>"
    and r: "r = Inr ()" and dn: "commit_done p q" using o assms(3) by auto
  obtain io where p1: "p1 = p\<lparr>fp_wal := fp_wal p @ wal_rec (fp_currentTxn p) walEOTPageID [],
      fp_walSize := fp_walSize p + 24, fp_inTxn := False, fp_txnBuffer := [], fp_currentTxn := 0,
      fp_io := io\<rparr>" "io = []"
    using c assms(3) unfolding committed_log_def by blast
  obtain m io' where "p2 = p1\<lparr>fp_main := m, fp_io := io'\<rparr>" "healthy p2"
    using p2(1) p1 unfolding disk_step_def healthy_def by auto
  then have "q = ?p\<lparr>fp_main := m, fp_io := io'\<rparr>" "healthy q" using p2(2) p1 by (simp_all add: healthy_def)
  then have st: "disk_step ?p q" unfolding disk_step_def by blast
  obtain fl where d: "disk_part p fl" using assms(1) by (auto simp: pager_inv_def)
  have lv: "live ?p = live p" by (simp add: live_def)
  have d': "disk_part ?p fl" using d by (simp add: disk_part_def)
  have "wal_part ?p [] []" by (simp add: wal_part_def)
  then have inv: "pager_inv ?p"
    using assms(1) by (intro pager_invI [OF _ d']) (simp_all add: pager_inv_def settings_ok_def buffer_ok_def)
  have lb: "live_batch ?p (fp_txnBuffer p)"
    using assms(1) lv by (simp add: pager_inv_def buffer_ok_def live_batch_def)
  have sp: "same_pages (page_nums (fp_txnBuffer p)) (fp_main ?p) (fp_main q)"
    and rd: "\<forall>(i, b) \<in> set (fp_txnBuffer p). readBodyUnchecked (fp_main q) i = Inr b"
    using dn by (simp_all add: commit_done_def)
  have "committed q j = ReadPage None j p" for j
  proof -
    have "committed ?p j = committed p j" by (simp add: committed_def lv)
    then show ?thesis
      unfolding batch_committed [OF d' lb st sp rd, of j] ReadPage_eq [OF assms(1)] by (rule arg_cong)
  qed
  then show ?thesis
    using run w r st batch_inv [OF inv lb st _ sp rd] by auto
qed

section \<open>Crash recovery\<close>

text \<open>The pager that \<open>Open\<close> builds on the main file of \<open>p\<close> and an empty log.\<close>

definition reopened :: "int \<Rightarrow> ((u64 \<times> bytes) list \<Rightarrow> (u64 \<times> bytes) list) \<Rightarrow> filePager \<Rightarrow> filePager" where
  "reopened thr ord p = newPager thr (fp_main p) [] [] ord
     \<lparr>fp_state := stateOpen, fp_pageCount := fp_pageCount p, fp_freeListHead := fp_freeListHead p,
      fp_freeCount := fp_freeCount p, fp_freeSet := fp_freeSet p\<rparr>"

lemma reopened_simps [simp]:
  "fp_main (reopened thr ord p) = fp_main p" "fp_wal (reopened thr ord p) = []"
  "fp_inTxn (reopened thr ord p) = False" "fp_txnBuffer (reopened thr ord p) = []"
  "live (reopened thr ord p) = live p" "healthy (reopened thr ord p)"
  "disk_part (reopened thr ord p) fl = disk_part p fl"
  "committed (reopened thr ord p) i = committed p i"
  "live_batch (reopened thr ord p) l = live_batch p l"
  "fp_pageCount (reopened thr ord p) = fp_pageCount p" "fp_freeSet (reopened thr ord p) = fp_freeSet p"
  by (simp_all add: reopened_def newPager_def live_def healthy_def disk_part_def committed_def live_batch_def)

lemma reopened_inv:
  assumes "pager_inv p" "thr \<le> 0" "\<forall>xs. mset (ord xs) = mset xs"
  shows "pager_inv (reopened thr ord p)"
proof -
  obtain fl where "disk_part p fl" using assms(1) by (auto simp: pager_inv_def)
  then have "disk_part (reopened thr ord p) fl" by simp
  moreover have "wal_part (reopened thr ord p) [] []"
    by (simp add: wal_part_def reopened_def newPager_def)
  ultimately show ?thesis
    using assms unfolding pager_inv_def
    by (auto simp: settings_ok_def buffer_ok_def reopened_def newPager_def)
qed

lemma reopen_uncommitted:
  assumes "disk_part p fl" "parse_wal w = Inr recs" "no_eot recs"
  shows "pager_Open None (newPager thr (fp_main p) w [] ord) = (reopened thr ord p, Inr ())"
proof -
  let ?q = "reopened thr ord p\<lparr>fp_wal := w, fp_walSize := length w\<rparr>"
  have s: "set fl = fp_freeSet p" using assms(1) by (simp add: disk_part_def)
  have "pager_Open None (newPager thr (fp_main p) w [] ord) = replayWALInternal ?q"
    using assms(1) unfolding disk_part_def
    by (subst pager_Open_files [where fl = fl]) (auto simp: reopened_def newPager_def)
  also have "\<dots> = (if fp_wal ?q = [] then (?q, Inr ()) else truncate_wal ?q)"
    by (rule replay_uncommitted [OF _ _ assms(3)]) (simp_all add: assms(2))
  also have "\<dots> = (reopened thr ord p, Inr ())"
    by (simp add: truncate_wal_def wal_Truncate_healthy) (simp add: reopened_def newPager_def)
  finally show ?thesis .
qed

lemma reopen_committed:
  assumes "pager_inv p" "disk_part p fl" "live_batch p (group_applied cur)"
    and "same_pages (page_nums (group_applied cur)) (fp_main p) m"
    and "recs_ok (old @ cur)" "no_eot (old @ cur)" "c \<notin> fst ` set old" "\<forall>r \<in> set cur. fst r = c"
    and "thr \<le> 0" "\<forall>xs. mset (ord xs) = mset xs"
  shows "\<exists>s. pager_Open None (newPager thr m (wal_of (old @ cur @ [(c, walEOTPageID, [])])) [] ord)
      = (s, Inr ()) \<and> pager_inv s \<and> fp_wal s = [] \<and> disk_step (reopened thr ord p) s
    \<and> (\<forall>i. committed s i = (case map_of (group_applied cur) i of Some b \<Rightarrow> Inr b | None \<Rightarrow> committed p i))"
proof -
  let ?l = "group_applied cur" and ?w = "wal_of (old @ cur @ [(c, walEOTPageID, [])])"
  let ?base = "reopened thr ord p"
  let ?q = "?base\<lparr>fp_main := m, fp_wal := ?w, fp_walSize := length ?w\<rparr>"
  have s: "set fl = fp_freeSet p" using assms(2) by (simp add: disk_part_def)
  have st: "disk_step p (p\<lparr>fp_main := m\<rparr>)"
    unfolding disk_step_def by (intro conjI exI [of _ m] exI [of _ "fp_io p"]) simp_all
  have dm: "disk_part (p\<lparr>fp_main := m\<rparr>) fl"
    using assms(4) by (intro batch_disk_part [OF assms(2,3) st]) simp
  have so: "settings_ok ?base" using reopened_inv [OF assms(1,9,10)] by (simp add: pager_inv_def)
  have lb: "live_batch ?base ?l" using assms(3) by simp
  have o: "fp_order ?base = ord" "fp_order ?q = ord" by (simp_all add: reopened_def newPager_def)
  note ol = live_batch_order [OF so lb, unfolded o]
  have ok: "pages_ok (fp_main ?q) (ord ?l)"
    using pages_ok_same [OF live_batch_pages_ok [OF assms(2)] assms(4)] ol(1) by simp
  have "pager_Open None (newPager thr m ?w [] ord) = replayWALInternal ?q"
    using dm s unfolding disk_part_def
    by (subst pager_Open_files [where fl = fl]) (auto simp: reopened_def newPager_def)
  also have "\<dots> = apply_and_truncate (ord ?l) ?q"
    using assms(5-8) o(2) unfolding apply_and_truncate_def
    by (subst replay_committed [where old = old and cur = cur and c = c]) simp_all
  finally have op: "pager_Open None (newPager thr m ?w [] ord) = apply_and_truncate (ord ?l) ?q" .
  obtain t r where t: "apply_and_truncate (ord ?l) ?q = (t, r)" by fastforce
  have hq: "healthy ?q" using reopened_simps(6) [of thr ord p] by (simp del: reopened_simps)
  obtain p2 where p2: "disk_step ?q p2" "t = p2\<lparr>fp_wal := [], fp_walSize := 0\<rparr>" and r: "r = Inr ()"
    and sp: "same_pages (page_nums (ord ?l)) m (fp_main t)"
    and rd: "\<forall>(i, b) \<in> set (ord ?l). readBodyUnchecked (fp_main t) i = Inr b"
    using apply_and_truncate_cases [OF t ok] hq by auto
  obtain x y where "p2 = ?q\<lparr>fp_main := x, fp_io := y\<rparr>" using p2(1) unfolding disk_step_def by blast
  then have "t = ?base\<lparr>fp_main := x, fp_io := y\<rparr>" using p2(2) by (simp add: reopened_def newPager_def)
  moreover have "healthy t" using disk_step_fields(14) [OF p2(1) hq] p2(2) by simp
  ultimately have dt: "disk_step ?base t" unfolding disk_step_def by blast
  have sp': "same_pages (page_nums ?l) (fp_main ?base) (fp_main t)"
    using same_pages_trans [OF assms(4)] sp ol(2) by fastforce
  have rd': "\<forall>(i, b) \<in> set ?l. readBodyUnchecked (fp_main t) i = Inr b" using rd ol(2) by simp
  have d0: "disk_part ?base fl" using assms(2) by simp
  have "pager_inv t"
    by (rule batch_inv [OF reopened_inv [OF assms(1,9,10)] lb dt _ sp' rd']) simp
  then show ?thesis
    using op t r dt batch_committed [OF d0 lb dt sp' rd', unfolded reopened_simps(8)] p2(2) by simp
qed

lemma ReadPage_committed: "pager_inv p \<Longrightarrow> \<not> fp_inTxn p \<Longrightarrow> ReadPage None i p = committed p i"
  by (auto simp: ReadPage_eq pager_inv_def wal_part_def)

lemma ReadPage_rolled_back:
  assumes "pager_inv p" "fp_inTxn p"
  shows "ReadPage None i (fst (RollbackTx None p)) = committed p i"
proof -
  let ?q = "p\<lparr>fp_inTxn := False, fp_txnBuffer := [], fp_currentTxn := 0\<rparr>"
  have "RollbackTx None p = (?q, Inr ())" "pager_inv ?q" using RollbackTx_inv [OF assms] by blast+
  moreover have "committed ?q i = committed p i" by (simp add: committed_def live_def)
  ultimately show ?thesis using ReadPage_committed [of ?q] by simp
qed

lemma commit_recovery:
  assumes "pager_inv p" "fp_inTxn p" "CommitTx None p = (q, r)"
    and "thr \<le> 0" "\<forall>xs. mset (ord xs) = mset xs"
  shows "\<exists>s. pager_Open None (newPager thr (fp_main q) (fp_wal q) [] ord) = (s, Inr ())
    \<and> pager_inv s \<and> \<not> fp_inTxn s
    \<and> ((\<forall>i. committed s i = ReadPage None i p) \<or> r \<noteq> Inr () \<and> (\<forall>i. committed s i = committed p i))"
proof -
  obtain fl old cur where d: "disk_part p fl" and w: "wal_part p old cur"
    using assms(1) by (auto simp: pager_inv_def)
  have cur: "recs_ok (old @ cur)" "no_eot (old @ cur)" "fp_currentTxn p \<notin> fst ` set old"
    "\<forall>r \<in> set cur. fst r = fp_currentTxn p" and buf: "fp_txnBuffer p = group_applied cur"
    and wal: "fp_wal p = wal_of (old @ cur)"
    using w assms(2) by (auto simp: wal_part_def)
  have lb: "live_batch p (group_applied cur)"
    using assms(1) buf by (simp add: pager_inv_def buffer_ok_def live_batch_def)
  note inv0 = reopened_inv [OF assms(1,4,5)]
  consider "r \<noteq> Inr ()" "commit_torn p q" | "commit_logged p q" | "commit_done p q"
    using CommitTx_outcome [OF assms(1-3)] by blast
  then show ?thesis
  proof cases
    case 1
    then obtain n where n: "n < 24" "fp_main q = fp_main p"
      "fp_wal q = wal_of (old @ cur) @ take n (wal_rec (fp_currentTxn p) walEOTPageID [])"
      unfolding commit_torn_def wal by blast
    then have "parse_wal (fp_wal q) = Inr (old @ cur)"
      using parse_wal_recs [OF cur(1), of walEOTPageID "[]" n] by (simp add: wal_shape_def)
    from reopen_uncommitted [OF d this cur(2), of thr ord]
    show ?thesis using n(2) inv0 1(1) by (intro exI [of _ "reopened thr ord p"]) simp
  next
    case 2
    then have m: "same_pages (page_nums (group_applied cur)) (fp_main p) (fp_main q)"
      and wq: "fp_wal q = wal_of (old @ cur @ [(fp_currentTxn p, walEOTPageID, [])])"
      by (simp_all add: commit_logged_def buf wal)
    from reopen_committed [OF assms(1) d lb m cur assms(4,5)] show ?thesis
      unfolding wq using disk_step_fields(8) by (fastforce simp: ReadPage_eq [OF assms(1)] buf)
  next
    case 3
    let ?p = "p\<lparr>fp_main := fp_main q\<rparr>"
    have st: "disk_step p ?p"
      unfolding disk_step_def by (intro conjI exI [of _ "fp_main q"] exI [of _ "fp_io p"]) simp_all
    have m: "same_pages (page_nums (fp_txnBuffer p)) (fp_main p) (fp_main ?p)"
      and rd: "\<forall>(i, b) \<in> set (fp_txnBuffer p). readBodyUnchecked (fp_main ?p) i = Inr b"
      and wq: "fp_wal q = []"
      using 3 by (simp_all add: commit_done_def)
    have lb': "live_batch p (fp_txnBuffer p)" using lb buf by simp
    have dp: "disk_part ?p fl" by (rule batch_disk_part [OF d lb' st m])
    have st': "disk_step (reopened thr ord p) (reopened thr ord ?p)"
      unfolding disk_step_def
      by (intro conjI exI [of _ "fp_main q"] exI [of _ "[]"]) (simp_all add: reopened_def newPager_def healthy_def)
    have "pager_inv (reopened thr ord ?p)"
      using m rd lb' by (intro batch_inv [OF inv0 _ st']) simp_all
    moreover have "committed (reopened thr ord ?p) i = ReadPage None i p" for i
      using batch_committed [OF d lb' st m rd] by (simp add: ReadPage_eq [OF assms(1)])
    moreover have "pager_Open None (newPager thr (fp_main q) [] [] ord) = (reopened thr ord ?p, Inr ())"
      using reopen_uncommitted [OF dp, of "[]" "[]"] by (simp add: parse_wal.simps)
    ultimately show ?thesis unfolding wq by (intro exI [of _ "reopened thr ord ?p"]) simp
  qed
qed

section \<open>Allocating and freeing pages\<close>

text \<open>How many more pages can be allocated: fresh page numbers plus the free list.\<close>

definition room :: "filePager \<Rightarrow> nat" where
  "room p = 2251799813685247 - unat (fp_pageCount p) + card (fp_freeSet p)"

text \<open>Rewriting one page and the headers: the common shape of \<open>AllocatePage\<close> and \<open>FreePage\<close>.\<close>

definition rewritten :: "filePager \<Rightarrow> u64 \<Rightarrow> bytes \<Rightarrow> u64 \<Rightarrow> u64 \<Rightarrow> u64 \<Rightarrow> u64 list \<Rightarrow> filePager" where
  "rewritten p x b pc fh fc fl =
     p\<lparr>fp_main := put_headers (write_file (fp_main p) (unat x * 4096) (page_img b)) (header_of pc fh fc),
       fp_pageCount := pc, fp_freeListHead := fh, fp_freeCount := fc, fp_freeSet := set fl\<rparr>"

lemma rewritten_inv:
  assumes "pager_inv p" "\<not> fp_inTxn p"
    and "chain_part (write_file (fp_main p) (unat x * 4096) (page_img b)) pc fh fc fl"
    and "readable (write_file (fp_main p) (unat x * 4096) (page_img b)) pc"
  shows "pager_inv (rewritten p x b pc fh fc fl)"
proof -
  obtain old cur where w: "wal_part p old cur" using assms(1) by (auto simp: pager_inv_def)
  have "fp_txnBuffer p = []" using w assms(2) by (simp add: wal_part_def)
  then have "buffer_ok (rewritten p x b pc fh fc fl)" by (simp add: buffer_ok_def rewritten_def)
  moreover have "wal_part (rewritten p x b pc fh fc fl) old cur"
    using w assms(2) by (simp add: wal_part_def rewritten_def)
  moreover have "settings_ok (rewritten p x b pc fh fc fl)"
    using assms(1) by (simp add: pager_inv_def settings_ok_def rewritten_def)
  moreover have "disk_part (rewritten p x b pc fh fc fl) fl"
    using chain_part_put_headers [OF assms(3)] hdr_part_put_headers
    by (simp add: disk_part_def rewritten_def)
  ultimately show ?thesis
    using readable_put_headers [OF assms(4,3)]
    by (intro pager_invI) (simp_all add: rewritten_def)
qed

lemma rewritten_read:
  assumes "disk_part p fl" "small_id x" "length b = 4084"
    and "chain_part (write_file (fp_main p) (unat x * 4096) (page_img b)) pc fh fc fl'"
    and "2 \<le> j" "j < pc" "j = x \<or> j < fp_pageCount p"
  shows "readBodyUnchecked (fp_main (rewritten p x b pc fh fc fl')) j =
    (if j = x then Inr b else readBodyUnchecked (fp_main p) j)"
proof -
  have "readBodyUnchecked (fp_main (rewritten p x b pc fh fc fl')) j =
      readBodyUnchecked (write_file (fp_main p) (unat x * 4096) (page_img b)) j"
    using readBody_put_headers_frame [OF assms(4,5,6)] by (simp add: rewritten_def)
  also have "\<dots> = (if j = x then Inr b else readBodyUnchecked (fp_main p) j)"
  proof (cases "j = x")
    case True
    then show ?thesis using readBody_write_same [OF assms(2) encode_page_img [OF assms(3)]] by simp
  next
    case False
    then show ?thesis
      using assms readBody_write_frame [of "fp_main p"] by (auto simp: disk_part_def)
  qed
  finally show ?thesis .
qed

text \<open>The new state of the free list when a page is popped, appended or pushed.\<close>

lemma chain_pop:
  assumes "chain_part f pc fh fc (x # fl)"
  shows "fh = x \<and> (\<exists>b n. readBodyUnchecked f x = Inr b \<and> decodeFreeListPointer b = Inr n
    \<and> chain_part (write_file f (unat x * 4096) (page_img z)) pc n (fc - 1) fl)"
proof -
  obtain b n where bn: "fh = x" "readBodyUnchecked f x = Inr b" "decodeFreeListPointer b = Inr n"
    "free_chain f n fl" using assms by (auto simp: chain_part_def)
  have l: "Suc (length fl) = unat fc" using assms by (simp add: chain_part_def)
  then have "fc \<noteq> 0" by auto
  then have "unat (fc - 1) = length fl" using l by (simp add: unat_minus_one)
  then have "chain_part f pc n (fc - 1) fl"
    using assms bn(4) by (auto simp: chain_part_def)
  moreover have "small_id x" "x \<notin> set fl"
    using assms chain_part_ids(1) [OF assms] by (auto simp: chain_part_def)
  ultimately show ?thesis using bn chain_part_write by fastforce
qed

lemma chain_extend:
  assumes "chain_part f pc fh fc []" "small_id (pc + 1)" "unat (pc + 1) = Suc (unat pc)"
  shows "chain_part (write_file f (unat pc * 4096) (page_img z)) (pc + 1) fh fc []"
  using assms covers_write_Suc [of "page_img z" f "unat pc"]
  by (simp add: chain_part_def word_le_nat_alt)

lemma chain_push:
  assumes "chain_part f pc fh fc fl" "2 \<le> x" "x < pc" "x \<notin> set fl" "length fl + 1 < 2 ^ 64"
  shows "chain_part (write_file f (unat x * 4096) (page_img (encodeFreeListPointer fh))) pc x (fc + 1) (x # fl)"
proof -
  let ?g = "write_file f (unat x * 4096) (page_img (encodeFreeListPointer fh))"
  have x: "small_id x" using chain_part_ids(1) [OF assms(1,3)] .
  have c: "chain_part ?g pc fh fc fl" using chain_part_write [OF assms(1) x assms(4)] by simp
  have "readBodyUnchecked ?g x = Inr (encodeFreeListPointer fh)"
    by (rule readBody_write_same [OF x encode_page_img]) simp
  moreover have "unat (fc + 1) = Suc (length fl)"
    using assms(1,5) by (simp add: chain_part_def unat_word_ariths)
  ultimately show ?thesis
    using c assms(2-4) by (auto simp: chain_part_def decode_encodeFreeListPointer)
qed

lemma writeBody_img:
  "healthy p \<Longrightarrow> small_id x \<Longrightarrow> length b = 4084 \<Longrightarrow>
   writeBodyUnchecked x b p = (p\<lparr>fp_main := write_file (fp_main p) (unat x * 4096) (page_img b)\<rparr>, Inr ())"
  by (simp add: writeBody_healthy encode_page_img)

definition alloc_result :: "filePager \<Rightarrow> filePager \<Rightarrow> u64 \<Rightarrow> bool" where
  "alloc_result p q x \<longleftrightarrow> pager_inv q \<and> healthy q \<and> \<not> fp_inTxn q \<and> fp_wal q = fp_wal p
     \<and> x \<notin> live p \<and> live q = insert x (live p) \<and> room q = room p - 1
     \<and> (\<forall>j. committed q j = (if j = x then Inr (zero_bytes 4084) else committed p j))"

lemma AllocatePage_reuse:
  assumes "pager_inv p" "healthy p" "\<not> fp_inTxn p" "disk_part p (x # fl)"
  shows "\<exists>q. AllocatePage None p = (q, Inr x) \<and> alloc_result p q x \<and> fp_freeListHead p = x
    \<and> fp_pageCount q = fp_pageCount p"
proof -
  let ?z = "zero_bytes 4084 :: bytes"
  have ch: "chain_part (fp_main p) (fp_pageCount p) (fp_freeListHead p) (fp_freeCount p) (x # fl)"
    and fs: "fp_freeSet p = insert x (set fl)" using assms(4) by (auto simp: disk_part_def)
  have x: "2 \<le> x" "x < fp_pageCount p" "x \<notin> set fl" "Suc (length fl) = unat (fp_freeCount p)" "distinct fl"
    using ch by (auto simp: chain_part_def)
  have sx: "small_id x" using chain_part_ids(1) [OF ch x(2)] .
  obtain b n where bn: "fp_freeListHead p = x" "readBodyUnchecked (fp_main p) x = Inr b"
    "decodeFreeListPointer b = Inr n"
    and ch': "chain_part (write_file (fp_main p) (unat x * 4096) (page_img ?z)) (fp_pageCount p) n
      (fp_freeCount p - 1) fl"
    using chain_pop [OF ch, of ?z] by blast
  let ?q = "rewritten p x ?z (fp_pageCount p) n (fp_freeCount p - 1) fl"
  have fc: "0 < fp_freeCount p" using x(4) by (simp add: word_less_nat_alt)
  have "AllocatePage None p = (?q, Inr x)"
    using assms(1-3) bn small_not_sentinel [OF sx] sx fc fs x(3)
    by (simp add: AllocatePage_def checkState_open pager_inv_def writeBody_img Let_def
        writeHeader_healthy rewritten_def)
  moreover have "pager_inv ?q"
    using assms(1) readable_write [OF _ ch sx encode_page_img [of ?z]]
    by (intro rewritten_inv [OF assms(1,3) ch']) (simp add: pager_inv_def)
  moreover have lq: "live ?q = insert x (live p)" "x \<notin> live p"
    using x fs by (auto simp: live_def rewritten_def)
  moreover have "room ?q = room p - 1"
    using x fs by (simp add: room_def rewritten_def)
  moreover have "committed ?q j = (if j = x then Inr ?z else committed p j)" for j
  proof (cases "j \<in> live ?q")
    case True
    then have "j = x \<or> j \<in> live p" using lq(1) by simp
    then have "2 \<le> j" "j < fp_pageCount p" using x(1,2) by (auto simp: live_def)
    then show ?thesis
      using rewritten_read [OF assms(4) sx _ ch', of j] True lq by (auto simp: committed_def)
  qed (use lq in \<open>simp add: committed_def\<close>)
  ultimately show ?thesis
    using assms(2,3) bn(1) by (auto simp: alloc_result_def rewritten_def)
qed

lemma AllocatePage_fresh:
  assumes "pager_inv p" "healthy p" "\<not> fp_inTxn p" "disk_part p []" "0 < room p"
  shows "\<exists>q. AllocatePage None p = (q, Inr (fp_pageCount p)) \<and> alloc_result p q (fp_pageCount p)
    \<and> fp_pageCount q = fp_pageCount p + 1 \<and> fp_freeSet q = {}"
proof -
  let ?z = "zero_bytes 4084 :: bytes" and ?x = "fp_pageCount p"
  have ch: "chain_part (fp_main p) ?x (fp_freeListHead p) (fp_freeCount p) []"
    and fs: "fp_freeSet p = {}" using assms(4) by (auto simp: disk_part_def)
  have x: "2 \<le> ?x" and sx: "small_id ?x" and fh: "fp_freeListHead p = freeListSentinel"
    using ch by (auto simp: chain_part_def)
  have lt: "unat ?x + 1 < 2251799813685248" using assms(5) fs by (simp add: room_def)
  then have un: "unat (?x + 1) = Suc (unat ?x)" by (simp add: unat_word_ariths)
  then have sx': "small_id (?x + 1)" using lt by (simp add: small_id_def)
  note ch' = chain_extend [OF ch sx' un, of ?z]
  let ?q = "rewritten p ?x ?z (?x + 1) (fp_freeListHead p) (fp_freeCount p) []"
  have lt_iff: "j < ?x + 1 \<longleftrightarrow> j < ?x \<or> j = ?x" for j
    using un by (auto simp: word_less_nat_alt word_unat_eq_iff)
  have run: "AllocatePage None p = (?q, Inr ?x)"
    using assms(1-3) fh sx fs
    by (simp add: AllocatePage_def checkState_open pager_inv_def writeBody_img Let_def
        writeHeader_healthy rewritten_def)
  have rd: "readBodyUnchecked (fp_main ?q) j = (if j = ?x then Inr ?z else readBodyUnchecked (fp_main p) j)"
    if "2 \<le> j" "j < ?x + 1" for j
    using rewritten_read [OF assms(4) sx _ ch'] that lt_iff [of j] by auto
  have rd1: "\<exists>b. readBodyUnchecked (write_file (fp_main p) (unat ?x * 4096) (page_img ?z)) j = Inr b"
    if "2 \<le> j" "j < ?x + 1" for j
  proof -
    have "readBodyUnchecked (fp_main ?q) j =
        readBodyUnchecked (write_file (fp_main p) (unat ?x * 4096) (page_img ?z)) j"
      using readBody_put_headers_frame [OF ch' that] by (simp add: rewritten_def)
    moreover have "\<exists>b. readBodyUnchecked (fp_main ?q) j = Inr b"
      using rd [OF that] assms(1) lt_iff [of j] that by (cases "j = ?x") (auto simp: pager_inv_def readable_def)
    ultimately show ?thesis by metis
  qed
  have "pager_inv ?q" by (rule rewritten_inv [OF assms(1,3) ch']) (simp add: readable_def rd1)
  moreover have lq: "live ?q = insert ?x (live p)" "?x \<notin> live p"
    using x fs lt_iff by (auto simp: live_def rewritten_def)
  moreover have "room ?q = room p - 1" using fs un by (simp add: room_def rewritten_def)
  moreover have "committed ?q j = (if j = ?x then Inr ?z else committed p j)" for j
  proof (cases "j \<in> live ?q")
    case True
    then have "j = ?x \<or> j \<in> live p" using lq(1) by simp
    then have "2 \<le> j" "j < ?x + 1" using x lt_iff by (auto simp: live_def)
    then show ?thesis using rd [of j] True lq by (auto simp: committed_def)
  qed (use lq in \<open>simp add: committed_def\<close>)
  ultimately show ?thesis
    using run assms(2,3) by (auto simp: alloc_result_def rewritten_def)
qed

lemma AllocatePage_inv:
  assumes "pager_inv p" "healthy p" "\<not> fp_inTxn p" "0 < room p"
  shows "\<exists>q x. AllocatePage None p = (q, Inr x) \<and> alloc_result p q x"
proof -
  obtain fl where d: "disk_part p fl" using assms(1) by (auto simp: pager_inv_def)
  show ?thesis
  proof (cases fl)
    case Nil
    then show ?thesis using AllocatePage_fresh [OF assms(1-3) _ assms(4)] d by blast
  next
    case (Cons x xs)
    then show ?thesis using AllocatePage_reuse [OF assms(1-3)] d by blast
  qed
qed

definition free_result :: "filePager \<Rightarrow> filePager \<Rightarrow> u64 \<Rightarrow> bool" where
  "free_result p q x \<longleftrightarrow> pager_inv q \<and> healthy q \<and> \<not> fp_inTxn q \<and> fp_wal q = fp_wal p
     \<and> live q = live p - {x} \<and> room q = room p + 1 \<and> fp_freeListHead q = x
     \<and> fp_pageCount q = fp_pageCount p
     \<and> (\<forall>j. committed q j = (if j = x then Inl ErrInvalidPageID else committed p j))"

lemma free_list_short:
  assumes "chain_part f pc fh fc fl"
  shows "length fl + 1 < 2 ^ 64"
proof -
  have "card (set fl) \<le> card (unat -` {..< unat pc} :: u64 set)"
    using assms by (intro card_mono) (auto simp: chain_part_def word_less_nat_alt)
  also have "\<dots> \<le> card {..< unat pc}"
    by (rule card_inj_on_le [of unat]) (auto simp: inj_on_def word_unat_eq_iff)
  finally have "length fl \<le> unat pc" using assms by (simp add: chain_part_def distinct_card)
  then show ?thesis using assms by (simp add: chain_part_def small_id_def)
qed

lemma FreePage_inv:
  assumes "pager_inv p" "healthy p" "\<not> fp_inTxn p" "x \<in> live p"
  shows "\<exists>q. FreePage None x p = (q, Inr ()) \<and> free_result p q x"
proof -
  obtain fl where d: "disk_part p fl" using assms(1) by (auto simp: pager_inv_def)
  note l = live_ids [OF d assms(4)]
  let ?z = "encodeFreeListPointer (fp_freeListHead p)"
  have ch: "chain_part (fp_main p) (fp_pageCount p) (fp_freeListHead p) (fp_freeCount p) fl"
    and fs: "set fl = fp_freeSet p" using d by (auto simp: disk_part_def)
  note ch' = chain_push [OF ch l(4,6,3) free_list_short [OF ch]]
  let ?q = "rewritten p x ?z (fp_pageCount p) x (fp_freeCount p + 1) (x # fl)"
  have x0: "x \<noteq> 0" using l(4) by auto
  have "FreePage None x p = (?q, Inr ())"
    using assms(1-3) l fs x0
    by (simp add: FreePage_def checkState_open pager_inv_def writeBody_img Let_def
        writeHeader_healthy rewritten_def linorder_not_less [symmetric])
  moreover have "pager_inv ?q"
    using assms(1) readable_write [OF _ ch l(1) encode_page_img [of ?z]]
    by (intro rewritten_inv [OF assms(1,3) ch']) (simp add: pager_inv_def)
  moreover have lq: "live ?q = live p - {x}"
    using fs by (auto simp: live_def rewritten_def)
  moreover have "room ?q = room p + 1"
    using l(3) fs [symmetric] by (simp add: room_def rewritten_def)
  moreover have "committed ?q j = (if j = x then Inl ErrInvalidPageID else committed p j)" for j
  proof (cases "j \<in> live ?q")
    case True
    then have j: "j \<in> live p" "j \<noteq> x" using lq by simp_all
    then have "2 \<le> j" "j < fp_pageCount p" by (auto simp: live_def)
    then show ?thesis
      using rewritten_read [OF d l(1) _ ch', of j] j True by (auto simp: committed_def)
  qed (use lq in \<open>auto simp: committed_def\<close>)
  ultimately show ?thesis
    using assms(2,3) by (auto simp: free_result_def rewritten_def)
qed

section \<open>The interface of the page store\<close>

text \<open>
  What the tree layer relies on.  \<open>ready\<close>: open, outside a transaction, with an empty log;
  \<open>active\<close>: open, inside a transaction; \<open>own\<close>: the allocated pages; \<open>room\<close>: how many
  allocations can still succeed; \<open>rd\<close>: what a read returns.
\<close>

locale page_store =
  fixes ready :: "'s \<Rightarrow> bool"
    and active :: "'s \<Rightarrow> bool"
    and own :: "'s \<Rightarrow> u64 set"
    and space :: "'s \<Rightarrow> nat"
    and rd :: "'s \<Rightarrow> u64 \<Rightarrow> 'e + bytes"
    and wr :: "u64 \<Rightarrow> bytes \<Rightarrow> 's \<Rightarrow> 's \<times> ('e + unit)"
    and begin_tx :: "'s \<Rightarrow> 's \<times> ('e + unit)"
    and commit_tx :: "'s \<Rightarrow> 's \<times> ('e + unit)"
    and alloc :: "'s \<Rightarrow> 's \<times> ('e + u64)"
    and free :: "u64 \<Rightarrow> 's \<Rightarrow> 's \<times> ('e + unit)"
    and bad_page :: "'e"
  assumes own_ids: "ready s \<or> active s \<Longrightarrow> i \<in> own s \<Longrightarrow> i \<noteq> 0 \<and> i \<noteq> 1 \<and> i \<noteq> freeListSentinel"
    and rd_own: "ready s \<or> active s \<Longrightarrow> i \<in> own s \<Longrightarrow> \<exists>b. rd s i = Inr b \<and> length b = 4084"
    and rd_other: "ready s \<or> active s \<Longrightarrow> i \<notin> own s \<Longrightarrow> rd s i = Inl bad_page"
    and begin_law: "ready s \<Longrightarrow>
      \<exists>t. begin_tx s = (t, Inr ()) \<and> active t \<and> own t = own s \<and> space t = space s \<and> rd t = rd s"
    and write_law: "active s \<Longrightarrow> i \<in> own s \<Longrightarrow> length b = 4084 \<Longrightarrow>
      \<exists>t. wr i b s = (t, Inr ()) \<and> active t \<and> own t = own s \<and> space t = space s
        \<and> rd t = (rd s)(i := Inr b)"
    and direct_law: "ready s \<Longrightarrow> i \<in> own s \<Longrightarrow> length b = 4084 \<Longrightarrow>
      \<exists>t. wr i b s = (t, Inr ()) \<and> ready t \<and> own t = own s \<and> space t = space s
        \<and> rd t = (rd s)(i := Inr b)"
    and commit_law: "active s \<Longrightarrow>
      \<exists>t. commit_tx s = (t, Inr ()) \<and> ready t \<and> own t = own s \<and> space t = space s \<and> rd t = rd s"
    and alloc_law: "ready s \<Longrightarrow> 0 < space s \<Longrightarrow>
      \<exists>t i. alloc s = (t, Inr i) \<and> ready t \<and> i \<notin> own s \<and> own t = insert i (own s)
        \<and> space t = space s - 1 \<and> rd t = (rd s)(i := Inr (zero_bytes 4084))"
    and free_law: "ready s \<Longrightarrow> i \<in> own s \<Longrightarrow>
      \<exists>t. free i s = (t, Inr ()) \<and> ready t \<and> own t = own s - {i} \<and> space t = space s + 1
        \<and> rd t = (rd s)(i := Inl bad_page)"
begin

text \<open>\<open>s'\<close> is inside a transaction started in a state like \<open>s\<close> and reads as \<open>view\<close>.\<close>

definition in_tx :: "'s \<Rightarrow> (u64 \<Rightarrow> 'e + bytes) \<Rightarrow> 's \<Rightarrow> bool" where
  "in_tx s view s' \<longleftrightarrow> active s' \<and> own s' = own s \<and> space s' = space s \<and> rd s' = view"

definition at_rest :: "'s \<Rightarrow> (u64 \<Rightarrow> 'e + bytes) \<Rightarrow> 's \<Rightarrow> bool" where
  "at_rest s view s' \<longleftrightarrow> ready s' \<and> own s' = own s \<and> space s' = space s \<and> rd s' = view"

lemma tx_begin: "ready s \<Longrightarrow> \<exists>t. begin_tx s = (t, Inr ()) \<and> in_tx s (rd s) t"
  using begin_law by (fastforce simp: in_tx_def)

lemma tx_write:
  "in_tx s view t \<Longrightarrow> i \<in> own s \<Longrightarrow> length b = 4084 \<Longrightarrow>
   \<exists>u. wr i b t = (u, Inr ()) \<and> in_tx s (view(i := Inr b)) u"
  using write_law [of t i b] by (fastforce simp: in_tx_def)

lemma tx_commit: "in_tx s view t \<Longrightarrow> \<exists>u. commit_tx t = (u, Inr ()) \<and> at_rest s view u"
  using commit_law [of t] by (fastforce simp: in_tx_def at_rest_def)

text \<open>A transaction that writes one page.\<close>

lemma tx_one_page:
  assumes "ready s" "i \<in> own s" "length b = 4084"
  shows "\<exists>t u v. begin_tx s = (t, Inr ()) \<and> wr i b t = (u, Inr ()) \<and> commit_tx u = (v, Inr ())
    \<and> at_rest s ((rd s)(i := Inr b)) v"
  using tx_begin [OF assms(1)] tx_write [OF _ assms(2,3)] tx_commit by meson

end

definition pager_ready :: "filePager \<Rightarrow> bool" where
  "pager_ready p \<longleftrightarrow> pager_inv p \<and> healthy p \<and> \<not> fp_inTxn p \<and> fp_wal p = []"

definition pager_active :: "filePager \<Rightarrow> bool" where
  "pager_active p \<longleftrightarrow> pager_inv p \<and> healthy p \<and> fp_inTxn p"

abbreviation pager_reads :: "filePager \<Rightarrow> u64 \<Rightarrow> pager_err + bytes" where
  "pager_reads p i \<equiv> ReadPage None i p"

lemma live_not_reserved:
  assumes "pager_inv p" "i \<in> live p"
  shows "i \<noteq> 0 \<and> i \<noteq> 1 \<and> i \<noteq> freeListSentinel"
proof -
  obtain fl where "disk_part p fl" using assms(1) by (auto simp: pager_inv_def)
  then have "2 \<le> unat i" "small_id i" using live_ids assms(2) by blast+
  then show ?thesis using small_not_sentinel by auto
qed

lemma BeginTx_ready:
  assumes "pager_ready p"
  shows "\<exists>q. BeginTx None p = (q, Inr ()) \<and> pager_active q \<and> live q = live p \<and> room q = room p
    \<and> pager_reads q = pager_reads p"
proof -
  let ?q = "p\<lparr>fp_inTxn := True, fp_nextTxnID := fp_nextTxnID p + 1,
      fp_currentTxn := fp_nextTxnID p + 1, fp_txnBuffer := []\<rparr>"
  have b: "BeginTx None p = (?q, Inr ())" "pager_inv ?q"
    using BeginTx_inv [of p] assms by (auto simp: pager_ready_def)
  have "committed ?q i = committed p i" for i by (simp add: committed_def live_def)
  then have "ReadPage None i ?q = ReadPage None i p" for i
    using assms ReadPage_eq [OF b(2), of i] ReadPage_committed [of p i] by (simp add: pager_ready_def)
  then show ?thesis
    using b assms by (auto simp: pager_ready_def pager_active_def live_def room_def)
qed

lemma WritePage_active:
  assumes "pager_active p" "i \<in> live p" "length b = 4084"
  shows "\<exists>q. WritePage None i b p = (q, Inr ()) \<and> pager_active q \<and> live q = live p \<and> room q = room p
    \<and> pager_reads q = (pager_reads p)(i := Inr b)"
proof -
  let ?q = "p\<lparr>fp_wal := fp_wal p @ wal_rec (fp_currentTxn p) i b,
      fp_txnBuffer := AList.update i b (fp_txnBuffer p),
      fp_walSize := fp_walSize p + length (wal_rec (fp_currentTxn p) i b)\<rparr>"
  have w: "WritePage None i b p = (?q, Inr ())" "pager_inv ?q"
    using WritePage_logged [of p i b] assms unfolding pager_active_def by blast+
  have p: "pager_inv p" using assms by (simp add: pager_active_def)
  have c: "committed ?q = committed p" by (rule ext) (simp add: committed_def live_def)
  have "ReadPage None j ?q = (if j = i then Inr b else ReadPage None j p)" for j
    unfolding ReadPage_eq [OF w(2)] ReadPage_eq [OF p] c by (simp add: update_conv)
  then show ?thesis
    using w assms by (auto simp: pager_active_def live_def room_def fun_eq_iff)
qed

lemma WritePage_ready:
  assumes "pager_ready p" "i \<in> live p" "length b = 4084"
  shows "\<exists>q. WritePage None i b p = (q, Inr ()) \<and> pager_ready q \<and> live q = live p \<and> room q = room p
    \<and> pager_reads q = (pager_reads p)(i := Inr b)"
proof -
  have p: "pager_inv p" "healthy p" "\<not> fp_inTxn p" "fp_wal p = []"
    using assms(1) by (simp_all add: pager_ready_def)
  obtain q where q: "WritePage None i b p = (q, Inr ())" "pager_inv q" "disk_step p q"
    "\<forall>j. committed q j = (if j = i then Inr b else committed p j)"
    using WritePage_direct [OF p(1,2) assms(2,3) p(3)] by blast
  note f = disk_step_fields [OF q(3)]
  have "ReadPage None j q = (if j = i then Inr b else ReadPage None j p)" for j
    using q(4) ReadPage_committed [OF q(2)] ReadPage_committed [OF p(1,3)] f(8) p(3) by simp
  then show ?thesis
    using q p f disk_step_live [OF q(3)] by (auto simp: pager_ready_def room_def fun_eq_iff)
qed

lemma CommitTx_active:
  assumes "pager_active p"
  shows "\<exists>q. CommitTx None p = (q, Inr ()) \<and> pager_ready q \<and> live q = live p \<and> room q = room p
    \<and> pager_reads q = pager_reads p"
proof -
  have p: "pager_inv p" "fp_inTxn p" "healthy p" using assms by (simp_all add: pager_active_def)
  let ?p = "p\<lparr>fp_inTxn := False, fp_txnBuffer := [], fp_currentTxn := 0, fp_wal := [], fp_walSize := 0\<rparr>"
  obtain q where q: "CommitTx None p = (q, Inr ())" "pager_inv q" "disk_step ?p q"
    "\<forall>j. committed q j = ReadPage None j p"
    using CommitTx_inv [OF p] by blast
  note f = disk_step_fields [OF q(3)]
  have "ReadPage None j q = ReadPage None j p" for j
    using q(4) ReadPage_committed [OF q(2)] f(8) by simp
  then show ?thesis
    using q p f disk_step_live [OF q(3)] by (auto simp: pager_ready_def room_def live_def fun_eq_iff)
qed

lemma AllocatePage_ready:
  assumes "pager_ready p" "0 < room p"
  shows "\<exists>q i. AllocatePage None p = (q, Inr i) \<and> pager_ready q \<and> i \<notin> live p
    \<and> live q = insert i (live p) \<and> room q = room p - 1
    \<and> pager_reads q = (pager_reads p)(i := Inr (zero_bytes 4084))"
proof -
  have p: "pager_inv p" "healthy p" "\<not> fp_inTxn p" "fp_wal p = []"
    using assms(1) by (simp_all add: pager_ready_def)
  obtain q i where q: "AllocatePage None p = (q, Inr i)" "alloc_result p q i"
    using AllocatePage_inv [OF p(1-3) assms(2)] by blast
  have "ReadPage None j q = (if j = i then Inr (zero_bytes 4084) else ReadPage None j p)" for j
    using q(2) ReadPage_committed [of q] ReadPage_committed [OF p(1,3)] by (simp add: alloc_result_def)
  then show ?thesis
    using q p by (auto simp: alloc_result_def pager_ready_def fun_eq_iff)
qed

lemma FreePage_ready:
  assumes "pager_ready p" "i \<in> live p"
  shows "\<exists>q. FreePage None i p = (q, Inr ()) \<and> pager_ready q \<and> live q = live p - {i}
    \<and> room q = room p + 1 \<and> pager_reads q = (pager_reads p)(i := Inl ErrInvalidPageID)"
proof -
  have p: "pager_inv p" "healthy p" "\<not> fp_inTxn p" "fp_wal p = []"
    using assms(1) by (simp_all add: pager_ready_def)
  obtain q where q: "FreePage None i p = (q, Inr ())" "free_result p q i"
    using FreePage_inv [OF p(1-3) assms(2)] by blast
  have "ReadPage None j q = (if j = i then Inl ErrInvalidPageID else ReadPage None j p)" for j
    using q(2) ReadPage_committed [of q] ReadPage_committed [OF p(1,3)] by (simp add: free_result_def)
  then show ?thesis
    using q p by (auto simp: free_result_def pager_ready_def fun_eq_iff)
qed

interpretation fps: page_store pager_ready pager_active live room pager_reads "WritePage None"
  "BeginTx None" "CommitTx None" "AllocatePage None" "FreePage None" ErrInvalidPageID
proof (unfold_locales, goal_cases)
  case (1 s i)
  then show ?case using live_not_reserved by (auto simp: pager_ready_def pager_active_def)
next
  case (2 s i)
  then show ?case using ReadPage_ok by (auto simp: pager_ready_def pager_active_def)
next
  case (3 s i)
  then show ?case using ReadPage_dead by (auto simp: pager_ready_def pager_active_def)
qed (fact BeginTx_ready WritePage_active WritePage_ready CommitTx_active AllocatePage_ready
  FreePage_ready)+

end
