(* ===== verification/Pager_Props.thy ===== *)
theory Pager_Props
  imports Pager_Txn
begin

text \<open>
  The properties of the pager as its clients see them: the state machine of the methods keeps the
  invariant, transactions commit or roll back as a whole, an interrupted commit is all or nothing
  after reopening, allocation hands out unused zero-filled pages and the free list is a stack,
  closing and reopening loses nothing.
\<close>

section \<open>A freshly opened pager\<close>

definition freshPager :: "filePager" where
  "freshPager = fst (pager_Open None (newPager 0 [] [] [] id))"

lemma pager_Open_empty:
  "pager_Open None (newPager thr [] [] [] ord) =
     (newPager thr (put_headers [] (header_of 2 freeListSentinel 0)) [] [] ord
        \<lparr>fp_state := stateOpen, fp_pageCount := 2\<rparr>, Inr ())"
proof -
  let ?p = "newPager thr [] [] [] ord"
  have h: "healthy ?p" by (simp add: healthy_def newPager_def)
  show ?thesis
    using writeHeader_healthy [OF h, of 2 freeListSentinel] file_op_healthy [OF h]
    by (simp add: pager_Open_def) (simp add: newPager_def)
qed

lemma freshPager_inv: "pager_ready freshPager \<and> live freshPager = {} \<and> room freshPager = 2251799813685245"
proof -
  let ?m = "put_headers [] (header_of 2 freeListSentinel 0)"
  have fp: "freshPager = newPager 0 ?m [] [] id\<lparr>fp_state := stateOpen, fp_pageCount := 2\<rparr>"
    by (simp add: freshPager_def pager_Open_empty)
  have "covers ?m 2"
    unfolding put_headers_def numeral_2_eq_2 One_nat_def
    by (intro covers_write covers_write_Suc length_encodeHeader)
  then have "disk_part freshPager []"
    by (simp add: disk_part_def fp newPager_def chain_part_def hdr_part_put_headers)
  moreover have "readable ?m 2" unfolding readable_def by (auto simp: linorder_not_less [symmetric])
  moreover have "wal_part freshPager [] []" by (simp add: wal_part_def fp newPager_def)
  ultimately have "pager_inv freshPager"
    by (intro pager_invI) (simp_all add: fp newPager_def settings_ok_def buffer_ok_def)
  moreover have "live freshPager = {}" by (auto simp: live_def fp newPager_def)
  ultimately show ?thesis
    by (simp add: pager_ready_def fp newPager_def healthy_def room_def)
qed

text \<open>The same pager after one allocation, and inside a transaction.\<close>

definition onePage :: "filePager" where
  "onePage = fst (AllocatePage None freshPager)"

definition onePageTx :: "filePager" where
  "onePageTx = fst (BeginTx None onePage)"

lemma freshPager_count: "fp_pageCount freshPager = 2" "fp_freeSet freshPager = {}"
  unfolding freshPager_def pager_Open_empty by (simp_all add: newPager_def)

lemma onePage_inv: "pager_ready onePage \<and> live onePage = {2} \<and> 0 < room onePage"
proof -
  have f: "pager_ready freshPager" "live freshPager = {}" "room freshPager = 2251799813685245"
    using freshPager_inv by blast+
  have p: "pager_inv freshPager" "healthy freshPager" "\<not> fp_inTxn freshPager"
    using f(1) by (simp_all add: pager_ready_def)
  obtain fl where "disk_part freshPager fl" using p(1) by (auto simp: pager_inv_def)
  then have "disk_part freshPager []"
    using freshPager_count(2) by (cases fl) (auto simp: disk_part_def)
  then obtain q where q: "AllocatePage None freshPager = (q, Inr 2)" "alloc_result freshPager q 2"
    using AllocatePage_fresh [OF p] f(3) freshPager_count(1) by auto
  have "onePage = q" using q(1) by (simp add: onePage_def)
  then show ?thesis
    using q(2) f by (simp add: alloc_result_def pager_ready_def)
qed

lemma onePageTx_inv: "pager_active onePageTx \<and> live onePageTx = {2}"
proof -
  obtain q where "BeginTx None onePage = (q, Inr ())" "pager_active q" "live q = live onePage"
    using BeginTx_ready [of onePage] onePage_inv by blast
  then show ?thesis using onePage_inv by (simp add: onePageTx_def)
qed

section \<open>The state machine of the methods\<close>

text \<open>
  One call of a method on an open pager, with any arguments and any outcome.  Two side conditions:
  the transaction counter does not wrap, and page 1 (the mirror header) is not freed, which the
  method itself does not check.
\<close>

inductive pager_step :: "filePager \<Rightarrow> filePager \<Rightarrow> bool" where
  step_begin: "fp_nextTxnID p \<noteq> - 1 \<Longrightarrow> BeginTx ctx p = (q, r) \<Longrightarrow> pager_step p q"
| step_write: "WritePage ctx i b p = (q, r) \<Longrightarrow> pager_step p q"
| step_commit: "CommitTx ctx p = (q, r) \<Longrightarrow> pager_step p q"
| step_rollback: "RollbackTx ctx p = (q, r) \<Longrightarrow> pager_step p q"
| step_alloc: "0 < room p \<Longrightarrow> AllocatePage ctx p = (q, r2) \<Longrightarrow> pager_step p q"
| step_free: "i \<noteq> 1 \<Longrightarrow> FreePage ctx i p = (q, r) \<Longrightarrow> pager_step p q"

definition pager_sound :: "filePager \<Rightarrow> bool" where
  "pager_sound p \<longleftrightarrow> pager_inv p \<and> healthy p"

lemma inv_checkState: "pager_inv p \<Longrightarrow> checkState p = None"
  by (simp add: pager_inv_def checkState_open)

lemma sound_write:
  assumes "pager_sound p" "WritePage ctx i b p = (q, r)"
  shows "pager_sound q"
proof (cases "ctx = None \<and> i \<in> live p \<and> length b = 4084")
  case True
  then show ?thesis
    using assms WritePage_direct [of p i b] WritePage_logged [of p i b] disk_step_fields(14)
    by (cases "fp_inTxn p") (auto simp: pager_sound_def)
next
  case False
  then have "q = p"
    using assms
    by (auto simp: WritePage_def pager_sound_def inv_checkState validatePageID_live live_def
        split: option.splits if_splits)
  then show ?thesis using assms(1) by simp
qed

lemma sound_begin:
  assumes "pager_sound p" "fp_nextTxnID p \<noteq> - 1" "BeginTx ctx p = (q, r)"
  shows "pager_sound q"
proof (cases "ctx = None \<and> \<not> fp_inTxn p")
  case True
  then show ?thesis using assms BeginTx_inv [of p] by (auto simp: pager_sound_def)
next
  case False
  then have "q = p"
    using assms by (auto simp: BeginTx_def pager_sound_def inv_checkState split: option.splits)
  then show ?thesis using assms(1) by simp
qed

lemma sound_end:
  assumes "pager_sound p" "CommitTx ctx p = (q, r) \<or> RollbackTx ctx p = (q, r)"
  shows "pager_sound q"
proof (cases "ctx = None \<and> fp_inTxn p")
  case True
  then have "pager_active p" using assms(1) by (simp add: pager_sound_def pager_active_def)
  then obtain q' where "CommitTx None p = (q', Inr ())" "pager_sound q'"
    using CommitTx_active [of p] by (auto simp: pager_sound_def pager_ready_def)
  then show ?thesis
    using True assms RollbackTx_inv [of p] by (auto simp: pager_sound_def)
next
  case False
  then have "q = p"
    using assms
    by (auto simp: CommitTx_def RollbackTx_def pager_sound_def inv_checkState split: option.splits)
  then show ?thesis using assms(1) by simp
qed

lemma sound_alloc:
  assumes "pager_sound p" "0 < room p" "AllocatePage ctx p = (q, r)"
  shows "pager_sound q"
proof (cases "ctx = None \<and> \<not> fp_inTxn p")
  case True
  then show ?thesis
    using assms AllocatePage_inv [of p] by (auto simp: pager_sound_def alloc_result_def)
next
  case False
  then have "q = p"
    using assms by (auto simp: AllocatePage_def pager_sound_def inv_checkState split: option.splits)
  then show ?thesis using assms(1) by simp
qed

lemma sound_free:
  assumes "pager_sound p" "i \<noteq> 1" "FreePage ctx i p = (q, r)"
  shows "pager_sound q"
proof (cases "ctx = None \<and> \<not> fp_inTxn p \<and> i \<in> live p")
  case True
  then show ?thesis
    using assms FreePage_inv [of p i] by (auto simp: pager_sound_def free_result_def)
next
  case False
  have "2 \<le> i" if "i \<noteq> 0" using that assms(2) unat_ge_2 [of i] by (auto simp: word_unat_eq_iff)
  then have "q = p"
    using assms False
    by (auto simp: FreePage_def pager_sound_def inv_checkState live_def linorder_not_le
        split: option.splits if_splits)
  then show ?thesis using assms(1) by simp
qed

lemma sound_step: "pager_step p q \<Longrightarrow> pager_sound p \<Longrightarrow> pager_sound q"
  by (erule pager_step.cases)
    (blast intro: sound_begin sound_write sound_end sound_alloc sound_free)+

lemma sound_steps: "pager_step\<^sup>*\<^sup>* p q \<Longrightarrow> pager_sound p \<Longrightarrow> pager_sound q"
  by (induction rule: rtranclp_induct) (auto intro: sound_step)



section \<open>Transactions\<close>

text \<open>A client that writes a list of pages, stopping at the first error.\<close>

fun write_all :: "(u64 \<times> bytes) list \<Rightarrow> filePager \<Rightarrow> filePager \<times> (pager_err + unit)" where
  "write_all [] p = (p, Inr ())"
| "write_all ((i, b) # ws) p =
     (case WritePage None i b p of (p, Inl e) \<Rightarrow> (p, Inl e) | (p, Inr _) \<Rightarrow> write_all ws p)"

definition overlay :: "(u64 \<times> bytes) list \<Rightarrow> (u64 \<Rightarrow> pager_err + bytes) \<Rightarrow> u64 \<Rightarrow> pager_err + bytes" where
  "overlay ws view i = (case map_of (rev ws) i of Some b \<Rightarrow> Inr b | None \<Rightarrow> view i)"

lemma overlay_Cons: "overlay ((i, b) # ws) view = overlay ws (view(i := Inr b))"
  by (rule ext) (auto simp: overlay_def map_add_def split: option.splits)

lemma write_all_active:
  assumes "pager_active p" "\<forall>(i, b) \<in> set ws. i \<in> live p \<and> length b = 4084"
  shows "\<exists>q. write_all ws p = (q, Inr ()) \<and> pager_active q \<and> live q = live p
    \<and> (\<forall>i. committed q i = committed p i) \<and> pager_reads q = overlay ws (pager_reads p)"
  using assms
proof (induction ws arbitrary: p)
  case Nil
  then show ?case by (simp add: overlay_def)
next
  case (Cons w ws)
  obtain i b where w: "w = (i, b)" by (cases w)
  then have ib: "i \<in> live p" "length b = 4084" using Cons.prems by auto
  have p: "pager_inv p" "healthy p" "fp_inTxn p" using Cons.prems by (simp_all add: pager_active_def)
  obtain q where q: "WritePage None i b p = (q, Inr ())" "pager_active q" "live q = live p"
    "pager_reads q = (pager_reads p)(i := Inr b)"
    using WritePage_active [OF Cons.prems(1) ib] by blast
  have "committed q j = committed p j" for j
    using q(1) WritePage_logged [OF p(1,2) ib p(3)] by (auto simp: committed_def live_def)
  then show ?case
    using Cons.IH [OF q(2)] Cons.prems(2) q w by (simp add: overlay_Cons)
qed

text \<open>C9: A transaction is applied as a whole or not at all.  Inside it reads see its own writes
  (the last write to a page wins); after \<open>CommitTx\<close> every reader sees exactly these contents, and
  after \<open>RollbackTx\<close> exactly the contents from before \<open>BeginTx\<close>.\<close>

theorem transaction_all_or_nothing:
  assumes "pager_ready p" "\<forall>(i, b) \<in> set ws. i \<in> live p \<and> length b = 4084"
  shows "\<exists>p1 p2 pc pr. BeginTx None p = (p1, Inr ()) \<and> write_all ws p1 = (p2, Inr ())
    \<and> pager_reads p2 = overlay ws (pager_reads p)
    \<and> CommitTx None p2 = (pc, Inr ()) \<and> pager_reads pc = overlay ws (pager_reads p) \<and> pager_ready pc
    \<and> RollbackTx None p2 = (pr, Inr ()) \<and> pager_reads pr = pager_reads p \<and> pager_inv pr"
proof -
  obtain p1 where p1: "BeginTx None p = (p1, Inr ())" "pager_active p1" "live p1 = live p"
    "pager_reads p1 = pager_reads p"
    using BeginTx_ready [OF assms(1)] by blast
  obtain p2 where p2: "write_all ws p1 = (p2, Inr ())" "pager_active p2"
    "\<forall>i. committed p2 i = committed p1 i" "pager_reads p2 = overlay ws (pager_reads p1)"
    using write_all_active [OF p1(2), of ws] assms(2) p1(3) by auto
  obtain pc where pc: "CommitTx None p2 = (pc, Inr ())" "pager_ready pc" "pager_reads pc = pager_reads p2"
    using CommitTx_active [OF p2(2)] by blast
  have a: "pager_inv p2" "fp_inTxn p2" using p2(2) by (simp_all add: pager_active_def)
  obtain pr where pr: "RollbackTx None p2 = (pr, Inr ())" "pager_inv pr"
    using RollbackTx_inv [OF a] by blast
  have inv: "pager_inv p" "\<not> fp_inTxn p" using assms(1) by (simp_all add: pager_ready_def)
  have "ReadPage None i pr = ReadPage None i p" for i
  proof -
    have "ReadPage None i pr = committed p2 i" using ReadPage_rolled_back [OF a, of i] pr(1) by simp
    also have "\<dots> = committed p i"
      using p2(3) p1(1) BeginTx_inv [of p] assms(1)
      by (auto simp: pager_ready_def committed_def live_def)
    finally show ?thesis using ReadPage_committed [OF inv] by simp
  qed
  then show ?thesis using p1 p2 pc pr by auto
qed

theorem transaction_all_or_nothing_witness:
  "\<exists>p1 p2 pc. BeginTx None onePage = (p1, Inr ()) \<and> write_all [(2, replicate 4084 7)] p1 = (p2, Inr ())
    \<and> CommitTx None p2 = (pc, Inr ()) \<and> ReadPage None 2 pc = Inr (replicate 4084 7)"
proof -
  have "overlay [(2, replicate 4084 7)] (pager_reads onePage) 2 = Inr (replicate 4084 7)"
    by (simp add: overlay_def)
  then show ?thesis
    using transaction_all_or_nothing [of onePage "[(2, replicate 4084 7)]"] onePage_inv
    by (auto dest: fun_cong [of _ _ 2])
qed

text \<open>C3: A commit is atomic under any faults of the disk.  Whatever the file operations of
  \<open>CommitTx\<close> do (fail, write only a prefix, be interrupted), a pager opened afterwards on the two
  files comes up, satisfies the invariant, and shows either all the writes of the transaction or
  none; if \<open>CommitTx\<close> reported success it shows all of them.\<close>

theorem commit_crash_atomic:
  assumes "pager_inv p" "fp_inTxn p" "CommitTx None p = (q, r)"
    and "\<forall>xs. mset (ord xs) = mset xs"
  shows "\<exists>s. pager_Open None (newPager 0 (fp_main q) (fp_wal q) [] ord) = (s, Inr ()) \<and> pager_inv s
    \<and> (pager_reads s = pager_reads p
       \<or> r \<noteq> Inr () \<and> pager_reads s = pager_reads (fst (RollbackTx None p)))"
proof -
  obtain s where s: "pager_Open None (newPager 0 (fp_main q) (fp_wal q) [] ord) = (s, Inr ())"
    "pager_inv s" "\<not> fp_inTxn s"
    "(\<forall>i. committed s i = ReadPage None i p) \<or> r \<noteq> Inr () \<and> (\<forall>i. committed s i = committed p i)"
    using commit_recovery [OF assms(1-3) _ assms(4), of 0] by auto
  have "pager_reads s = committed s" by (rule ext) (rule ReadPage_committed [OF s(2,3)])
  moreover have "pager_reads (fst (RollbackTx None p)) = committed p"
    by (rule ext) (rule ReadPage_rolled_back [OF assms(1,2)])
  ultimately show ?thesis using s by auto
qed

theorem commit_crash_atomic_witness:
  "\<exists>s. pager_Open None (newPager 0 (fp_main (fst (CommitTx None onePageTx)))
      (fp_wal (fst (CommitTx None onePageTx))) [] id) = (s, Inr ()) \<and> pager_inv s
    \<and> (\<exists>b. ReadPage None 2 s = Inr b)"
proof -
  have a: "pager_inv onePageTx" "fp_inTxn onePageTx" "2 \<in> live onePageTx"
    using onePageTx_inv by (simp_all add: pager_active_def)
  obtain q r where c: "CommitTx None onePageTx = (q, r)" by fastforce
  obtain q' where ok: "CommitTx None onePageTx = (q', Inr ())"
    using CommitTx_active [of onePageTx] onePageTx_inv by blast
  have "\<exists>b. ReadPage None 2 onePageTx = Inr b" using ReadPage_ok [OF a(1,3)] by blast
  then show ?thesis
    using commit_crash_atomic [OF a(1,2) c, of id] c ok by (auto dest: fun_cong [of _ _ 2])
qed

section \<open>Allocation\<close>

text \<open>C22: \<open>AllocatePage\<close> returns a page that was not allocated, fills it with zeros and leaves
  every other page alone; the allocated set grows by exactly this page.  (While page numbers are
  left: \<open>room\<close> counts the free list and the numbers whose offset fits the file.)\<close>

theorem allocate_unused_zeroed:
  assumes "pager_ready p" "0 < room p"
  shows "\<exists>q i. AllocatePage None p = (q, Inr i) \<and> pager_ready q \<and> i \<notin> live p
    \<and> live q = insert i (live p) \<and> pager_reads q = (pager_reads p)(i := Inr (zero_bytes 4084))"
  using AllocatePage_ready [OF assms] by blast

theorem allocate_unused_zeroed_witness:
  "\<exists>q i. AllocatePage None onePage = (q, Inr i) \<and> i \<noteq> 2 \<and> ReadPage None i q = Inr (zero_bytes 4084)"
proof -
  obtain q i where "AllocatePage None onePage = (q, Inr i)" "i \<notin> live onePage"
    "pager_reads q = (pager_reads onePage)(i := Inr (zero_bytes 4084))"
    using allocate_unused_zeroed [of onePage] onePage_inv by auto
  moreover from this(3) have "ReadPage None i q = Inr (zero_bytes 4084)" by (metis fun_upd_same)
  ultimately show ?thesis using onePage_inv by auto
qed

lemma disk_part_head:
  assumes "disk_part p fl" "fp_freeListHead p = x" "small_id x"
  shows "\<exists>xs. fl = x # xs"
  using assms small_not_sentinel [OF assms(3)] by (cases fl) (auto simp: disk_part_def chain_part_def)

text \<open>C21: The free list is a stack: a page that was just freed is refused by reads, is what the
  next \<open>AllocatePage\<close> returns, comes back zero-filled, and no other page changes in between.\<close>

theorem free_then_allocate:
  assumes "pager_ready p" "i \<in> live p"
  shows "\<exists>q r. FreePage None i p = (q, Inr ()) \<and> ReadPage None i q = Inl ErrInvalidPageID
    \<and> AllocatePage None q = (r, Inr i) \<and> pager_ready r \<and> live r = live p
    \<and> pager_reads r = (pager_reads p)(i := Inr (zero_bytes 4084))"
proof -
  have p: "pager_inv p" "healthy p" "\<not> fp_inTxn p" using assms(1) by (simp_all add: pager_ready_def)
  obtain q where q: "FreePage None i p = (q, Inr ())" "pager_ready q" "live q = live p - {i}"
    "room q = room p + 1" "pager_reads q = (pager_reads p)(i := Inl ErrInvalidPageID)"
    and head: "fp_freeListHead q = i"
    using FreePage_ready [OF assms] FreePage_inv [OF p assms(2)] by (auto simp: free_result_def)
  have qi: "pager_inv q" "healthy q" "\<not> fp_inTxn q" using q(2) by (simp_all add: pager_ready_def)
  obtain fl where d: "disk_part q fl" using qi(1) by (auto simp: pager_inv_def)
  obtain fl0 where "disk_part p fl0" using p(1) by (auto simp: pager_inv_def)
  then have "small_id i" using live_ids assms(2) by blast
  then obtain xs where "disk_part q (i # xs)" using disk_part_head [OF d head] d by auto
  from AllocatePage_reuse [OF qi this] have "snd (AllocatePage None q) = Inr i" by auto
  moreover obtain r j where r: "AllocatePage None q = (r, Inr j)" "pager_ready r"
    "live r = insert j (live q)" "pager_reads r = (pager_reads q)(j := Inr (zero_bytes 4084))"
    using AllocatePage_ready [OF q(2)] q(4) by auto
  ultimately show ?thesis using q assms(2) by (auto simp: fun_eq_iff)
qed

theorem free_then_allocate_witness:
  "\<exists>q r. FreePage None 2 onePage = (q, Inr ()) \<and> AllocatePage None q = (r, Inr 2)"
  using free_then_allocate [of onePage 2] onePage_inv by auto


section \<open>Closing and reopening\<close>

lemma replay_at_rest:
  assumes "pager_inv p" "healthy p" "\<not> fp_inTxn p"
  shows "\<exists>q. replayWALInternal p = (q, Inr ()) \<and> fp_main q = fp_main p \<and> healthy q \<and> fp_wal q = []"
proof -
  obtain old cur where w: "wal_part p old cur" using assms(1) by (auto simp: pager_inv_def)
  then have "parse_wal (fp_wal p) = Inr old" "no_eot old" "fp_walSize p = length (fp_wal p)"
    using assms(3) parse_wal_of [of old] by (auto simp: wal_part_def)
  from replay_uncommitted [OF this(1,3,2)] assms(2) show ?thesis
    using truncate_wal_cases [of p] by (cases "truncate_wal p") auto
qed

lemma close_reopen_ok:
  assumes "pager_inv p" "healthy p" "\<not> fp_inTxn p" "\<forall>xs. mset (ord xs) = mset xs"
  shows "\<exists>q s. pager_Close p = (q, Inr ()) \<and> fp_state q = stateClosed
    \<and> pager_Open None (newPager 0 (fp_main q) (fp_wal q) [] ord) = (s, Inr ())
    \<and> pager_ready s \<and> live s = live p \<and> pager_reads s = pager_reads p
    \<and> fp_pageCount s = fp_pageCount p \<and> fp_freeSet s = fp_freeSet p"
proof -
  obtain fl where d: "disk_part p fl" using assms(1) by (auto simp: pager_inv_def)
  obtain q where q: "replayWALInternal p = (q, Inr ())" "fp_main q = fp_main p" "healthy q" "fp_wal q = []"
    using replay_at_rest [OF assms(1-3)] by blast
  have c: "pager_Close p = (q\<lparr>fp_state := stateClosed\<rparr>, Inr ())"
    using q assms(1) by (simp add: pager_Close_def inv_checkState file_op_healthy)
  let ?s = "reopened 0 ord p"
  have "pager_Open None (newPager 0 (fp_main p) [] [] ord) = (?s, Inr ())"
    by (rule reopen_uncommitted [OF d, of "[]" "[]"]) (simp_all add: parse_wal.simps)
  moreover have i: "pager_inv ?s" using reopened_inv [OF assms(1) _ assms(4)] by simp
  moreover have "pager_reads ?s = pager_reads p"
    by (rule ext) (simp add: ReadPage_committed [OF i] ReadPage_committed [OF assms(1,3)])
  ultimately show ?thesis using c q by (simp add: pager_ready_def)
qed

text \<open>C20: Closing a pager at rest and opening a new one on its two files gives back the same
  contents: every page reads as before, and the invariant holds.\<close>

theorem close_reopen:
  assumes "pager_inv p" "healthy p" "\<not> fp_inTxn p" "\<forall>xs. mset (ord xs) = mset xs"
  shows "\<exists>q s. pager_Close p = (q, Inr ()) \<and> fp_state q = stateClosed
    \<and> pager_Open None (newPager 0 (fp_main q) (fp_wal q) [] ord) = (s, Inr ())
    \<and> pager_ready s \<and> live s = live p \<and> pager_reads s = pager_reads p"
  using close_reopen_ok [OF assms] by blast

theorem close_reopen_witness:
  "\<exists>q s. pager_Close onePage = (q, Inr ())
    \<and> pager_Open None (newPager 0 (fp_main q) (fp_wal q) [] id) = (s, Inr ()) \<and> live s = {2}"
  using close_reopen [of onePage id] onePage_inv by (auto simp: pager_ready_def)

text \<open>C23: Recovery reads exactly the complete records of the log: whatever prefix of one more
  record a crash left behind them, the parse of the log returns them and reports no corruption.\<close>

theorem torn_log_tail_ignored:
  assumes "recs_ok recs" "wal_shape i b" "n < length (wal_rec t i b)"
  shows "parse_wal (wal_of recs @ take n (wal_rec t i b)) = Inr recs"
  by (rule parse_wal_recs [OF assms])

theorem torn_log_tail_ignored_witness:
  "parse_wal (wal_of [(1, 2, replicate 4084 0)] @ take 5 (wal_rec 1 walEOTPageID [])) =
     Inr [(1, 2, replicate 4084 0)]"
proof -
  have "recs_ok [(1, 2, replicate 4084 0)]" "wal_shape walEOTPageID []"
    by (simp_all add: wal_shape_def walEOTPageID_def)
  then show ?thesis by (rule torn_log_tail_ignored) simp
qed

end
