(* ===== verification/Btree_Inv.thy ===== *)
theory Btree_Inv
  imports Btree Pager_Props
begin

text \<open>
  The abstract trees that a store represents, their well-formedness (separators bound the keys
  below them, nodes are not overfull), the position of a node in a tree (a list of ancestors,
  innermost first) and the two ways an update rebuilds the ancestors: in place, or splitting them.
\<close>

named_theorems tree_simps \<open>abstract trees and positions\<close>

datatype tree = Lf u64 "(bytes \<times> bytes) list" u64 | Nd u64 "tree list" "bytes list"

fun tid :: "tree \<Rightarrow> u64" where
  "tid (Lf i es n) = i"
| "tid (Nd i ts ks) = i"

fun contents :: "tree \<Rightarrow> (bytes \<times> bytes) list" where
  "contents (Lf i es n) = es"
| "contents (Nd i ts ks) = concat (map contents ts)"

fun leaves :: "tree \<Rightarrow> (u64 \<times> u64) list" where
  "leaves (Lf i es n) = [(i, n)]"
| "leaves (Nd i ts ks) = concat (map leaves ts)"

fun pages :: "tree \<Rightarrow> u64 list" where
  "pages (Lf i es n) = [i]"
| "pages (Nd i ts ks) = i # concat (map pages ts)"

section \<open>Bounds\<close>

fun ge_lo :: "bytes option \<Rightarrow> bytes \<Rightarrow> bool" where
  "ge_lo None k = True" | "ge_lo (Some l) k = (l \<le> k)"

fun gt_lo :: "bytes option \<Rightarrow> bytes \<Rightarrow> bool" where
  "gt_lo None k = True" | "gt_lo (Some l) k = (l < k)"

fun lt_hi :: "bytes \<Rightarrow> bytes option \<Rightarrow> bool" where
  "lt_hi k None = True" | "lt_hi k (Some h) = (k < h)"

lemma gt_lo_ge: "gt_lo lo k \<Longrightarrow> ge_lo lo k"
  by (cases lo) auto

lemma gt_lo_trans: "gt_lo lo k \<Longrightarrow> k \<le> k' \<Longrightarrow> gt_lo lo k'"
  by (cases lo) auto

lemma ge_gt_lo_trans: "ge_lo lo k \<Longrightarrow> k < k' \<Longrightarrow> gt_lo lo k'"
  by (cases lo) auto

lemma lt_hi_trans: "lt_hi k hi \<Longrightarrow> k' \<le> k \<Longrightarrow> lt_hi k' hi"
  by (cases hi) auto

fun wf_tree :: "bytes option \<Rightarrow> bytes option \<Rightarrow> tree \<Rightarrow> bool"
  and wf_list :: "bytes option \<Rightarrow> bytes option \<Rightarrow> tree list \<Rightarrow> bytes list \<Rightarrow> bool" where
  "wf_tree lo hi (Lf i es n) \<longleftrightarrow> sorted_wrt (<) (map fst es) \<and> length es \<le> 7
     \<and> (\<forall>(k, v) \<in> set es. ge_lo lo k \<and> lt_hi k hi \<and> key_fits k \<and> small_value v)"
| "wf_tree lo hi (Nd i ts ks) \<longleftrightarrow> ks \<noteq> [] \<and> length ks \<le> 56 \<and> (\<forall>k \<in> set ks. key_fits k) \<and> wf_list lo hi ts ks"
| "wf_list lo hi [] ks \<longleftrightarrow> False"
| "wf_list lo hi (t # ts) [] \<longleftrightarrow> ts = [] \<and> wf_tree lo hi t"
| "wf_list lo hi (t # ts) (k # ks) \<longleftrightarrow>
     gt_lo lo k \<and> lt_hi k hi \<and> wf_tree lo (Some k) t \<and> wf_list (Some k) hi ts ks"

text \<open>The bounds of the child with index \<open>i\<close>.\<close>

definition lowb :: "bytes option \<Rightarrow> bytes list \<Rightarrow> nat \<Rightarrow> bytes option" where
  "lowb lo ks i = (case i of 0 \<Rightarrow> lo | Suc j \<Rightarrow> Some (ks ! j))"

definition highb :: "bytes option \<Rightarrow> bytes list \<Rightarrow> nat \<Rightarrow> bytes option" where
  "highb hi ks i = (if i < length ks then Some (ks ! i) else hi)"

lemma lowb_simps [simp]: "lowb lo ks 0 = lo" "lowb lo (k # ks) (Suc i) = lowb (Some k) ks i"
  by (auto simp: lowb_def split: nat.splits)

lemma highb_simps [simp]:
  "highb hi [] i = hi" "highb hi (k # ks) 0 = Some k" "highb hi (k # ks) (Suc i) = highb hi ks i"
  by (auto simp: highb_def)

lemma wf_list_length: "wf_list lo hi ts ks \<Longrightarrow> length ts = Suc (length ks)"
  by (induction ts ks arbitrary: lo rule: list_induct2') auto

lemma wf_list_keys:
  "wf_list lo hi ts ks \<Longrightarrow> sorted_wrt (<) ks \<and> (\<forall>k \<in> set ks. gt_lo lo k \<and> lt_hi k hi)"
proof (induction ts ks arbitrary: lo rule: list_induct2')
  case (4 t ts k ks)
  then have IH: "sorted_wrt (<) ks" "\<forall>k' \<in> set ks. k < k' \<and> lt_hi k' hi" and k: "gt_lo lo k" "lt_hi k hi"
    using "4.IH" [of "Some k"] "4.prems" by auto
  then show ?case using gt_lo_trans [OF k(1)] by (auto intro: less_imp_le)
qed auto

lemma wf_list_child:
  "wf_list lo hi ts ks \<Longrightarrow> i < length ts \<Longrightarrow> wf_tree (lowb lo ks i) (highb hi ks i) (ts ! i)"
proof (induction ts ks arbitrary: lo i rule: list_induct2')
  case (4 t ts k ks)
  then show ?case by (cases i) auto
qed auto

lemma wf_list_update:
  "wf_list lo hi ts ks \<Longrightarrow> i < length ts \<Longrightarrow> wf_tree (lowb lo ks i) (highb hi ks i) t
   \<Longrightarrow> wf_list lo hi (ts[i := t]) ks"
proof (induction ts ks arbitrary: lo i rule: list_induct2')
  case (4 t' ts k ks)
  then show ?case by (cases i) auto
qed (auto split: nat.splits)

lemma wf_list_insert:
  "wf_list lo hi ts ks \<Longrightarrow> i < length ts \<Longrightarrow> wf_tree (lowb lo ks i) (Some m) ta
   \<Longrightarrow> wf_tree (Some m) (highb hi ks i) tb \<Longrightarrow> gt_lo (lowb lo ks i) m \<Longrightarrow> lt_hi m (highb hi ks i)
   \<Longrightarrow> wf_list lo hi (take i ts @ [ta, tb] @ drop (i + 1) ts) (take i ks @ [m] @ drop i ks)"
proof (induction ts ks arbitrary: lo i rule: list_induct2')
  case (4 t ts k ks)
  show ?case
  proof (cases i)
    case 0
    then have "m < k" "lt_hi k hi" using 4 by auto
    then show ?thesis using 4 0 by (auto intro: lt_hi_trans less_imp_le)
  next
    case (Suc j)
    then show ?thesis using 4 by auto
  qed
qed auto

lemma wf_list_cut:
  "wf_list lo hi ts ks \<Longrightarrow> m < length ks \<Longrightarrow>
   wf_list lo (Some (ks ! m)) (take (m + 1) ts) (take m ks)
   \<and> wf_list (Some (ks ! m)) hi (drop (m + 1) ts) (drop (m + 1) ks)
   \<and> gt_lo lo (ks ! m) \<and> lt_hi (ks ! m) hi"
proof (induction ts ks arbitrary: lo m rule: list_induct2')
  case (4 t ts k ks)
  show ?case
  proof (cases m)
    case 0
    then show ?thesis using 4 by auto
  next
    case (Suc j)
    then have IH: "wf_list (Some k) (Some (ks ! j)) (take (j + 1) ts) (take j ks)"
      "wf_list (Some (ks ! j)) hi (drop (j + 1) ts) (drop (j + 1) ks)" "k < ks ! j" "lt_hi (ks ! j) hi"
      using "4.IH" [of "Some k" j] "4.prems" by auto
    then show ?thesis
      using 4 Suc gt_lo_trans [of lo k "ks ! j"] by (auto intro: less_imp_le)
  qed
qed auto

section \<open>Contents of a well-formed tree\<close>

lemma wf_contents:
  "wf_tree lo hi t \<Longrightarrow> sorted_wrt (<) (map fst (contents t))
     \<and> (\<forall>(k, v) \<in> set (contents t). ge_lo lo k \<and> lt_hi k hi \<and> key_fits k \<and> small_value v)"
  "wf_list lo hi ts ks \<Longrightarrow> sorted_wrt (<) (map fst (concat (map contents ts)))
     \<and> (\<forall>(k, v) \<in> set (concat (map contents ts)). ge_lo lo k \<and> lt_hi k hi \<and> key_fits k \<and> small_value v)"
proof (induction lo hi t and lo hi ts ks rule: wf_tree_wf_list.induct)
  case (5 lo hi t ts k ks)
  then have a: "gt_lo lo k" "lt_hi k hi"
    and t: "sorted_wrt (<) (map fst (contents t))"
      "\<And>k' v. (k', v) \<in> set (contents t) \<Longrightarrow> ge_lo lo k' \<and> k' < k \<and> key_fits k' \<and> small_value v"
    and r: "sorted_wrt (<) (map fst (concat (map contents ts)))"
      "\<And>k' v. (k', v) \<in> set (concat (map contents ts)) \<Longrightarrow> k \<le> k' \<and> lt_hi k' hi \<and> key_fits k' \<and> small_value v"
    by auto
  have "x < y" if xy: "x \<in> set (map fst (contents t))" "y \<in> set (map fst (concat (map contents ts)))" for x y
  proof -
    obtain v w where "(x, v) \<in> set (contents t)" "(y, w) \<in> set (concat (map contents ts))"
      using xy by (auto simp del: set_concat)
    from t(2) [OF this(1)] r(2) [OF this(2)] show ?thesis by auto
  qed
  then have "sorted_wrt (<) (map fst (concat (map contents (t # ts))))"
    using t(1) r(1) unfolding list.map concat.simps map_append sorted_wrt_append by blast
  moreover have "ge_lo lo k' \<and> lt_hi k' hi \<and> key_fits k' \<and> small_value v"
    if "(k', v) \<in> set (concat (map contents (t # ts)))" for k' v
    using that t(2) [of k' v] r(2) [of k' v] gt_lo_ge [OF gt_lo_trans [OF a(1), of k']] lt_hi_trans [OF a(2), of k']
    by auto
  ultimately show ?case by blast
qed auto

lemma wf_weaken:
  "wf_tree lo hi t \<Longrightarrow> (\<And>k. ge_lo lo k \<Longrightarrow> ge_lo lo' k) \<Longrightarrow> (\<And>k. gt_lo lo k \<Longrightarrow> gt_lo lo' k) \<Longrightarrow> wf_tree lo' hi t"
  "wf_list lo hi ts ks \<Longrightarrow> (\<And>k. ge_lo lo k \<Longrightarrow> ge_lo lo' k) \<Longrightarrow> (\<And>k. gt_lo lo k \<Longrightarrow> gt_lo lo' k) \<Longrightarrow> wf_list lo' hi ts ks"
  by (induction lo hi t and lo hi ts ks arbitrary: lo' and lo' rule: wf_tree_wf_list.induct) fastforce+

section \<open>Routing\<close>

definition route :: "bytes list \<Rightarrow> bytes \<Rightarrow> nat" where
  "route ks k = length (takeWhile (\<lambda>x. x \<le> k) ks)"

lemma route_simps [simp]: "route [] k = 0" "route (x # ks) k = (if x \<le> k then Suc (route ks k) else 0)"
  by (simp_all add: route_def)

lemma upperBoundIdx_route:
  assumes "length cs = Suc (length ks)"
  shows "upperBoundIdx cs ks k = route ks k"
proof -
  have "upperBoundIdx_from (i + length ks) i ks k = i + route ks k" for i
    by (induction ks arbitrary: i) (auto simp: linorder_not_le simp flip: add_Suc)
  from this [of 0] show ?thesis using assms by (simp add: upperBoundIdx_def)
qed

lemma route_child:
  assumes "wf_list lo hi ts ks" "ge_lo lo k" "lt_hi k hi"
  shows "route ks k < length ts \<and> ge_lo (lowb lo ks (route ks k)) k \<and> lt_hi k (highb hi ks (route ks k))"
  using assms
proof (induction ts ks arbitrary: lo rule: list_induct2')
  case (4 t ts x ks)
  then show ?case by (cases "x \<le> k") (auto simp: linorder_not_le)
qed auto

text \<open>A key within the bounds of one child is in no other child.\<close>

lemma wf_list_other_child:
  assumes "wf_list lo hi ts ks" "i < length ts" "j < length ts" "i \<noteq> j"
    and "ge_lo (lowb lo ks i) k" "lt_hi k (highb hi ks i)" "(k, v) \<in> set (contents (ts ! j))"
  shows False
proof -
  have j: "ge_lo (lowb lo ks j) k" "lt_hi k (highb hi ks j)"
    using wf_contents(1) [OF wf_list_child [OF assms(1,3)]] assms(7) by auto
  have len: "length ts = Suc (length ks)" and s: "sorted_wrt (<) ks"
    using wf_list_length [OF assms(1)] wf_list_keys [OF assms(1)] by auto
  have "False" if ij: "a < b" "b < length ts" "lt_hi k (highb hi ks a)" "ge_lo (lowb lo ks b) k" for a b
  proof -
    obtain c where c: "b = Suc c" using ij(1) by (cases b) auto
    then have "a \<le> c" "c < length ks" using ij len by auto
    moreover have "k < ks ! a" "ks ! c \<le> k" using ij c calculation by (auto simp: highb_def lowb_def)
    ultimately show False
      using s sorted_wrt_nth_less [of "(<)" ks a c] by (cases "a = c") auto
  qed
  then show False using assms(2-6) j by (cases "i < j") (auto simp: linorder_not_less order_le_less)
qed

section \<open>Positions\<close>

type_synonym pos = "(tree \<times> nat) list"

fun kids :: "tree \<Rightarrow> tree list" where
  "kids (Nd i ts ks) = ts" | "kids (Lf i es n) = []"

fun seps :: "tree \<Rightarrow> bytes list" where
  "seps (Nd i ts ks) = ks" | "seps (Lf i es n) = []"

fun is_node :: "tree \<Rightarrow> bool" where
  "is_node (Nd i ts ks) = True" | "is_node (Lf i es n) = False"

text \<open>\<open>at root fs t\<close>: following the ancestors \<open>fs\<close> (innermost first) from \<open>root\<close> leads to \<open>t\<close>.\<close>

fun at :: "tree \<Rightarrow> pos \<Rightarrow> tree \<Rightarrow> bool" where
  "at root [] t \<longleftrightarrow> t = root"
| "at root ((n, i) # fs) t \<longleftrightarrow> is_node n \<and> i < length (kids n) \<and> kids n ! i = t \<and> at root fs n"

fun rebuild :: "pos \<Rightarrow> tree \<Rightarrow> tree" where
  "rebuild [] t = t"
| "rebuild ((n, i) # fs) t = rebuild fs (Nd (tid n) ((kids n)[i := t]) (seps n))"

definition put_child :: "nat \<Rightarrow> 'a \<Rightarrow> 'a \<Rightarrow> 'a list \<Rightarrow> 'a list" where
  "put_child i a b xs = take i xs @ [a, b] @ drop (i + 1) xs"

definition put_sep :: "nat \<Rightarrow> 'a \<Rightarrow> 'a list \<Rightarrow> 'a list" where
  "put_sep i m ks = take i ks @ [m] @ drop i ks"

text \<open>Replacing a subtree by two, with a separator: splits full ancestors, using new page numbers.\<close>

fun grow :: "pos \<Rightarrow> tree \<Rightarrow> bytes \<Rightarrow> tree \<Rightarrow> u64 list \<Rightarrow> tree" where
  "grow [] a m b ps = Nd (hd ps) [a, b] [m]"
| "grow ((n, i) # fs) a m b ps =
     (let ts = put_child i a b (kids n); ks = put_sep i m (seps n); mid = length ks div 2 in
      if length (seps n) < 56 then rebuild fs (Nd (tid n) ts ks)
      else grow fs (Nd (tid n) (take (mid + 1) ts) (take mid ks)) (ks ! mid)
             (Nd (hd ps) (drop (mid + 1) ts) (drop (mid + 1) ks)) (tl ps))"

fun grow_pages :: "pos \<Rightarrow> nat" where
  "grow_pages [] = 1"
| "grow_pages ((n, i) # fs) = (if length (seps n) < 56 then 0 else Suc (grow_pages fs))"

lemma grow_pages_le: "grow_pages fs \<le> Suc (length fs)"
  by (induction fs) auto

text \<open>The bounds at a position.\<close>

fun bounds :: "bytes option \<Rightarrow> bytes option \<Rightarrow> pos \<Rightarrow> bytes option \<times> bytes option" where
  "bounds lo hi [] = (lo, hi)"
| "bounds lo hi ((n, i) # fs) =
     (lowb (fst (bounds lo hi fs)) (seps n) i, highb (snd (bounds lo hi fs)) (seps n) i)"

abbreviation bwf :: "bytes option \<Rightarrow> bytes option \<Rightarrow> pos \<Rightarrow> tree \<Rightarrow> bool" where
  "bwf lo hi fs t \<equiv> wf_tree (fst (bounds lo hi fs)) (snd (bounds lo hi fs)) t"

lemma is_nodeE: "is_node n \<Longrightarrow> n = Nd (tid n) (kids n) (seps n)"
  by (cases n) auto

lemma wf_node:
  "is_node n \<Longrightarrow> wf_tree lo hi n \<longleftrightarrow>
     seps n \<noteq> [] \<and> length (seps n) \<le> 56 \<and> (\<forall>k \<in> set (seps n). key_fits k) \<and> wf_list lo hi (kids n) (seps n)"
  by (cases n) auto

lemma at_wf:
  assumes "wf_tree lo hi root" "at root fs t"
  shows "bwf lo hi fs t"
  using assms
proof (induction fs arbitrary: t)
  case (Cons f fs)
  obtain n i where f: "f = (n, i)" by (cases f)
  then have "bwf lo hi fs n" "is_node n" "i < length (kids n)" "kids n ! i = t" using Cons by auto
  then show ?case using f wf_list_child by (auto simp: wf_node)
qed simp

lemma rebuild_wf:
  assumes "wf_tree lo hi root" "at root fs t" "bwf lo hi fs t'"
  shows "wf_tree lo hi (rebuild fs t')"
  using assms
proof (induction fs arbitrary: t t')
  case (Cons f fs)
  obtain n i where f: "f = (n, i)" by (cases f)
  then have a: "at root fs n" "is_node n" "i < length (kids n)" using Cons.prems by auto
  have "bwf lo hi fs n" using at_wf [OF Cons.prems(1) a(1)] .
  then have "bwf lo hi fs (Nd (tid n) ((kids n)[i := t']) (seps n))"
    using a f Cons.prems(3) wf_list_update by (auto simp: wf_node)
  then show ?case using Cons.IH [OF Cons.prems(1) a(1)] f by simp
qed simp

lemma node_split:
  assumes "bwf lo hi fs n" "is_node n" "i < length (kids n)" "key_fits m"
    and "bwf lo hi ((n, i) # fs) (kids n ! i)"
    and "wf_tree (fst (bounds lo hi ((n, i) # fs))) (Some m) a"
    and "wf_tree (Some m) (snd (bounds lo hi ((n, i) # fs))) b"
    and "gt_lo (fst (bounds lo hi ((n, i) # fs))) m" "lt_hi m (snd (bounds lo hi ((n, i) # fs)))"
  shows "wf_list (fst (bounds lo hi fs)) (snd (bounds lo hi fs)) (put_child i a b (kids n)) (put_sep i m (seps n))
    \<and> length (put_sep i m (seps n)) = Suc (length (seps n))
    \<and> (\<forall>k \<in> set (put_sep i m (seps n)). key_fits k)"
proof -
  have w: "wf_list (fst (bounds lo hi fs)) (snd (bounds lo hi fs)) (kids n) (seps n)"
    and k: "\<forall>k \<in> set (seps n). key_fits k" using assms(1,2) by (auto simp: wf_node)
  have "i \<le> length (seps n)" using assms(3) wf_list_length [OF w] by simp
  moreover have "\<forall>k \<in> set (put_sep i m (seps n)). key_fits k"
    using k assms(4) by (auto simp: put_sep_def dest: in_set_takeD in_set_dropD)
  ultimately show ?thesis
    using wf_list_insert [OF w assms(3)] assms(6-9) by (auto simp: put_child_def put_sep_def)
qed

lemma grow_wf:
  assumes "wf_tree lo hi root" "at root fs t" "key_fits m"
    and "wf_tree (fst (bounds lo hi fs)) (Some m) a" "wf_tree (Some m) (snd (bounds lo hi fs)) b"
    and "gt_lo (fst (bounds lo hi fs)) m" "lt_hi m (snd (bounds lo hi fs))"
  shows "wf_tree lo hi (grow fs a m b ps)"
  using assms
proof (induction fs arbitrary: t a m b ps)
  case Nil
  then show ?case by simp
next
  case (Cons f fs)
  obtain n i where f: "f = (n, i)" by (cases f)
  then have at: "at root fs n" "is_node n" "i < length (kids n)" "kids n ! i = t" using Cons.prems by auto
  have n: "bwf lo hi fs n" using at_wf [OF Cons.prems(1) at(1)] .
  have t: "bwf lo hi ((n, i) # fs) (kids n ! i)" using at_wf [OF Cons.prems(1,2)] f at(4) by simp
  let ?ts = "put_child i a b (kids n)" and ?ks = "put_sep i m (seps n)"
  have w: "wf_list (fst (bounds lo hi fs)) (snd (bounds lo hi fs)) ?ts ?ks"
    "length ?ks = Suc (length (seps n))" "\<forall>k \<in> set ?ks. key_fits k"
    using node_split [OF n at(2,3) Cons.prems(3) t, of a b] Cons.prems(4-7) f by auto
  show ?case
  proof (cases "length (seps n) < 56")
    case True
    then have "bwf lo hi fs (Nd (tid n) ?ts ?ks)" using w by auto
    from rebuild_wf [OF Cons.prems(1) at(1) this] show ?thesis using True f by (simp add: Let_def)
  next
    case False
    then have len: "length ?ks = 57" using n at(2) w(2) by (simp add: wf_node)
    note c = wf_list_cut [OF w(1), of 28]
    have kf: "key_fits (?ks ! 28)" "\<forall>k \<in> set (take 28 ?ks). key_fits k" "\<forall>k \<in> set (drop 29 ?ks). key_fits k"
      using w(3) len by (auto dest: in_set_takeD in_set_dropD)
    have "take 28 ?ks \<noteq> []" "drop 29 ?ks \<noteq> []" using len by auto
    then have "wf_tree lo hi (grow fs (Nd (tid n) (take 29 ?ts) (take 28 ?ks)) (?ks ! 28)
        (Nd (hd ps) (drop 29 ?ts) (drop 29 ?ks)) (tl ps))"
      using c len kf by (intro Cons.IH [OF Cons.prems(1) at(1)]) auto
    then show ?thesis using False f len by (simp add: Let_def)
  qed
qed

section \<open>What surrounds a position\<close>

fun ctxl :: "(tree \<Rightarrow> 'a list) \<Rightarrow> pos \<Rightarrow> 'a list" where
  "ctxl f [] = []"
| "ctxl f ((n, i) # fs) = ctxl f fs @ concat (map f (take i (kids n)))"

fun ctxr :: "(tree \<Rightarrow> 'a list) \<Rightarrow> pos \<Rightarrow> 'a list" where
  "ctxr f [] = []"
| "ctxr f ((n, i) # fs) = concat (map f (drop (i + 1) (kids n))) @ ctxr f fs"

text \<open>Page numbers of the ancestors and of everything beside the position.\<close>

fun ctxp :: "pos \<Rightarrow> u64 list" where
  "ctxp [] = []"
| "ctxp ((n, i) # fs) = tid n # concat (map pages (take i (kids n))) @ concat (map pages (drop (i + 1) (kids n))) @ ctxp fs"

lemma concat_update:
  "i < length ts \<Longrightarrow> concat (map f (ts[i := t])) = concat (map f (take i ts)) @ f t @ concat (map f (drop (i + 1) ts))"
  by (simp add: upd_conv_take_nth_drop)

lemma concat_put_child:
  "concat (map f (put_child i a b ts)) = concat (map f (take i ts)) @ f a @ f b @ concat (map f (drop (i + 1) ts))"
  by (simp add: put_child_def)

lemma concat_take_drop: "concat (map f (take k ts)) @ concat (map f (drop k ts)) = concat (map f ts)"
  by (metis append_take_drop_id concat_append map_append)

lemma flat_rebuild:
  assumes "\<And>i ts ks. f (Nd i ts ks) = concat (map f ts)" "at root fs t"
  shows "f (rebuild fs t') = ctxl f fs @ f t' @ ctxr f fs"
  using assms(2)
proof (induction fs arbitrary: t t')
  case (Cons x fs)
  then show ?case by (cases x) (auto simp: assms(1) concat_update)
qed simp

lemma rebuild_same: "at root fs t \<Longrightarrow> rebuild fs t = root"
proof (induction fs arbitrary: t)
  case (Cons x fs)
  obtain n i where x: "x = (n, i)" by (cases x)
  then have "Nd (tid n) ((kids n)[i := t]) (seps n) = n" "at root fs n"
    using Cons.prems is_nodeE [of n] by auto
  then show ?case using Cons.IH x by simp
qed simp

lemma flat_at:
  assumes "\<And>i ts ks. f (Nd i ts ks) = concat (map f ts)" "at root fs t"
  shows "f root = ctxl f fs @ f t @ ctxr f fs"
  using flat_rebuild [OF assms, of t] rebuild_same [OF assms(2)] by simp

lemma flat_grow:
  assumes "\<And>i ts ks. f (Nd i ts ks) = concat (map f ts)" "at root fs t"
  shows "f (grow fs a m b ps) = ctxl f fs @ f a @ f b @ ctxr f fs"
  using assms(2)
proof (induction fs arbitrary: t a m b ps)
  case Nil
  then show ?case by (simp add: assms(1))
next
  case (Cons x fs)
  obtain n i where x: "x = (n, i)" by (cases x)
  then have at: "at root fs n" using Cons.prems by simp
  let ?ts = "put_child i a b (kids n)" and ?ks = "put_sep i m (seps n)"
  let ?mid = "length ?ks div 2"
  show ?case
  proof (cases "length (seps n) < 56")
    case True
    then show ?thesis
      using x flat_rebuild [OF assms(1) at] by (simp add: Let_def assms(1) concat_put_child)
  next
    case False
    then have "f (grow (x # fs) a m b ps) = ctxl f fs @ concat (map f (take (?mid + 1) ?ts))
        @ concat (map f (drop (?mid + 1) ?ts)) @ ctxr f fs"
      using x Cons.IH [OF at] by (simp add: Let_def assms(1))
    also have "\<dots> = ctxl f fs @ concat (map f ?ts) @ ctxr f fs"
      using concat_take_drop [of f "?mid + 1" ?ts] by simp
    finally show ?thesis using x by (simp add: concat_put_child)
  qed
qed

lemma contents_at: "at root fs t \<Longrightarrow> contents root = ctxl contents fs @ contents t @ ctxr contents fs"
  by (rule flat_at) simp_all

lemma leaves_at: "at root fs t \<Longrightarrow> leaves root = ctxl leaves fs @ leaves t @ ctxr leaves fs"
  by (rule flat_at) simp_all

lemma pages_rebuild:
  "at root fs t \<Longrightarrow> mset (pages (rebuild fs t')) = mset (ctxp fs) + mset (pages t')"
proof (induction fs arbitrary: t t')
  case (Cons x fs)
  then show ?case by (cases x) (auto simp: concat_update)
qed simp

lemma pages_at: "at root fs t \<Longrightarrow> mset (pages root) = mset (ctxp fs) + mset (pages t)"
  using pages_rebuild [of root fs t t] rebuild_same [of root fs t] by simp

lemma pages_grow:
  assumes "at root fs t" "grow_pages fs \<le> length ps"
  shows "mset (pages (grow fs a m b ps)) =
    mset (ctxp fs) + mset (pages a) + mset (pages b) + mset (take (grow_pages fs) ps)"
  using assms
proof (induction fs arbitrary: t a m b ps)
  case Nil
  then show ?case by (cases ps) auto
next
  case (Cons x fs)
  obtain n i where x: "x = (n, i)" by (cases x)
  then have at: "at root fs n" using Cons.prems by simp
  let ?ts = "put_child i a b (kids n)" and ?ks = "put_sep i m (seps n)"
  let ?mid = "length ?ks div 2"
  show ?case
  proof (cases "length (seps n) < 56")
    case True
    then show ?thesis
      using x pages_rebuild [OF at] by (simp add: Let_def concat_put_child)
  next
    case False
    then obtain p ps' where ps: "ps = p # ps'" "grow_pages fs \<le> length ps'"
      using Cons.prems(2) x by (cases ps) auto
    have "mset (pages (grow (x # fs) a m b ps)) = mset (ctxp fs)
        + (add_mset (tid n) (mset (concat (map pages (take (?mid + 1) ?ts)))))
        + (add_mset p (mset (concat (map pages (drop (?mid + 1) ?ts))))) + mset (take (grow_pages fs) ps')"
      using False x ps Cons.IH [OF at ps(2)] by (simp add: Let_def)
    also have "\<dots> = mset (ctxp fs) + add_mset (tid n) (mset (concat (map pages ?ts)))
        + add_mset p (mset (take (grow_pages fs) ps'))"
      by (simp add: concat_take_drop [of pages "?mid + 1" ?ts, symmetric])
    finally show ?thesis using x ps False by (simp add: concat_put_child)
  qed
qed

lemma child_bounds_inside:
  assumes "wf_list lo hi ts ks" "i < length ts" "ge_lo (lowb lo ks i) k" "lt_hi k (highb hi ks i)"
  shows "ge_lo lo k \<and> lt_hi k hi"
proof -
  have len: "length ts = Suc (length ks)" and b: "\<forall>x \<in> set ks. gt_lo lo x \<and> lt_hi x hi"
    using wf_list_length [OF assms(1)] wf_list_keys [OF assms(1)] by auto
  have "ge_lo lo k"
  proof (cases i)
    case (Suc j)
    then have "gt_lo lo (ks ! j)" "ks ! j \<le> k" using assms(2,3) len b by (auto simp: lowb_def)
    then show ?thesis using gt_lo_trans gt_lo_ge by blast
  qed (use assms(3) in simp)
  moreover have "lt_hi k hi"
  proof (cases "i < length ks")
    case True
    then have "lt_hi (ks ! i) hi" "k < ks ! i" using assms(4) b by (auto simp: highb_def)
    then show ?thesis using lt_hi_trans less_imp_le by blast
  qed (use assms(4) in \<open>simp add: highb_def\<close>)
  ultimately show ?thesis by simp
qed

lemma key_outside:
  assumes "wf_tree lo hi root" "at root fs t"
    and "ge_lo (fst (bounds lo hi fs)) k" "lt_hi k (snd (bounds lo hi fs))"
  shows "k \<notin> fst ` set (ctxl contents fs) \<and> k \<notin> fst ` set (ctxr contents fs) \<and> ge_lo lo k \<and> lt_hi k hi"
  using assms
proof (induction fs arbitrary: t)
  case (Cons x fs)
  obtain n i where x: "x = (n, i)" by (cases x)
  then have at: "at root fs n" "is_node n" "i < length (kids n)" using Cons.prems by auto
  have w: "wf_list (fst (bounds lo hi fs)) (snd (bounds lo hi fs)) (kids n) (seps n)"
    using at_wf [OF Cons.prems(1) at(1)] at(2) by (simp add: wf_node)
  have k: "ge_lo (lowb (fst (bounds lo hi fs)) (seps n) i) k" "lt_hi k (highb (snd (bounds lo hi fs)) (seps n) i)"
    using Cons.prems(3,4) x by auto
  note IH = Cons.IH [OF Cons.prems(1) at(1)] child_bounds_inside [OF w at(3) k]
  have o: "(k, v) \<notin> set (contents (kids n ! j))" if "j < length (kids n)" "j \<noteq> i" for j v
    using wf_list_other_child [OF w at(3) that(1) that(2) [symmetric] k] by blast
  have "k \<notin> fst ` set (concat (map contents (take i (kids n))))"
    using o at(3) by (fastforce simp: in_set_conv_nth)
  moreover have "k \<notin> fst ` set (concat (map contents (drop (i + 1) (kids n))))"
    using o at(3) by (fastforce simp: in_set_conv_nth)
  ultimately show ?case using IH x by (auto simp del: set_concat)
qed simp

section \<open>The chain of leaves\<close>

fun linked :: "u64 \<Rightarrow> (u64 \<times> u64) list \<Rightarrow> bool" where
  "linked first [] \<longleftrightarrow> first = rootSentinel"
| "linked first ((i, n) # ls) \<longleftrightarrow> first = i \<and> linked n ls"

lemma linked_split:
  "linked f (xs @ (i, n) # ys) \<Longrightarrow> linked f (xs @ (i, j) # (j, n) # ys)"
  by (induction xs arbitrary: f) auto

lemma leaves_not_Nil: "wf_tree lo hi t \<Longrightarrow> leaves t \<noteq> []" "wf_list lo hi ts ks \<Longrightarrow> concat (map leaves ts) \<noteq> []"
  by (induction lo hi t and lo hi ts ks rule: wf_tree_wf_list.induct) auto

section \<open>Representation\<close>

text \<open>\<open>view\<close> gives the page bodies; a node is represented when its page decodes to it.\<close>

definition node_ok :: "(u64 \<Rightarrow> pager_err + bytes) \<Rightarrow> tree \<Rightarrow> bool" where
  "node_ok view t = (case t of
      Lf i es n \<Rightarrow> \<exists>b. view i = Inr b \<and> decodeLeafNodeRefs b = Inr (map fst es, map (ref_of \<circ> snd) es, n)
    | Nd i ts ks \<Rightarrow> \<exists>b. view i = Inr b \<and> decodeInternalNode b = Inr (map tid ts, ks))"

fun repr :: "(u64 \<Rightarrow> pager_err + bytes) \<Rightarrow> tree \<Rightarrow> bool" where
  "repr view (Lf i es n) \<longleftrightarrow> node_ok view (Lf i es n)"
| "repr view (Nd i ts ks) \<longleftrightarrow> node_ok view (Nd i ts ks) \<and> (\<forall>t \<in> set ts. repr view t)"

lemma repr_node: "repr view t \<Longrightarrow> node_ok view t"
  by (cases t) auto

lemma node_ok_frame: "view' (tid t) = view (tid t) \<Longrightarrow> node_ok view' t = node_ok view t"
  by (cases t) (auto simp: node_ok_def)

lemma tid_in_pages: "tid t \<in> set (pages t)"
  by (cases t) auto

lemma repr_frame: "\<forall>i \<in> set (pages t). view' i = view i \<Longrightarrow> repr view' t = repr view t"
proof (induction t)
  case (Lf i es n)
  then show ?case using node_ok_frame [of view' "Lf i es n" view] by simp
next
  case (Nd i ts ks)
  have "repr view' t = repr view t" if "t \<in> set ts" for t
    by (rule Nd.IH [OF that]) (use Nd.prems that in auto)
  moreover have "node_ok view' (Nd i ts ks) = node_ok view (Nd i ts ks)"
    using Nd.prems by (intro node_ok_frame) simp
  ultimately show ?case by simp
qed

fun sib_ok :: "(u64 \<Rightarrow> pager_err + bytes) \<Rightarrow> pos \<Rightarrow> bool" where
  "sib_ok view [] \<longleftrightarrow> True"
| "sib_ok view ((n, i) # fs) \<longleftrightarrow> node_ok view n
     \<and> (\<forall>t \<in> set (take i (kids n)) \<union> set (drop (i + 1) (kids n)). repr view t) \<and> sib_ok view fs"

lemma sib_ok_frame: "\<forall>i \<in> set (ctxp fs). view' i = view i \<Longrightarrow> sib_ok view' fs = sib_ok view fs"
proof (induction fs)
  case (Cons x fs)
  obtain n i where x: "x = (n, i)" by (cases x)
  have "node_ok view' n = node_ok view n" using Cons.prems x by (intro node_ok_frame) auto
  moreover have "repr view' t = repr view t" if "t \<in> set (take i (kids n)) \<union> set (drop (i + 1) (kids n))" for t
    using Cons.prems x that by (intro repr_frame) auto
  ultimately show ?case using Cons x by auto
qed simp

lemma repr_at:
  assumes "at root fs t" "repr view root"
  shows "sib_ok view fs \<and> repr view t"
  using assms
proof (induction fs arbitrary: t)
  case (Cons x fs)
  obtain n i where x: "x = (n, i)" by (cases x)
  then have n: "is_node n" "i < length (kids n)" "kids n ! i = t" "at root fs n" using Cons.prems by auto
  then have "sib_ok view fs" "repr view n" using Cons.IH Cons.prems(2) by blast+
  then show ?case using n x by (cases n) (auto dest: in_set_takeD in_set_dropD)
qed simp

lemma repr_rebuild:
  assumes "at root fs t" "tid t' = tid t" "sib_ok view fs" "repr view t'"
  shows "repr view (rebuild fs t') \<and> tid (rebuild fs t') = tid root"
  using assms
proof (induction fs arbitrary: t t')
  case (Cons x fs)
  obtain n i where x: "x = (n, i)" by (cases x)
  then have n: "is_node n" "i < length (kids n)" "kids n ! i = t" "at root fs n" using Cons.prems by auto
  let ?n = "Nd (tid n) ((kids n)[i := t']) (seps n)"
  have m: "map tid ((kids n)[i := t']) = map tid (kids n)"
    using n Cons.prems(2) by (simp add: map_update list_update_same_conv)
  have "node_ok view ?n"
    using Cons.prems(3) x n(1) m by (cases n) (auto simp: node_ok_def)
  moreover have "repr view u" if "u \<in> set ((kids n)[i := t'])" for u
    using that Cons.prems(3,4) x n(2) by (auto simp: upd_conv_take_nth_drop)
  ultimately have "repr view ?n" by simp
  then show ?case using Cons.IH [OF n(4), of ?n] Cons.prems(3) x by simp
qed simp

end
