(* ===== verification/Btree_Ops.thy ===== *)
theory Btree_Ops
  imports Btree_Inv
begin

text \<open>
  The tree store implements a finite map: the relation \<open>bt_rep\<close> between a store and the map it
  represents, and for \<open>Open\<close>, \<open>Get\<close>, \<open>Set\<close>, \<open>Delete\<close> and \<open>Scan\<close> the proof that the method
  does on the pages what the operation does on the map.  The pager is used only through the laws
  of \<open>page_store\<close> (the facts \<open>fps\<close>).
\<close>

section \<open>Stores that represent a map\<close>

definition tree_rep :: "(u64 \<Rightarrow> pager_err + bytes) \<Rightarrow> u64 set \<Rightarrow> tree \<Rightarrow> bool" where
  "tree_rep view own t \<longleftrightarrow> wf_tree None None t \<and> repr view t \<and> distinct (pages t) \<and> set (pages t) \<subseteq> own - {2}
     \<and> linked (fst (hd (leaves t))) (leaves t)"

definition bt_rep :: "btreeStore \<Rightarrow> (bytes \<rightharpoonup> bytes) \<Rightarrow> bool" where
  "bt_rep s m \<longleftrightarrow> bt_isOpen s \<and> \<not> bt_closed s \<and> pager_ready (bt_pg s) \<and> 2 \<in> live (bt_pg s)
     \<and> ReadPage None 2 (bt_pg s) = Inr (encodeMetaPage (bt_root s))
     \<and> (bt_root s = rootSentinel \<and> m = Map.empty
        \<or> (\<exists>t. tid t = bt_root s \<and> tree_rep (pager_reads (bt_pg s)) (live (bt_pg s)) t \<and> m = map_of (contents t)))"

lemma pgcall_ok: "f (bt_pg s) = (p, Inr x) \<Longrightarrow> pgcall f s = (s\<lparr>bt_pg := p\<rparr>, Inr x)"
  by (simp add: pgcall_def)

lemma readPage_view: "readPage None i p = Inr b \<longleftrightarrow> ReadPage None i p = Inr b"
  by (auto simp: readPage_def split: sum.splits)

lemma leaf_type: "decodeLeafNodeRefs b = Inr x \<Longrightarrow> b ! 0 = 1"
  by (auto simp: decodeLeafNodeRefs_def split: if_splits)

lemma internal_type: "decodeInternalNode b = Inr x \<Longrightarrow> b ! 0 = 2"
  by (auto simp: decodeInternalNode_def split: if_splits)

lemma leaf_page:
  assumes "node_ok (pager_reads p) (Lf i es n)"
  shows "\<exists>b. readPage None i p = Inr b \<and> b ! 0 = 1
    \<and> decodeLeafNodeRefs b = Inr (map fst es, map (ref_of \<circ> snd) es, n)"
  using assms leaf_type by (auto simp: node_ok_def readPage_view)

lemma internal_page:
  assumes "node_ok (pager_reads p) (Nd i ts ks)"
  shows "\<exists>b. readPage None i p = Inr b \<and> b ! 0 = 2 \<and> decodeInternalNode b = Inr (map tid ts, ks)"
  using assms internal_type by (auto simp: node_ok_def readPage_view)

section \<open>Descending to the leaf of a key\<close>

definition in_bounds :: "pos \<Rightarrow> bytes \<Rightarrow> bool" where
  "in_bounds fs k \<longleftrightarrow> ge_lo (fst (bounds None None fs)) k \<and> lt_hi k (snd (bounds None None fs))"

lemma in_bounds_Nil [simp]: "in_bounds [] k"
  by (simp add: in_bounds_def)

lemma route_in_bounds:
  assumes "wf_tree None None root" "at root fs n" "is_node n" "in_bounds fs k"
  shows "at root ((n, route (seps n) k) # fs) (kids n ! route (seps n) k)
    \<and> in_bounds ((n, route (seps n) k) # fs) k \<and> length (kids n) = Suc (length (seps n))"
proof -
  have w: "wf_list (fst (bounds None None fs)) (snd (bounds None None fs)) (kids n) (seps n)"
    using at_wf [OF assms(1,2)] assms(3) by (simp add: wf_node)
  show ?thesis
    using route_child [OF w, of k] wf_list_length [OF w] assms by (auto simp: in_bounds_def)
qed

lemma descend_induct:
  assumes "wf_tree None None root" "at root fs t" "in_bounds fs k"
    and leaf: "\<And>fs i es n. at root fs (Lf i es n) \<Longrightarrow> in_bounds fs k \<Longrightarrow> Q fs (Lf i es n)"
    and node: "\<And>fs i ts ks. at root fs (Nd i ts ks) \<Longrightarrow> in_bounds fs k \<Longrightarrow> length ts = Suc (length ks)
      \<Longrightarrow> route ks k < length ts \<Longrightarrow> Q ((Nd i ts ks, route ks k) # fs) (ts ! route ks k) \<Longrightarrow> Q fs (Nd i ts ks)"
  shows "Q fs t"
  using assms(2,3)
proof (induction t arbitrary: fs)
  case (Lf i es n)
  then show ?case using leaf by blast
next
  case (Nd i ts ks)
  have r: "at root ((Nd i ts ks, route ks k) # fs) (ts ! route ks k)"
    "in_bounds ((Nd i ts ks, route ks k) # fs) k" "length ts = Suc (length ks)"
    using route_in_bounds [OF assms(1) Nd.prems(1) _ Nd.prems(2)] by simp_all
  have len: "route ks k < length ts" using r(1) by simp
  then have "Q ((Nd i ts ks, route ks k) # fs) (ts ! route ks k)"
    using Nd.IH [of "ts ! route ks k"] r by simp
  then show ?case using node Nd.prems r(3) len by blast
qed

text \<open>Only the leaf at the position of a key can hold the key.\<close>

lemma map_of_at:
  assumes "wf_tree None None root" "at root fs t" "in_bounds fs k"
  shows "map_of (contents root) k = map_of (contents t) k"
proof -
  have "k \<notin> fst ` set (ctxl contents fs)" "k \<notin> fst ` set (ctxr contents fs)"
    using key_outside [OF assms(1,2)] assms(3) by (auto simp: in_bounds_def)
  then have "map_of (ctxl contents fs) k = None" "map_of (ctxr contents fs) k = None"
    by (simp_all add: map_of_eq_None_iff)
  then show ?thesis unfolding contents_at [OF assms(2)] by (simp add: map_add_def split: option.splits)
qed

lemma find_key_cases:
  "(case find_key j (map fst es) k of
      None \<Rightarrow> map_of es k = None
    | Some i \<Rightarrow> j \<le> i \<and> i - j < length es \<and> fst (es ! (i - j)) = k \<and> map_of es k = Some (snd (es ! (i - j))))"
proof (induction es arbitrary: j)
  case (Cons e es)
  have "i - j = Suc (i - Suc j)" if "Suc j \<le> i" for i using that by simp
  then show ?case using Cons.IH [of "Suc j"] by (cases e) (auto split: option.splits)
qed simp

lemma find_key_None: "find_key 0 (map fst es) k = None \<longleftrightarrow> map_of es k = None"
  using find_key_cases [where j = 0 and es = es and k = k] by (auto split: option.splits)

lemma find_key_Some:
  "find_key 0 (map fst es) k = Some i \<Longrightarrow> i < length es \<and> fst (es ! i) = k \<and> map_of es k = Some (snd (es ! i))"
  using find_key_cases [where j = 0 and es = es and k = k] by simp

section \<open>Get\<close>

lemma ref_read_small: "small_value v \<Longrightarrow> ref_read ctx p (ref_of v) = Inr v"
  by (simp add: ref_read_def ref_of_def small_value_def)

definition get_result :: "(bytes \<rightharpoonup> bytes) \<Rightarrow> bytes \<Rightarrow> kv_err + bytes" where
  "get_result m k = (case m k of None \<Rightarrow> Inl ErrKeyNotFound | Some v \<Rightarrow> Inr v)"

lemma kv_search_tree:
  assumes "wf_tree None None root" "repr (pager_reads p) root"
  shows "kv_search None p (tid root) k = Some (get_result (map_of (contents root)) k)"
proof (rule descend_induct [where Q = "\<lambda>fs t. kv_search None p (tid t) k = Some (get_result (map_of (contents root)) k)"
      and fs = "[]", OF assms(1)])
  fix fs i es n
  assume at: "at root fs (Lf i es n)" "in_bounds fs k"
  have "node_ok (pager_reads p) (Lf i es n)" using repr_at [OF at(1) assms(2)] by simp
  from leaf_page [OF this] obtain b where b: "readPage None i p = Inr b" "b ! 0 = 1"
    "decodeLeafNodeRefs b = Inr (map fst es, map (ref_of \<circ> snd) es, n)" by blast
  have m: "map_of (contents root) k = map_of es k" using map_of_at [OF assms(1) at] by simp
  have small: "\<forall>(k, v) \<in> set es. small_value v" using at_wf [OF assms(1) at(1)] by auto
  show "kv_search None p (tid (Lf i es n)) k = Some (get_result (map_of (contents root)) k)"
  proof (cases "find_key 0 (map fst es) k")
    case None
    then show ?thesis
      using b m find_key_None [of es k] by (simp add: kv_search.simps [of None p i] get_result_def)
  next
    case (Some j)
    note j = find_key_Some [OF Some]
    then have "small_value (snd (es ! j))" using small by (metis case_prod_unfold nth_mem)
    then show ?thesis
      using b m j Some by (simp add: kv_search.simps [of None p i] get_result_def ref_read_small)
  qed
next
  fix fs i ts ks
  assume at: "at root fs (Nd i ts ks)" and len: "length ts = Suc (length ks)" "route ks k < length ts"
    and IH: "kv_search None p (tid (ts ! route ks k)) k = Some (get_result (map_of (contents root)) k)"
  have "node_ok (pager_reads p) (Nd i ts ks)" using repr_at [OF at(1) assms(2)] by simp
  from internal_page [OF this] obtain b where b: "readPage None i p = Inr b" "b ! 0 = 2"
    "decodeInternalNode b = Inr (map tid ts, ks)" by blast
  have "upperBound (map tid ts) ks k = tid (ts ! route ks k)"
    using len by (simp add: upperBound_def upperBoundIdx_route)
  then show "kv_search None p (tid (Nd i ts ks)) k = Some (get_result (map_of (contents root)) k)"
    using b IH by (simp add: kv_search.simps [of None p i])
qed simp_all

lemma rootSentinel_eq: "rootSentinel = freeListSentinel"
  by (simp add: rootSentinel_def freeListSentinel_def)

lemma owned_id:
  assumes "pager_ready p" "i \<in> live p"
  shows "i \<noteq> 0" "i \<noteq> rootSentinel"
  using fps.own_ids [of p i] assms by (auto simp: rootSentinel_eq)

lemma tree_rep_root: "pager_ready p \<Longrightarrow> tree_rep view (live p) t \<Longrightarrow> tid t \<noteq> rootSentinel"
  using owned_id(2) [of p "tid t"] tid_in_pages [of t] by (auto simp: tree_rep_def)

section \<open>Rewriting one leaf\<close>

definition bt_on :: "btreeStore \<Rightarrow> tree \<Rightarrow> bool" where
  "bt_on s t \<longleftrightarrow> bt_isOpen s \<and> \<not> bt_closed s \<and> pager_ready (bt_pg s) \<and> 2 \<in> live (bt_pg s)
     \<and> ReadPage None 2 (bt_pg s) = Inr (encodeMetaPage (bt_root s)) \<and> tid t = bt_root s
     \<and> tree_rep (pager_reads (bt_pg s)) (live (bt_pg s)) t"

lemma repr_upd [simp]: "i \<notin> set (pages t) \<Longrightarrow> repr (view(i := x)) t = repr view t"
  by (rule repr_frame) auto

lemma sib_ok_upd [simp]: "i \<notin> set (ctxp fs) \<Longrightarrow> sib_ok (view(i := x)) fs = sib_ok view fs"
  by (rule sib_ok_frame) auto

lemma bt_on_rep: "bt_on s t \<Longrightarrow> bt_rep s (map_of (contents t))"
  by (auto simp: bt_on_def bt_rep_def)

lemma bt_rep_on:
  assumes "bt_rep s m" "bt_root s \<noteq> rootSentinel"
  obtains t where "bt_on s t" "m = map_of (contents t)"
  using assms by (auto simp: bt_on_def bt_rep_def)

lemma bt_rep_empty: "bt_rep s m \<Longrightarrow> bt_root s = rootSentinel \<Longrightarrow> m = Map.empty"
  using tree_rep_root by (fastforce simp: bt_rep_def)

lemma bt_on_root: "bt_on s t \<Longrightarrow> bt_root s \<noteq> rootSentinel"
  using tree_rep_root by (auto simp: bt_on_def)

lemma bt_rep_checkOpen: "bt_rep s m \<Longrightarrow> checkOpen s = None"
  by (simp add: bt_rep_def checkOpen_def)

lemma Get_ok:
  assumes "bt_rep s m"
  shows "kv_Get None k s = Some (get_result m k)"
proof (cases "bt_root s = rootSentinel")
  case True
  then show ?thesis
    using bt_rep_checkOpen [OF assms] bt_rep_empty [OF assms] by (simp add: kv_Get_def get_result_def)
next
  case False
  then obtain t where "bt_on s t" "m = map_of (contents t)" using bt_rep_on [OF assms] by blast
  then show ?thesis
    using bt_rep_checkOpen [OF assms] False kv_search_tree [of t "bt_pg s" k] by (simp add: kv_Get_def bt_on_def tree_rep_def)
qed

lemma bt_on_at:
  assumes "bt_on s root" "at root fs t"
  shows "set (ctxp fs) \<union> set (pages t) \<subseteq> live (bt_pg s) - {2}" "distinct (ctxp fs @ pages t)"
    "sib_ok (pager_reads (bt_pg s)) fs" "repr (pager_reads (bt_pg s)) t"
proof -
  have m: "mset (pages root) = mset (ctxp fs @ pages t)" using pages_at [OF assms(2)] by simp
  show "set (ctxp fs) \<union> set (pages t) \<subseteq> live (bt_pg s) - {2}"
    using mset_eq_setD [OF m] assms(1) by (auto simp: bt_on_def tree_rep_def)
  show "distinct (ctxp fs @ pages t)"
    using mset_eq_imp_distinct_iff [OF m] assms(1) by (simp add: bt_on_def tree_rep_def)
  show "sib_ok (pager_reads (bt_pg s)) fs" "repr (pager_reads (bt_pg s)) t"
    using repr_at [OF assms(2)] assms(1) by (auto simp: bt_on_def tree_rep_def)
qed

lemma map_of_replace:
  assumes "wf_tree None None root" "at root fs (Lf i es n)" "in_bounds fs k" "map_of es' = (map_of es)(k := x)"
  shows "map_of (ctxl contents fs @ es' @ ctxr contents fs) = (map_of (contents root))(k := x)"
proof -
  have "map_of (ctxl contents fs) k = None" "map_of (ctxr contents fs) k = None"
    using key_outside [OF assms(1,2)] assms(3) by (simp_all add: in_bounds_def map_of_eq_None_iff)
  then show ?thesis
    unfolding contents_at [OF assms(2)]
    by (intro ext) (simp add: map_add_def assms(4) split: option.splits)
qed

lemma linked_at:
  assumes "wf_tree None None root" "at root fs (Lf i es n)" "linked (fst (hd (leaves root))) (leaves root)"
  shows "linked (fst (hd (ctxl leaves fs @ (i, n) # ctxr leaves fs))) (ctxl leaves fs @ (i, n) # ctxr leaves fs)"
    "linked (fst (hd (ctxl leaves fs @ (i, j) # (j, n) # ctxr leaves fs))) (ctxl leaves fs @ (i, j) # (j, n) # ctxr leaves fs)"
proof -
  have l: "leaves root = ctxl leaves fs @ (i, n) # ctxr leaves fs" using leaves_at [OF assms(2)] by simp
  show "linked (fst (hd (ctxl leaves fs @ (i, n) # ctxr leaves fs))) (ctxl leaves fs @ (i, n) # ctxr leaves fs)"
    using assms(3) unfolding l .
  then have "linked (fst (hd (ctxl leaves fs @ (i, n) # ctxr leaves fs))) (ctxl leaves fs @ (i, j) # (j, n) # ctxr leaves fs)"
    by (rule linked_split)
  then show "linked (fst (hd (ctxl leaves fs @ (i, j) # (j, n) # ctxr leaves fs))) (ctxl leaves fs @ (i, j) # (j, n) # ctxr leaves fs)"
    by (cases "ctxl leaves fs") auto
qed

lemma write_leaf_tx_no_chain: "write_leaf_tx ctx i body [] v = write_leaf_tx ctx i body [] []"
proof -
  have "chain_or_rollback ctx [] v = chain_or_rollback ctx [] []"
    by (intro ext) (simp add: chain_or_rollback_def write_packed_chain_def)
  then show ?thesis by (intro ext) (simp only: write_leaf_tx_def)
qed

lemma write_leaf_tx_ok:
  assumes "pager_ready (bt_pg s)" "i \<in> live (bt_pg s)" "length body = 4084"
  shows "\<exists>p. write_leaf_tx None i body [] v s = (s\<lparr>bt_pg := p\<rparr>, Inr ())
    \<and> fps.at_rest (bt_pg s) ((pager_reads (bt_pg s))(i := Inr body)) p"
  using fps.tx_one_page [OF assms]
  by (auto simp: write_leaf_tx_def chain_or_rollback_def write_packed_chain_def pgcall_def)

lemma leaf_encodes:
  assumes "wf_tree lo hi (Lf i es n)"
  shows "\<exists>body. encodeLeafNode (map fst es) (map snd es) n' = Inr body \<and> length body = 4084 \<and> body ! 0 = 1
    \<and> decodeLeafNodeRefs body = Inr (map fst es, map (ref_of \<circ> snd) es, n')"
proof -
  have "leaf_values_ok (map snd es)" "\<forall>k \<in> set (map fst es). key_fits k"
    using assms by (auto simp: leaf_values_ok_def)
  then show ?thesis using leaf_roundtrip [of "map fst es" "map snd es" n'] assms by simp
qed

lemma leaf_decodes:
  assumes "wf_tree lo hi (Lf i es n)"
    and "decodeLeafNodeRefs b = Inr (map fst es, map (ref_of \<circ> snd) es, n)"
  shows "decodeLeafNode b = Inr (map fst es, map snd es, n)"
proof -
  have "map ref_value (map (ref_of \<circ> snd) es) = map snd es" using assms(1) ref_of_small by auto
  then show ?thesis using assms(2) by (simp add: decodeLeafNode_def)
qed

lemma leaf_replaced:
  assumes s: "bt_on s root" and at: "at root fs (Lf i es n)" and w: "bwf None None fs (Lf i es' n)"
  shows "\<exists>body p. encodeLeafNode (map fst es') (map snd es') n = Inr body
    \<and> (\<forall>v. write_leaf_tx None i body [] v s = (s\<lparr>bt_pg := p\<rparr>, Inr ()))
    \<and> bt_on (s\<lparr>bt_pg := p\<rparr>) (rebuild fs (Lf i es' n)) \<and> live p = live (bt_pg s) \<and> room p = room (bt_pg s)"
proof -
  obtain body where b: "encodeLeafNode (map fst es') (map snd es') n = Inr body" "length body = 4084"
    "decodeLeafNodeRefs body = Inr (map fst es', map (ref_of \<circ> snd) es', n)"
    using leaf_encodes [OF w] by blast
  note o = bt_on_at [OF s at]
  have i: "i \<in> live (bt_pg s)" "i \<noteq> 2" "i \<notin> set (ctxp fs)" using o(1,2) by auto
  have r: "pager_ready (bt_pg s)" using s by (simp add: bt_on_def)
  let ?view = "(pager_reads (bt_pg s))(i := Inr body)"
  obtain p where p: "write_leaf_tx None i body [] [] s = (s\<lparr>bt_pg := p\<rparr>, Inr ())" "fps.at_rest (bt_pg s) ?view p"
    using write_leaf_tx_ok [OF r i(1) b(2)] by blast
  have any: "write_leaf_tx None i body [] v s = (s\<lparr>bt_pg := p\<rparr>, Inr ())" for v
    using p(1) write_leaf_tx_no_chain by metis
  have p': "pager_ready p" "live p = live (bt_pg s)" "room p = room (bt_pg s)" "pager_reads p = ?view"
    using p(2) by (auto simp: fps.at_rest_def)
  have "sib_ok ?view fs" using o(3) i(3) by simp
  moreover have "repr ?view (Lf i es' n)" using b(3) by (simp add: node_ok_def)
  ultimately have rb: "repr ?view (rebuild fs (Lf i es' n))" "tid (rebuild fs (Lf i es' n)) = tid root"
    using repr_rebuild [OF at, of "Lf i es' n"] by auto
  have rt: "wf_tree None None root" "linked (fst (hd (leaves root))) (leaves root)"
    using s by (auto simp: bt_on_def tree_rep_def)
  have m: "mset (pages (rebuild fs (Lf i es' n))) = mset (pages root)"
    using pages_rebuild [OF at] pages_at [OF at] by simp
  have lv: "leaves (rebuild fs (Lf i es' n)) = ctxl leaves fs @ (i, n) # ctxr leaves fs"
    using flat_rebuild [of leaves, OF _ at, of "Lf i es' n"] by simp
  have "tree_rep ?view (live (bt_pg s)) (rebuild fs (Lf i es' n))"
    using rebuild_wf [OF rt(1) at w] rb(1) linked_at(1) [OF rt(1) at rt(2)] mset_eq_setD [OF m] mset_eq_imp_distinct_iff [OF m] s
    by (simp add: tree_rep_def lv bt_on_def)
  moreover have "ReadPage None 2 p = ReadPage None 2 (bt_pg s)" using fun_cong [OF p'(4), of 2] i(2) by simp
  ultimately have "bt_on (s\<lparr>bt_pg := p\<rparr>) (rebuild fs (Lf i es' n))"
    using s p' rb(2) by (simp add: bt_on_def)
  then show ?thesis using b(1) any p' by blast
qed

section \<open>Entries of a leaf\<close>

fun ins :: "bytes \<Rightarrow> bytes \<Rightarrow> (bytes \<times> bytes) list \<Rightarrow> (bytes \<times> bytes) list" where
  "ins k v [] = [(k, v)]"
| "ins k v (e # es) = (if fst e < k then e # ins k v es else (k, v) # e # es)"

lemma insert_pos_ins:
  "take (insert_pos (map fst es) k) es @ (k, v) # drop (insert_pos (map fst es) k) es = ins k v es"
  by (induction es) auto

lemma insert_pos_cols:
  "take (insert_pos (map fst es) k) (map fst es) @ k # drop (insert_pos (map fst es) k) (map fst es) = map fst (ins k v es)"
  "take (insert_pos (map fst es) k) (map snd es) @ v # drop (insert_pos (map fst es) k) (map snd es) = map snd (ins k v es)"
  by (simp_all add: insert_pos_ins [symmetric] take_map drop_map)

lemma merge_new_True: "merge_new k v True es = es"
  by (induction es) auto

lemma merge_new_ins: "k \<notin> fst ` set es \<Longrightarrow> merge_new k v False es = ins k v es"
  by (induction es) (auto simp: merge_new_True linorder_not_less order_le_less)

lemma ins_set [simp]: "set (ins k v es) = insert (k, v) (set es)"
  by (induction es) auto

lemma ins_length [simp]: "length (ins k v es) = Suc (length es)"
  by (induction es) auto

lemma ins_sorted: "sorted_wrt (<) (map fst es) \<Longrightarrow> k \<notin> fst ` set es \<Longrightarrow> sorted_wrt (<) (map fst (ins k v es))"
proof (induction es)
  case (Cons e es)
  show ?case
  proof (cases "fst e < k")
    case False
    then have "k < fst e" using Cons.prems by (auto simp: linorder_not_less order_le_less)
    then show ?thesis using False Cons.prems by (auto intro: order.strict_trans)
  qed (use Cons in auto)
qed simp

lemma ins_map_of: "k \<notin> fst ` set es \<Longrightarrow> map_of (ins k v es) = (map_of es)(k \<mapsto> v)"
  by (induction es) (auto simp: fun_upd_twist)

lemma upd_map_of:
  "distinct (map fst es) \<Longrightarrow> j < length es \<Longrightarrow> fst (es ! j) = k \<Longrightarrow> map_of (es[j := (k, v)]) = (map_of es)(k \<mapsto> v)"
proof (induction es arbitrary: j)
  case (Cons e es)
  then show ?case
  proof (cases j)
    case (Suc i)
    then have "fst e \<noteq> k" using Cons.prems by (metis distinct.simps(2) length_Cons length_map list.simps(9) nth_Cons_Suc nth_map nth_mem Suc_less_eq)
    then show ?thesis using Suc Cons by (auto simp: fun_eq_iff)
  qed (cases e, auto)
qed simp

lemma upd_cols:
  assumes "j < length es" "fst (es ! j) = k"
  shows "map fst (es[j := (k, v)]) = map fst es" "map snd (es[j := (k, v)]) = (map snd es)[j := v]"
  using assms by (auto simp: map_update list_update_same_conv)

lemma remove_map_of:
  "distinct (map fst es) \<Longrightarrow> j < length es \<Longrightarrow> fst (es ! j) = k
   \<Longrightarrow> map_of (take j es @ drop (Suc j) es) = (map_of es)(k := None)"
proof (induction es arbitrary: j)
  case (Cons e es)
  then show ?case
  proof (cases j)
    case 0
    then have "map_of es k = None" using Cons.prems by (cases e) (auto simp: map_of_eq_None_iff)
    then show ?thesis using 0 Cons.prems by (cases e) auto
  next
    case (Suc i)
    then have "fst e \<noteq> k" using Cons.prems by (metis distinct.simps(2) length_Cons length_map list.simps(9) nth_Cons_Suc nth_map nth_mem Suc_less_eq)
    then show ?thesis using Suc Cons by (auto simp: fun_eq_iff)
  qed
qed simp

lemma sorted_wrt_remove: "sorted_wrt P xs \<Longrightarrow> sorted_wrt P (take j xs @ drop (Suc j) xs)"
proof (induction xs arbitrary: j)
  case (Cons x xs)
  then show ?case by (cases j) (auto dest: in_set_takeD in_set_dropD)
qed simp

lemma strict_distinct: "sorted_wrt (<) (xs :: bytes list) \<Longrightarrow> distinct xs"
  by (simp add: strict_sorted_iff)

section \<open>Depth\<close>

fun depth :: "tree \<Rightarrow> nat" where
  "depth (Lf i es n) = 0"
| "depth (Nd i ts ks) = Suc (Max (insert 0 (depth ` set ts)))"

lemma depth_Nd_le: "depth (Nd i ts ks) \<le> Suc d \<longleftrightarrow> (\<forall>t \<in> set ts. depth t \<le> d)"
  by simp

lemma depth_kid: "is_node n \<Longrightarrow> t \<in> set (kids n) \<Longrightarrow> Suc (depth t) \<le> depth n"
  by (cases n) auto

lemma depth_at: "at root fs t \<Longrightarrow> depth t + length fs \<le> depth root"
proof (induction fs arbitrary: t)
  case (Cons x fs)
  obtain n i where x: "x = (n, i)" by (cases x)
  then have "at root fs n" "Suc (depth t) \<le> depth n" using Cons.prems depth_kid [of n t] by auto
  then show ?case using Cons.IH by fastforce
qed simp

lemma depth_rebuild:
  "at root fs t \<Longrightarrow> depth t' \<le> d \<Longrightarrow> d + length fs \<le> depth root \<Longrightarrow> depth (rebuild fs t') \<le> depth root"
proof (induction fs arbitrary: t t' d)
  case (Cons x fs)
  obtain n i where x: "x = (n, i)" by (cases x)
  then have n: "at root fs n" "is_node n" using Cons.prems by auto
  let ?d = "max (Suc d) (depth n)"
  have "depth u \<le> ?d - 1" if u: "u \<in> set ((kids n)[i := t'])" for u
    using set_update_subset_insert [of "kids n" i t'] u depth_kid [OF n(2), of u] Cons.prems(2) by fastforce
  then have "depth (Nd (tid n) ((kids n)[i := t']) (seps n)) \<le> Suc (?d - 1)" unfolding depth_Nd_le by blast
  moreover have "Suc (?d - 1) = ?d" "?d + length fs \<le> depth root" using Cons.prems(3) depth_at [OF n(1)] by auto
  ultimately show ?case using Cons.IH [OF n(1), of _ ?d] x by simp
qed simp

lemma depth_grow:
  "at root fs t \<Longrightarrow> depth a \<le> d \<Longrightarrow> depth b \<le> d \<Longrightarrow> d + length fs \<le> depth root
   \<Longrightarrow> depth (grow fs a m b ps) \<le> Suc (depth root)"
proof (induction fs arbitrary: t a m b ps d)
  case Nil
  then show ?case by simp
next
  case (Cons x fs)
  obtain n i where x: "x = (n, i)" by (cases x)
  then have n: "at root fs n" "is_node n" using Cons.prems by auto
  let ?d = "max (Suc d) (depth n)" and ?ts = "put_child i a b (kids n)"
  have u: "depth u \<le> ?d - 1" if u: "u \<in> set ?ts" for u
  proof -
    have "u = a \<or> u = b \<or> u \<in> set (kids n)"
      using u by (auto simp: put_child_def dest: in_set_takeD in_set_dropD)
    then show ?thesis using depth_kid [OF n(2), of u] Cons.prems(2,3) by auto
  qed
  have d: "depth (Nd j us ks) \<le> ?d" if "set us \<subseteq> set ?ts" for j us ks
  proof -
    have "depth (Nd j us ks) \<le> Suc (?d - 1)" unfolding depth_Nd_le using u that by blast
    then show ?thesis by simp
  qed
  have l: "?d + length fs \<le> depth root" using Cons.prems(4) depth_at [OF n(1)] by auto
  show ?case
  proof (cases "length (seps n) < 56")
    case True
    then show ?thesis using depth_rebuild [OF n(1) d [OF order_refl] l] x by (simp add: Let_def le_SucI del: depth.simps)
  next
    case False
    then show ?thesis
      using Cons.IH [OF n(1) d d l] set_take_subset [of _ ?ts] set_drop_subset [of _ ?ts] x by (simp add: Let_def del: depth.simps)
  qed
qed

lemma depth_pages: "depth t \<le> length (pages t)"
proof (induction t)
  case (Nd i ts ks)
  have "depth t \<le> length (concat (map pages ts))" if t: "t \<in> set ts" for t
  proof -
    have "length (pages t) \<le> sum_list (map (length \<circ> pages) ts)" using t by (intro member_le_sum_list) auto
    then show ?thesis using Nd.IH [OF t] by (simp add: length_concat comp_def)
  qed
  then show ?case by simp
qed simp

lemma depth_live:
  assumes "bt_on s root"
  shows "depth root \<le> card (live (bt_pg s))"
proof -
  have "depth root \<le> length (pages root)" by (rule depth_pages)
  also have "\<dots> = card (set (pages root))" using assms by (simp add: bt_on_def tree_rep_def distinct_card)
  also have "\<dots> \<le> card (live (bt_pg s))" using assms by (intro card_mono) (auto simp: bt_on_def tree_rep_def)
  finally show ?thesis .
qed

section \<open>Splitting\<close>

definition path_of :: "pos \<Rightarrow> pathEntry list" where
  "path_of fs = map (\<lambda>(n, i). \<lparr>pe_pageID = tid n, pe_childIdx = i, pe_keys = seps n, pe_childPtrs = map tid (kids n)\<rparr>) fs"

lemma path_of_simps [simp]: "path_of [] = []" "length (path_of fs) = length fs"
  "path_of ((n, i) # fs) = \<lparr>pe_pageID = tid n, pe_childIdx = i, pe_keys = seps n, pe_childPtrs = map tid (kids n)\<rparr> # path_of fs"
  by (simp_all add: path_of_def)

lemma alloc_pages_ok:
  assumes "pager_ready (bt_pg s)" "n \<le> room (bt_pg s)"
  shows "\<exists>p ids. alloc_pages n None s = (s\<lparr>bt_pg := p\<rparr>, Inr ids) \<and> pager_ready p \<and> length ids = n
    \<and> distinct ids \<and> set ids \<inter> live (bt_pg s) = {} \<and> live p = live (bt_pg s) \<union> set ids
    \<and> (\<forall>i \<in> live (bt_pg s). ReadPage None i p = ReadPage None i (bt_pg s)) \<and> room p = room (bt_pg s) - n"
  using assms
proof (induction n arbitrary: s)
  case 0
  have "s = s\<lparr>bt_pg := bt_pg s\<rparr>" by simp
  then show ?case using 0 by (intro exI [of _ "bt_pg s"] exI [of _ "[]"]) simp
next
  case (Suc n)
  obtain p i where p: "AllocatePage None (bt_pg s) = (p, Inr i)" "pager_ready p" "i \<notin> live (bt_pg s)"
    "live p = insert i (live (bt_pg s))" "room p = room (bt_pg s) - 1"
    "pager_reads p = (pager_reads (bt_pg s))(i := Inr (zero_bytes 4084))"
    using fps.alloc_law [OF Suc.prems(1)] Suc.prems(2) by auto
  have "n \<le> room (bt_pg (s\<lparr>bt_pg := p\<rparr>))" using p(5) Suc.prems(2) by simp
  from Suc.IH [OF _ this] obtain q ids where
    q: "alloc_pages n None (s\<lparr>bt_pg := p\<rparr>) = (s\<lparr>bt_pg := q\<rparr>, Inr ids)" "pager_ready q" "length ids = n" "distinct ids"
    "set ids \<inter> live p = {}" "live q = live p \<union> set ids" "\<forall>i \<in> live p. ReadPage None i q = ReadPage None i p"
    "room q = room p - n"
    using p(2) by auto
  have a: "alloc_pages (Suc n) None s = (s\<lparr>bt_pg := q\<rparr>, Inr (i # ids))"
    using pgcall_ok [of "AllocatePage None" s, OF p(1)] q(1) by simp
  have v: "\<forall>j \<in> live (bt_pg s). ReadPage None j q = ReadPage None j (bt_pg s)"
    using q(7) p(3,4) fun_cong [OF p(6)] by fastforce
  have "distinct (i # ids)" "set (i # ids) \<inter> live (bt_pg s) = {}" "live q = live (bt_pg s) \<union> set (i # ids)"
    using q(4-6) p(3,4) by auto
  then show ?case using a v q(2,3,8) p(5) by (intro exI [of _ q] exI [of _ "i # ids"]) simp
qed

lemma write_internal:
  assumes "fps.in_tx base view (bt_pg s)" "i \<in> live base"
    and "length cs = length ks + 1" "length ks \<le> 56" "sorted_wrt (<) ks" "\<forall>k \<in> set ks. key_fits k"
  shows "\<exists>body u. encodeInternalNode cs ks = Inr body \<and> decodeInternalNode body = Inr (cs, ks)
    \<and> pgcall (WritePage None i body) s = (s\<lparr>bt_pg := u\<rparr>, Inr ()) \<and> fps.in_tx base (view(i := Inr body)) u"
proof -
  obtain body where b: "encodeInternalNode cs ks = Inr body" "length body = 4084" "decodeInternalNode body = Inr (cs, ks)"
    using internal_roundtrip [OF assms(3-6)] by blast
  obtain u where "WritePage None i body (bt_pg s) = (u, Inr ())" "fps.in_tx base (view(i := Inr body)) u"
    using fps.tx_write [OF assms(1,2) b(2)] by blast
  then show ?thesis using b pgcall_ok [of "WritePage None i body" s] by blast
qed

lemma write_leaf:
  assumes "fps.in_tx base view (bt_pg s)" "i \<in> live base" "wf_tree lo hi (Lf i es n)"
  shows "\<exists>body u. encodeLeafNode (map fst es) (map snd es) n = Inr body
    \<and> pgcall (WritePage None i body) s = (s\<lparr>bt_pg := u\<rparr>, Inr ()) \<and> fps.in_tx base (view(i := Inr body)) u
    \<and> decodeLeafNodeRefs body = Inr (map fst es, map (ref_of \<circ> snd) es, n)"
proof -
  obtain body where b: "encodeLeafNode (map fst es) (map snd es) n = Inr body" "length body = 4084"
    "decodeLeafNodeRefs body = Inr (map fst es, map (ref_of \<circ> snd) es, n)"
    using leaf_encodes [OF assms(3)] by blast
  obtain u where "WritePage None i body (bt_pg s) = (u, Inr ())" "fps.in_tx base (view(i := Inr body)) u"
    using fps.tx_write [OF assms(1,2) b(2)] by blast
  then show ?thesis using b pgcall_ok [of "WritePage None i body" s] by blast
qed

lemma new_root_ok:
  assumes tx: "fps.in_tx base view (bt_pg s)" and base: "pager_ready base"
    and ids: "set (q # pages a @ pages b) \<subseteq> live base" "2 \<in> live base" "2 \<notin> set (q # pages a @ pages b)"
    and d: "q \<notin> set (pages a @ pages b)" and r: "repr view a" "repr view b" and k: "key_fits m"
  shows "\<exists>p view'. newRootNode None (tid a) (tid b) m (q # ps) s = (s\<lparr>bt_pg := p\<rparr>, Inr q)
    \<and> fps.in_tx base view' p \<and> repr view' (Nd q [a, b] [m]) \<and> view' 2 = Inr (encodeMetaPage q) \<and> q \<noteq> 0"
proof -
  obtain body u where b: "encodeInternalNode [tid a, tid b] [m] = Inr body"
    "decodeInternalNode body = Inr ([tid a, tid b], [m])"
    "pgcall (WritePage None q body) s = (s\<lparr>bt_pg := u\<rparr>, Inr ())" "fps.in_tx base (view(q := Inr body)) u"
    using write_internal [OF tx, of q "[tid a, tid b]" "[m]"] ids(1) k by auto
  let ?view = "view(q := Inr body, 2 := Inr (encodeMetaPage q))"
  obtain w where w: "WritePage None 2 (encodeMetaPage q) u = (w, Inr ())" "fps.in_tx base ?view w"
    using fps.tx_write [OF b(4) ids(2), of "encodeMetaPage q"] by auto
  have "newRootNode None (tid a) (tid b) m (q # ps) s = (s\<lparr>bt_pg := w\<rparr>, Inr q)"
    using b(1,3) w(1) by (simp add: newRootNode_def pgcall_ok [of "WritePage None 2 (encodeMetaPage q)"])
  moreover have "repr ?view a" "repr ?view b"
    using r ids(3) d by simp_all
  moreover have "node_ok ?view (Nd q [a, b] [m])" using b(2) ids(3) by (simp add: node_ok_def)
  moreover have "q \<noteq> 0" using fps.own_ids [of base q] base ids(1) by auto
  ultimately show ?thesis using w(2) by (intro exI [of _ w] exI [of _ ?view]) simp
qed

lemma siblings_repr:
  assumes "sib_ok view ((n, i) # fs)" "repr view a" "repr view b" "t \<in> set (put_child i a b (kids n))"
  shows "repr view t"
  using assms by (auto simp: put_child_def)

lemma map_put_child: "map f (put_child i a b ts) = put_child i (f a) (f b) (map f ts)"
  by (simp add: put_child_def take_map drop_map)

lemma put_child_pages: "set (concat (map pages (put_child i a b (kids n)))) \<subseteq> set (ctxp ((n, i) # fs)) \<union> set (pages a) \<union> set (pages b)"
  by (simp add: concat_put_child) blast

text \<open>The pages that the position, the two halves and the new numbers use.\<close>

definition split_room :: "filePager \<Rightarrow> pos \<Rightarrow> tree \<Rightarrow> tree \<Rightarrow> u64 list \<Rightarrow> bool" where
  "split_room base fs a b ps \<longleftrightarrow> distinct (ctxp fs @ pages a @ pages b @ ps)
     \<and> set (ctxp fs @ pages a @ pages b @ ps) \<subseteq> live base - {2} \<and> grow_pages fs \<le> length ps
     \<and> 2 \<in> live base \<and> pager_ready base"

lemma split_room_up:
  assumes "split_room base ((n, i) # fs) a b (q # ps)" "\<not> length (seps n) < 56"
    and ts: "ts = put_child i a b (kids n)"
  shows "split_room base fs (Nd (tid n) (take j ts) ks) (Nd q (drop j ts) ks') ps"
proof -
  have m: "mset (ctxp fs @ pages (Nd (tid n) (take j ts) ks) @ pages (Nd q (drop j ts) ks') @ ps)
      = mset (ctxp ((n, i) # fs) @ pages a @ pages b @ q # ps)"
    using arg_cong [OF concat_take_drop [of pages j ts], of mset] unfolding ts concat_put_child by simp
  show ?thesis
    using assms(1,2) mset_eq_setD [OF m] mset_eq_imp_distinct_iff [OF m] unfolding split_room_def by simp
qed

lemma parent_in_place:
  assumes tx: "fps.in_tx base view (bt_pg s)" and room: "split_room base ((n, i) # fs) a b ps"
    and r: "sib_ok view ((n, i) # fs)" "repr view a" "repr view b" and at: "at root fs n"
    and w: "wf_list lo hi (put_child i a b (kids n)) (put_sep i m (seps n))"
      "\<forall>k \<in> set (put_sep i m (seps n)). key_fits k" "length (put_sep i m (seps n)) \<le> 56"
  shows "\<exists>p view'. insertIntoInternal None (tid n) (seps n) (map tid (kids n)) i (tid a) (tid b) m s = (s\<lparr>bt_pg := p\<rparr>, Inr ())
    \<and> fps.in_tx base view' p \<and> view' 2 = view 2
    \<and> repr view' (rebuild fs (Nd (tid n) (put_child i a b (kids n)) (put_sep i m (seps n))))
    \<and> tid (rebuild fs (Nd (tid n) (put_child i a b (kids n)) (put_sep i m (seps n)))) = tid root"
proof -
  let ?ts = "put_child i a b (kids n)" and ?ks = "put_sep i m (seps n)"
  have n: "tid n \<in> live base" "tid n \<noteq> 2" "tid n \<notin> set (ctxp fs) \<union> set (concat (map pages ?ts))"
    using room put_child_pages [of i a b n fs] by (auto simp: split_room_def concat_put_child)
  obtain body u where b: "encodeInternalNode (map tid ?ts) ?ks = Inr body" "decodeInternalNode body = Inr (map tid ?ts, ?ks)"
    "pgcall (WritePage None (tid n) body) s = (s\<lparr>bt_pg := u\<rparr>, Inr ())" "fps.in_tx base (view(tid n := Inr body)) u"
    using write_internal [OF tx n(1), of "map tid ?ts" ?ks] wf_list_length [OF w(1)] wf_list_keys [OF w(1)] w(2,3) by auto
  let ?view = "view(tid n := Inr body)"
  have "repr ?view t" if t: "t \<in> set ?ts" for t
    using siblings_repr [OF r t] n(3) t by auto
  moreover have "node_ok ?view (Nd (tid n) ?ts ?ks)" using b(2) by (simp add: node_ok_def)
  moreover have "sib_ok ?view fs" using r(1) n(3) by simp
  ultimately have "repr ?view (rebuild fs (Nd (tid n) ?ts ?ks)) \<and> tid (rebuild fs (Nd (tid n) ?ts ?ks)) = tid root"
    using repr_rebuild [OF at, of "Nd (tid n) ?ts ?ks" ?view] by simp
  moreover have "insertIntoInternal None (tid n) (seps n) (map tid (kids n)) i (tid a) (tid b) m s = (s\<lparr>bt_pg := u\<rparr>, Inr ())"
    using b(1,3) by (simp add: insertIntoInternal_def Let_def map_put_child) (simp add: put_child_def put_sep_def)
  ultimately show ?thesis using b(4) n(2) by (intro exI [of _ u] exI [of _ ?view]) simp
qed

lemma parent_split:
  assumes tx: "fps.in_tx base view (bt_pg s)" and room: "split_room base ((n, i) # fs) a b (q # ps)"
    and r: "sib_ok view ((n, i) # fs)" "repr view a" "repr view b" and full: "\<not> length (seps n) < 56"
    and w: "wf_list lo hi (put_child i a b (kids n)) (put_sep i m (seps n))"
      "\<forall>k \<in> set (put_sep i m (seps n)). key_fits k" "length (put_sep i m (seps n)) = 57"
  shows "\<exists>p view'. splitInternal None (tid n) (seps n) (map tid (kids n)) i (tid a) (tid b) m (q # ps) s
      = (s\<lparr>bt_pg := p\<rparr>, Inr (q, put_sep i m (seps n) ! 28, ps))
    \<and> fps.in_tx base view' p \<and> view' 2 = view 2 \<and> sib_ok view' fs
    \<and> repr view' (Nd (tid n) (take 29 (put_child i a b (kids n))) (take 28 (put_sep i m (seps n))))
    \<and> repr view' (Nd q (drop 29 (put_child i a b (kids n))) (drop 29 (put_sep i m (seps n))))"
proof -
  let ?ts = "put_child i a b (kids n)" and ?ks = "put_sep i m (seps n)"
  have len: "length ?ts = 58" and srt: "sorted_wrt (<) ?ks"
    using wf_list_length [OF w(1)] wf_list_keys [OF w(1)] w(3) by auto
  have n: "tid n \<in> live base" "tid n \<noteq> 2" "tid n \<notin> set (ctxp fs) \<union> set (concat (map pages ?ts))"
    and q: "q \<in> live base" "q \<noteq> 2" "q \<noteq> tid n" "q \<notin> set (ctxp fs) \<union> set (concat (map pages ?ts))"
    using room put_child_pages [of i a b n fs] by (auto simp: split_room_def concat_put_child)
  obtain lb u where l: "encodeInternalNode (map tid (take 29 ?ts)) (take 28 ?ks) = Inr lb"
    "decodeInternalNode lb = Inr (map tid (take 29 ?ts), take 28 ?ks)"
    "pgcall (WritePage None (tid n) lb) s = (s\<lparr>bt_pg := u\<rparr>, Inr ())" "fps.in_tx base (view(tid n := Inr lb)) u"
    using write_internal [OF tx n(1), of "map tid (take 29 ?ts)" "take 28 ?ks"] len w(2,3) srt
    by (auto dest: in_set_takeD simp: sorted_wrt_take)
  obtain rb v where v: "encodeInternalNode (map tid (drop 29 ?ts)) (drop 29 ?ks) = Inr rb"
    "decodeInternalNode rb = Inr (map tid (drop 29 ?ts), drop 29 ?ks)"
    "pgcall (WritePage None q rb) (s\<lparr>bt_pg := u\<rparr>) = (s\<lparr>bt_pg := v\<rparr>, Inr ())"
    "fps.in_tx base (view(tid n := Inr lb, q := Inr rb)) v"
    using write_internal [of base "view(tid n := Inr lb)" "s\<lparr>bt_pg := u\<rparr>" q "map tid (drop 29 ?ts)" "drop 29 ?ks"] l(4) q(1) len w(2,3) srt
    by (auto dest: in_set_dropD simp: sorted_wrt_drop)
  let ?view = "view(tid n := Inr lb, q := Inr rb)"
  have t: "repr ?view t" if t: "t \<in> set ?ts" for t
    using siblings_repr [OF r t] n(3) q(4) t by auto
  have "node_ok ?view (Nd (tid n) (take 29 ?ts) (take 28 ?ks))" "node_ok ?view (Nd q (drop 29 ?ts) (drop 29 ?ks))"
    using l(2) v(2) q(3) by (simp_all add: node_ok_def)
  then have "repr ?view (Nd (tid n) (take 29 ?ts) (take 28 ?ks))" "repr ?view (Nd q (drop 29 ?ts) (drop 29 ?ks))"
    using t by (auto dest: in_set_takeD in_set_dropD)
  moreover have "splitInternal None (tid n) (seps n) (map tid (kids n)) i (tid a) (tid b) m (q # ps) s
      = (s\<lparr>bt_pg := v\<rparr>, Inr (q, ?ks ! 28, ps))"
    using l(1,3) v(1,3) w(3)
    unfolding take_map [symmetric] drop_map [symmetric] map_put_child
    by (simp add: splitInternal_def Let_def put_child_def [symmetric] put_sep_def [symmetric, simplified] put_child_def [symmetric, simplified])
  moreover have "sib_ok ?view fs" using r(1) n(3) q(4) by simp
  ultimately show ?thesis using v(4) n(2) q(2) by (intro exI [of _ v] exI [of _ ?view]) simp
qed

lemma insertIntoParent_ok:
  assumes "wf_tree None None root" "at root fs t" "key_fits m"
    and "wf_tree (fst (bounds None None fs)) (Some m) a" "wf_tree (Some m) (snd (bounds None None fs)) b"
    and "gt_lo (fst (bounds None None fs)) m" "lt_hi m (snd (bounds None None fs))"
    and "split_room base fs a b ps" "sib_ok view fs" "repr view a" "repr view b" "fps.in_tx base view (bt_pg s)"
  shows "\<exists>r p view'. insertIntoParent None (path_of fs) (tid a) (tid b) m ps s = (s\<lparr>bt_pg := p\<rparr>, Inr r)
    \<and> fps.in_tx base view' p \<and> repr view' (grow fs a m b ps)
    \<and> (if r = 0 then view' 2 = view 2 \<and> tid (grow fs a m b ps) = tid root
       else view' 2 = Inr (encodeMetaPage r) \<and> tid (grow fs a m b ps) = r)"
  using assms
proof (induction fs arbitrary: t a m b ps view s)
  case Nil
  then obtain q ps' where q: "ps = q # ps'" by (cases ps) (auto simp: split_room_def)
  have "\<exists>p view'. newRootNode None (tid a) (tid b) m (q # ps') s = (s\<lparr>bt_pg := p\<rparr>, Inr q)
      \<and> fps.in_tx base view' p \<and> repr view' (Nd q [a, b] [m]) \<and> view' 2 = Inr (encodeMetaPage q) \<and> q \<noteq> 0"
    using Nil.prems q by (intro new_root_ok) (auto simp: split_room_def)
  then show ?case using q by fastforce
next
  case (Cons f fs)
  obtain n i where f: "f = (n, i)" by (cases f)
  then have at: "at root fs n" "is_node n" "i < length (kids n)" "kids n ! i = t" using Cons.prems by auto
  have n: "bwf None None fs n" using at_wf [OF Cons.prems(1) at(1)] .
  have t: "bwf None None ((n, i) # fs) (kids n ! i)" using at_wf [OF Cons.prems(1,2)] f at(4) by simp
  let ?ts = "put_child i a b (kids n)" and ?ks = "put_sep i m (seps n)"
  have w: "wf_list (fst (bounds None None fs)) (snd (bounds None None fs)) ?ts ?ks"
    "length ?ks = Suc (length (seps n))" "\<forall>k \<in> set ?ks. key_fits k"
    using node_split [OF n at(2,3) Cons.prems(3) t, of a b] Cons.prems(4-7) f by auto
  show ?case
  proof (cases "length (seps n) < 56")
    case True
    then obtain p view' where "insertIntoInternal None (tid n) (seps n) (map tid (kids n)) i (tid a) (tid b) m s = (s\<lparr>bt_pg := p\<rparr>, Inr ())"
      "fps.in_tx base view' p" "view' 2 = view 2" "repr view' (rebuild fs (Nd (tid n) ?ts ?ks))"
      "tid (rebuild fs (Nd (tid n) ?ts ?ks)) = tid root"
      using parent_in_place [OF Cons.prems(12) Cons.prems(8-11) [unfolded f] at(1) w(1,3)] w(2) by auto
    then show ?thesis using True f by (intro exI [of _ 0] exI [of _ p] exI [of _ view']) (simp add: Let_def)
  next
    case False
    then have len: "length ?ks = 57" using n at(2) w(2) by (simp add: wf_node)
    obtain q ps' where q: "ps = q # ps'" using Cons.prems(8) f False by (cases ps) (auto simp: split_room_def)
    let ?l = "Nd (tid n) (take 29 ?ts) (take 28 ?ks)" and ?r = "Nd q (drop 29 ?ts) (drop 29 ?ks)"
    obtain p view' where p: "splitInternal None (tid n) (seps n) (map tid (kids n)) i (tid a) (tid b) m (q # ps') s
          = (s\<lparr>bt_pg := p\<rparr>, Inr (q, ?ks ! 28, ps'))"
      "fps.in_tx base view' p" "view' 2 = view 2" "sib_ok view' fs" "repr view' ?l" "repr view' ?r"
      using parent_split [OF Cons.prems(12) Cons.prems(8-11) [unfolded f q] False w(1,3) len] by blast
    note c = wf_list_cut [OF w(1), of 28]
    have kf: "key_fits (?ks ! 28)" "\<forall>k \<in> set (take 28 ?ks). key_fits k" "\<forall>k \<in> set (drop 29 ?ks). key_fits k"
      using w(3) len by (auto dest: in_set_takeD in_set_dropD)
    have ne: "take 28 ?ks \<noteq> []" "drop 29 ?ks \<noteq> []" using len by auto
    have sr: "split_room base fs ?l ?r ps'"
      using split_room_up [OF Cons.prems(8) [unfolded f q] False refl] .
    have "\<exists>r p' view''. insertIntoParent None (path_of fs) (tid ?l) (tid ?r) (?ks ! 28) ps' (s\<lparr>bt_pg := p\<rparr>) = (s\<lparr>bt_pg := p\<rparr>\<lparr>bt_pg := p'\<rparr>, Inr r)
        \<and> fps.in_tx base view'' p' \<and> repr view'' (grow fs ?l (?ks ! 28) ?r ps')
        \<and> (if r = 0 then view'' 2 = view' 2 \<and> tid (grow fs ?l (?ks ! 28) ?r ps') = tid root
           else view'' 2 = Inr (encodeMetaPage r) \<and> tid (grow fs ?l (?ks ! 28) ?r ps') = r)"
      using c len kf ne p sr by (intro Cons.IH [OF Cons.prems(1) at(1)]) auto
    then obtain r p' view'' where
      "insertIntoParent None (path_of fs) (tid ?l) (tid ?r) (?ks ! 28) ps' (s\<lparr>bt_pg := p\<rparr>) = (s\<lparr>bt_pg := p'\<rparr>, Inr r)"
      "fps.in_tx base view'' p'" "repr view'' (grow fs ?l (?ks ! 28) ?r ps')"
      "if r = 0 then view'' 2 = view' 2 \<and> tid (grow fs ?l (?ks ! 28) ?r ps') = tid root
       else view'' 2 = Inr (encodeMetaPage r) \<and> tid (grow fs ?l (?ks ! 28) ?r ps') = r"
      by auto
    moreover have "grow (f # fs) a m b ps = grow fs ?l (?ks ! 28) ?r ps'" using False f q len by (simp add: Let_def)
    moreover have "insertIntoParent None (path_of (f # fs)) (tid a) (tid b) m ps s
        = insertIntoParent None (path_of fs) (tid ?l) (tid ?r) (?ks ! 28) ps' (s\<lparr>bt_pg := p\<rparr>)"
      using False f q p(1) by simp
    ultimately show ?thesis using p(3) by (intro exI [of _ r] exI [of _ p'] exI [of _ view'']) simp
  qed
qed

lemma split_entries:
  assumes "wf_tree lo hi (Lf i es n)" "length es = 7" "k \<notin> fst ` set es"
    and "ge_lo lo k" "lt_hi k hi" "key_fits k" "small_value v"
  defines "all \<equiv> ins k v es"
  shows "wf_tree lo (Some (fst (all ! 4))) (Lf i' (take 4 all) n') \<and> wf_tree (Some (fst (all ! 4))) hi (Lf j (drop 4 all) m')
    \<and> gt_lo lo (fst (all ! 4)) \<and> lt_hi (fst (all ! 4)) hi \<and> key_fits (fst (all ! 4))"
proof -
  have len: "length all = 8" and st: "sorted_wrt (<) (map fst all)"
    and e: "\<And>x. x \<in> set all \<Longrightarrow> ge_lo lo (fst x) \<and> lt_hi (fst x) hi \<and> key_fits (fst x) \<and> small_value (snd x)"
    using assms ins_sorted by (simp, simp, auto)
  have lt: "fst (all ! x) < fst (all ! y)" if "x < y" "y < 8" for x y
    using sorted_wrt_nth_less [OF st, of x y] that len by simp
  have nth: "ge_lo lo (fst (all ! x)) \<and> lt_hi (fst (all ! x)) hi \<and> key_fits (fst (all ! x))" if "x < 8" for x
    using e [of "all ! x"] that len by simp
  have l: "fst x < fst (all ! 4)" if x: "x \<in> set (take 4 all)" for x
  proof -
    obtain y where "y < 4" "x = all ! y" using x len by (auto simp: in_set_conv_nth)
    then show ?thesis using lt [of y 4] by simp
  qed
  have r: "fst (all ! 4) \<le> fst x" if x: "x \<in> set (drop 4 all)" for x
  proof -
    obtain y where "y < 4" "x = all ! (4 + y)" using x len by (auto simp: in_set_conv_nth)
    then show ?thesis using lt [of 4 "4 + y"] by (cases "y = 0") auto
  qed
  have "wf_tree lo (Some (fst (all ! 4))) (Lf i' (take 4 all) n')"
    using e [OF in_set_takeD [of _ 4]] l sorted_wrt_take [OF st, of 4] len by (auto simp: take_map split_beta)
  moreover have "wf_tree (Some (fst (all ! 4))) hi (Lf j (drop 4 all) m')"
    using e [OF in_set_dropD [of _ 4]] r sorted_wrt_drop [OF st, of 4] len by (auto simp: drop_map split_beta)
  moreover have "gt_lo lo (fst (all ! 4))" using ge_gt_lo_trans [of lo "fst (all ! 0)"] nth [of 0] lt [of 0 4] by simp
  ultimately show ?thesis using nth [of 4] by simp
qed

lemma split_write_ok:
  assumes tx: "fps.in_tx base view (bt_pg s)" and rt: "wf_tree None None root" "at root fs t"
    and w: "wf_tree (fst (bounds None None fs)) (Some m) (Lf i xs j)" "wf_tree (Some m) (snd (bounds None None fs)) (Lf j ys n)"
      "gt_lo (fst (bounds None None fs)) m" "lt_hi m (snd (bounds None None fs))" "key_fits m" "m = map fst ys ! 0"
    and sr: "split_room base fs (Lf i xs j) (Lf j ys n) ps" and so: "sib_ok view fs"
  shows "\<exists>r p view'. split_leaf_write None i (path_of fs) (map fst xs, map snd xs) (map fst ys, map snd ys) j ps n s = (s\<lparr>bt_pg := p\<rparr>, Inr r)
    \<and> fps.in_tx base view' p \<and> repr view' (grow fs (Lf i xs j) m (Lf j ys n) ps)
    \<and> (if r = 0 then view' 2 = view 2 \<and> tid (grow fs (Lf i xs j) m (Lf j ys n) ps) = tid root
       else view' 2 = Inr (encodeMetaPage r) \<and> tid (grow fs (Lf i xs j) m (Lf j ys n) ps) = r)"
proof -
  have ids: "i \<in> live base" "j \<in> live base" "i \<noteq> 2" "j \<noteq> 2" "i \<noteq> j" "i \<notin> set (ctxp fs)" "j \<notin> set (ctxp fs)"
    using sr by (auto simp: split_room_def)
  obtain lb u where l: "encodeLeafNode (map fst xs) (map snd xs) j = Inr lb"
    "pgcall (WritePage None i lb) s = (s\<lparr>bt_pg := u\<rparr>, Inr ())" "fps.in_tx base (view(i := Inr lb)) u"
    "decodeLeafNodeRefs lb = Inr (map fst xs, map (ref_of \<circ> snd) xs, j)"
    using write_leaf [OF tx ids(1) w(1)] by blast
  obtain rb v where r: "encodeLeafNode (map fst ys) (map snd ys) n = Inr rb"
    "pgcall (WritePage None j rb) (s\<lparr>bt_pg := u\<rparr>) = (s\<lparr>bt_pg := v\<rparr>, Inr ())" "fps.in_tx base (view(i := Inr lb, j := Inr rb)) v"
    "decodeLeafNodeRefs rb = Inr (map fst ys, map (ref_of \<circ> snd) ys, n)"
    using write_leaf [of base "view(i := Inr lb)" "s\<lparr>bt_pg := u\<rparr>" j] l(3) ids(2) w(2) by fastforce
  let ?view = "view(i := Inr lb, j := Inr rb)"
  have rp: "repr ?view (Lf i xs j)" "repr ?view (Lf j ys n)" "sib_ok ?view fs"
    using l(4) r(4) ids so by (simp_all add: node_ok_def)
  have eq: "split_leaf_write None i (path_of fs) (map fst xs, map snd xs) (map fst ys, map snd ys) j ps n s
      = insertIntoParent None (path_of fs) (tid (Lf i xs j)) (tid (Lf j ys n)) m ps (s\<lparr>bt_pg := v\<rparr>)"
    using l(1,2) r(1,2) w(6) by (simp add: split_leaf_write_def)
  have v: "fps.in_tx base ?view (bt_pg (s\<lparr>bt_pg := v\<rparr>))" using r(3) by simp
  show ?thesis
    using insertIntoParent_ok [OF rt w(5,1,2,3,4) sr rp(3,1,2) v] ids unfolding eq by fastforce
qed

lemma split_tx_ok:
  assumes ready: "pager_ready (bt_pg s)" and rt: "wf_tree None None root" "at root fs (Lf i es n)" "linked (fst (hd (leaves root))) (leaves root)"
    and w: "wf_tree (fst (bounds None None fs)) (Some m) (Lf i xs j)" "wf_tree (Some m) (snd (bounds None None fs)) (Lf j ys n)"
      "gt_lo (fst (bounds None None fs)) m" "lt_hi m (snd (bounds None None fs))" "key_fits m" "m = map fst ys ! 0"
    and sr: "split_room (bt_pg s) fs (Lf i xs j) (Lf j ys n) ps" and so: "sib_ok (pager_reads (bt_pg s)) fs"
    and st: "bt_isOpen s" "\<not> bt_closed s" "ReadPage None 2 (bt_pg s) = Inr (encodeMetaPage (bt_root s))" "tid root = bt_root s"
  shows "\<exists>s'. split_leaf_tx None i (path_of fs) (map fst xs, map snd xs) (map fst ys, map snd ys) v [] j ps n s = (s', Inr ())
    \<and> bt_on s' (grow fs (Lf i xs j) m (Lf j ys n) ps) \<and> room (bt_pg s') = room (bt_pg s)"
proof -
  let ?t = "grow fs (Lf i xs j) m (Lf j ys n) ps"
  obtain b where b: "BeginTx None (bt_pg s) = (b, Inr ())" "fps.in_tx (bt_pg s) (pager_reads (bt_pg s)) b"
    using fps.tx_begin [OF ready] by auto
  obtain r p view' where x: "split_leaf_write None i (path_of fs) (map fst xs, map snd xs) (map fst ys, map snd ys) j ps n (s\<lparr>bt_pg := b\<rparr>) = (s\<lparr>bt_pg := p\<rparr>, Inr r)"
    "fps.in_tx (bt_pg s) view' p" "repr view' ?t"
    "if r = 0 then view' 2 = ReadPage None 2 (bt_pg s) \<and> tid ?t = tid root else view' 2 = Inr (encodeMetaPage r) \<and> tid ?t = r"
    using split_write_ok [of "bt_pg s" "pager_reads (bt_pg s)" "s\<lparr>bt_pg := b\<rparr>", OF _ rt(1,2) w sr so] b(2) by auto
  obtain q where q: "CommitTx None p = (q, Inr ())" "fps.at_rest (bt_pg s) view' q"
    using fps.tx_commit [OF x(2)] by blast
  let ?s' = "if r \<noteq> 0 then s\<lparr>bt_pg := q, bt_root := r\<rparr> else s\<lparr>bt_pg := q\<rparr>"
  have run: "split_leaf_tx None i (path_of fs) (map fst xs, map snd xs) (map fst ys, map snd ys) v [] j ps n s = (?s', Inr ())"
    using pgcall_ok [of "BeginTx None" s, OF b(1)] x(1) pgcall_ok [of "CommitTx None" "s\<lparr>bt_pg := p\<rparr>"] q(1)
    by (simp add: split_leaf_tx_def chain_or_rollback_def write_packed_chain_def)
  have q': "pager_ready q" "live q = live (bt_pg s)" "pager_reads q = view'" "room q = room (bt_pg s)" using q(2) by (auto simp: fps.at_rest_def)
  have ps: "mset (pages ?t) = mset (ctxp fs @ pages (Lf i xs j) @ pages (Lf j ys n) @ take (grow_pages fs) ps)"
    using pages_grow [OF rt(2)] sr by (simp add: split_room_def)
  have "distinct (pages ?t)" "set (pages ?t) \<subseteq> live (bt_pg s) - {2}"
    using mset_eq_setD [OF ps] mset_eq_imp_distinct_iff [OF ps] sr by (auto simp: split_room_def dest: in_set_takeD)
  moreover have "leaves ?t = ctxl leaves fs @ (i, j) # (j, n) # ctxr leaves fs"
    using flat_grow [of leaves, OF _ rt(2)] by simp
  ultimately have "tree_rep view' (live (bt_pg s)) ?t"
    using grow_wf [OF rt(1,2) w(5,1-4)] x(3) linked_at(2) [OF rt] by (simp add: tree_rep_def)
  then have "bt_on ?s' ?t"
    using st x(4) q' fun_cong [OF q'(3), of 2] sr by (auto simp: bt_on_def split_room_def split: if_splits)
  then show ?thesis using run q'(4) by (intro exI [of _ ?s']) simp
qed

lemma splitLeaf_ok:
  assumes s: "bt_on s root" and at: "at root fs (Lf i es n)" and k: "in_bounds fs k" "key_fits k" "small_value v"
    and new: "k \<notin> fst ` set es" and len: "length es = 7" and space: "depth root + 2 \<le> room (bt_pg s)"
  shows "\<exists>s' t'. splitLeaf None i (path_of fs) (map fst es) (map snd es) k v [] n s = (s', Inr ())
    \<and> bt_on s' t' \<and> contents t' = ctxl contents fs @ ins k v es @ ctxr contents fs
    \<and> depth t' \<le> Suc (depth root) \<and> room (bt_pg s) \<le> room (bt_pg s') + (depth root + 2)"
proof -
  have r: "pager_ready (bt_pg s)" and rt: "wf_tree None None root" "linked (fst (hd (leaves root))) (leaves root)"
    using s by (auto simp: bt_on_def tree_rep_def)
  let ?all = "ins k v es"
  obtain p j where p: "AllocatePage None (bt_pg s) = (p, Inr j)" "pager_ready p" "j \<notin> live (bt_pg s)"
    "live p = insert j (live (bt_pg s))" "room p = room (bt_pg s) - 1"
    "pager_reads p = (pager_reads (bt_pg s))(j := Inr (zero_bytes 4084))"
    using fps.alloc_law [OF r] space by auto
  have "length fs + 1 \<le> room (bt_pg (s\<lparr>bt_pg := p\<rparr>))"
    using p(5) space depth_at [OF at] by simp
  then obtain q ps where q: "alloc_pages (length fs + 1) None (s\<lparr>bt_pg := p\<rparr>) = (s\<lparr>bt_pg := q\<rparr>, Inr ps)" "pager_ready q"
    "length ps = length fs + 1" "distinct ps" "set ps \<inter> live p = {}" "live q = live p \<union> set ps"
    "\<forall>i \<in> live p. ReadPage None i q = ReadPage None i p" "room q = room p - (length fs + 1)"
    using alloc_pages_ok [of "s\<lparr>bt_pg := p\<rparr>" "length fs + 1"] p(2) by auto
  have old: "ReadPage None x q = ReadPage None x (bt_pg s)" if "x \<in> live (bt_pg s)" for x
    using that q(7) p(3,4) fun_cong [OF p(6), of x] by auto
  note o = bt_on_at [OF s at]
  have two: "2 \<in> live (bt_pg s)" "ReadPage None 2 (bt_pg s) = Inr (encodeMetaPage (bt_root s))" using s by (auto simp: bt_on_def)
  have "grow_pages fs \<le> length ps" using grow_pages_le [of fs] q(3) by simp
  then have sr: "split_room q fs (Lf i (take 4 ?all) j) (Lf j (drop 4 ?all) n) ps"
    using o(1,2) q(2,4-6) p(3,4) two(1) by (auto simp: split_room_def)
  have so: "sib_ok (pager_reads q) fs"
    using o(3) sib_ok_frame [of fs "pager_reads q" "pager_reads (bt_pg s)"] old o(1) by auto
  note w = split_entries [OF at_wf [OF rt(1) at] len new, where v = v and i' = i and n' = j and j = j and m' = n]
  have st: "bt_isOpen s" "\<not> bt_closed s" "tid root = bt_root s" using s by (auto simp: bt_on_def)
  have m: "fst (?all ! 4) = map fst (drop 4 ?all) ! 0" using len by simp
  have "\<exists>s'. split_leaf_tx None i (path_of fs) (map fst (take 4 ?all), map snd (take 4 ?all)) (map fst (drop 4 ?all), map snd (drop 4 ?all))
        v [] j ps n (s\<lparr>bt_pg := q\<rparr>) = (s', Inr ())
      \<and> bt_on s' (grow fs (Lf i (take 4 ?all) j) (fst (?all ! 4)) (Lf j (drop 4 ?all) n) ps) \<and> room (bt_pg s') = room q"
    using split_tx_ok [of "s\<lparr>bt_pg := q\<rparr>", OF _ rt(1) at rt(2) _ _ _ _ _ m] w k sr so st q(2) old [OF two(1)] two(2)
    by (simp add: in_bounds_def)
  then obtain s' where s': "split_leaf_tx None i (path_of fs) (map fst (take 4 ?all), map snd (take 4 ?all)) (map fst (drop 4 ?all), map snd (drop 4 ?all))
        v [] j ps n (s\<lparr>bt_pg := q\<rparr>) = (s', Inr ())"
      "bt_on s' (grow fs (Lf i (take 4 ?all) j) (fst (?all ! 4)) (Lf j (drop 4 ?all) n) ps)" "room (bt_pg s') = room q" by blast
  have "splitLeaf None i (path_of fs) (map fst es) (map snd es) k v [] n s = (s', Inr ())"
    using s'(1) pgcall_ok [of "AllocatePage None" s, OF p(1)] q(1) len
    by (simp add: splitLeaf_def Let_def zip_map_fst_snd merge_new_ins [OF new] take_map drop_map)
  moreover have "contents (grow fs (Lf i (take 4 ?all) j) (fst (?all ! 4)) (Lf j (drop 4 ?all) n) ps)
      = ctxl contents fs @ ins k v es @ ctxr contents fs"
    using flat_grow [of contents, OF _ at] append_take_drop_id [of 4 ?all] by (metis append.assoc contents.simps)
  moreover have "depth (grow fs (Lf i (take 4 ?all) j) (fst (?all ! 4)) (Lf j (drop 4 ?all) n) ps) \<le> Suc (depth root)"
    using depth_at [OF at] by (intro depth_grow [OF at, where d = 0]) auto
  moreover have "room (bt_pg s) \<le> room (bt_pg s') + (depth root + 2)"
    using s'(3) q(8) p(5) depth_at [OF at] by simp
  ultimately show ?thesis using s'(2) by blast
qed

section \<open>Set\<close>

definition set_result :: "tree \<Rightarrow> btreeStore \<Rightarrow> bytes \<Rightarrow> bytes \<Rightarrow> btreeStore \<Rightarrow> tree \<Rightarrow> bool" where
  "set_result root s k v s' t' \<longleftrightarrow> bt_on s' t' \<and> map_of (contents t') = (map_of (contents root))(k \<mapsto> v)
     \<and> depth t' \<le> Suc (depth root) \<and> room (bt_pg s) \<le> room (bt_pg s') + (depth root + 2)"

lemma set_leaf_ok:
  assumes s: "bt_on s root" and at: "at root fs (Lf i es n)" and k: "in_bounds fs k" "key_fits k" "small_value v"
    and space: "depth root + 2 \<le> room (bt_pg s)"
  shows "\<exists>s' t'. set_loop None i (path_of fs) k v [] s = Some (s', Inr ())
    \<and> set_result root s k v s' t'"
proof -
  have wr: "wf_tree None None root" using s by (simp add: bt_on_def tree_rep_def)
  have w: "bwf None None fs (Lf i es n)" by (rule at_wf [OF wr at])
  obtain b where b: "readPage None i (bt_pg s) = Inr b" "b ! 0 = 1"
    "decodeLeafNodeRefs b = Inr (map fst es, map (ref_of \<circ> snd) es, n)"
    using leaf_page bt_on_at(4) [OF s at] by fastforce
  note d = leaf_decodes [OF w b(3)]
  have dist: "distinct (map fst es)" using w strict_distinct by simp
  have loop: "set_loop None i (path_of fs) k v [] s = (case find_key 0 (map fst es) k of
      Some j \<Rightarrow> Some (updateLeaf None i (map fst es) (map snd es) j v [] n s)
    | None \<Rightarrow> if length es < 7 then Some (insertIntoLeaf None i (map fst es) (map snd es) k v [] n s)
        else Some (splitLeaf None i (path_of fs) (map fst es) (map snd es) k v [] n s))"
    using b(1,2) d by (simp add: set_loop.simps [of None i])
  have put: "\<exists>s' t'. (case encodeLeafNode (map fst es') (map snd es') n of Inl e \<Rightarrow> (s, Inl e)
        | Inr body \<Rightarrow> write_leaf_tx None i body [] v s) = (s', Inr ())
      \<and> set_result root s k v s' t'"
    if es': "bwf None None fs (Lf i es' n)" "map_of es' = (map_of es)(k \<mapsto> v)" for es'
  proof -
    obtain body p where "encodeLeafNode (map fst es') (map snd es') n = Inr body"
      "\<forall>v. write_leaf_tx None i body [] v s = (s\<lparr>bt_pg := p\<rparr>, Inr ())"
      "bt_on (s\<lparr>bt_pg := p\<rparr>) (rebuild fs (Lf i es' n))" "room p = room (bt_pg s)"
      using leaf_replaced [OF s at es'(1)] by blast
    moreover have "depth (rebuild fs (Lf i es' n)) \<le> depth root"
      using depth_at [OF at] by (intro depth_rebuild [OF at, where d = 0]) auto
    ultimately show ?thesis
      using map_of_replace [OF wr at k(1) es'(2)] flat_rebuild [of contents, OF _ at, of "Lf i es' n"]
      by (intro exI [of _ "s\<lparr>bt_pg := p\<rparr>"] exI [of _ "rebuild fs (Lf i es' n)"]) (simp add: set_result_def)
  qed
  show ?thesis
  proof (cases "find_key 0 (map fst es) k")
    case (Some j)
    then have j: "j < length es" "fst (es ! j) = k" using find_key_Some by auto
    have "bwf None None fs (Lf i (es[j := (k, v)]) n)"
      using w k upd_cols(1) [OF j] set_update_subset_insert [of es j "(k, v)"] by (auto simp: in_bounds_def)
    from put [OF this upd_map_of [OF dist j]] show ?thesis
      using loop Some by (simp add: updateLeaf_def upd_cols [OF j])
  next
    case None
    then have new: "k \<notin> fst ` set es" using find_key_None [of es k] by (simp add: map_of_eq_None_iff)
    show ?thesis
    proof (cases "length es < 7")
      case True
      then have "bwf None None fs (Lf i (ins k v es) n)"
        using w k new ins_sorted [of es k v] by (auto simp: in_bounds_def)
      from put [OF this ins_map_of [OF new]] show ?thesis
        using loop None True by (simp add: insertIntoLeaf_def Let_def insert_pos_cols [where v = v])
    next
      case False
      then have "length es = 7" using w by simp
      then show ?thesis
        using splitLeaf_ok [OF s at k new _ space] loop None map_of_replace [OF wr at k(1) ins_map_of [OF new, of v]]
        by (fastforce simp: set_result_def)
    qed
  qed
qed

lemma set_loop_ok:
  assumes s: "bt_on s root" and k: "key_fits k" "small_value v" and space: "depth root + 2 \<le> room (bt_pg s)"
  shows "\<exists>s' t'. set_loop None (bt_root s) [] k v [] s = Some (s', Inr ())
    \<and> set_result root s k v s' t'"
proof -
  let ?Q = "\<lambda>fs t. \<exists>s' t'. set_loop None (tid t) (path_of fs) k v [] s = Some (s', Inr ())
    \<and> set_result root s k v s' t'"
  have wr: "wf_tree None None root" "tid root = bt_root s" using s by (simp_all add: bt_on_def tree_rep_def)
  have "?Q [] root"
  proof (rule descend_induct [where Q = ?Q, OF wr(1)])
    fix fs i es n assume "at root fs (Lf i es n)" "in_bounds fs k"
    then show "?Q fs (Lf i es n)" using set_leaf_ok [OF s _ _ k space] by simp
  next
    fix fs i ts ks
    assume at: "at root fs (Nd i ts ks)" and len: "length ts = Suc (length ks)" "route ks k < length ts"
      and IH: "?Q ((Nd i ts ks, route ks k) # fs) (ts ! route ks k)"
    obtain b where b: "readPage None i (bt_pg s) = Inr b" "b ! 0 = 2" "decodeInternalNode b = Inr (map tid ts, ks)"
      using internal_page bt_on_at(4) [OF s at] by fastforce
    have "set_loop None (tid (Nd i ts ks)) (path_of fs) k v [] s
        = set_loop None (tid (ts ! route ks k)) (path_of ((Nd i ts ks, route ks k) # fs)) k v [] s"
      using b len by (simp add: set_loop.simps [of None i] upperBoundIdx_route Let_def)
    then show "?Q fs (Nd i ts ks)" using IH by simp
  qed simp_all
  then show ?thesis using wr(2) by simp
qed

lemma setInEmpty_ok:
  assumes s: "bt_rep s m" "bt_root s = rootSentinel" and k: "key_fits k" "small_value v" and space: "0 < room (bt_pg s)"
  shows "\<exists>s' j. setInEmpty None k v s = (s', Inr ()) \<and> bt_on s' (Lf j [(k, v)] rootSentinel)
    \<and> room (bt_pg s) \<le> Suc (room (bt_pg s'))"
proof -
  have r: "pager_ready (bt_pg s)" "2 \<in> live (bt_pg s)" "bt_isOpen s" "\<not> bt_closed s" using s by (auto simp: bt_rep_def)
  obtain p j where p: "AllocatePage None (bt_pg s) = (p, Inr j)" "pager_ready p" "j \<notin> live (bt_pg s)"
    "live p = insert j (live (bt_pg s))" "room p = room (bt_pg s) - 1"
    using fps.alloc_law [OF r(1) space] by auto
  obtain b where b: "BeginTx None p = (b, Inr ())" "fps.in_tx p (pager_reads p) b"
    using fps.tx_begin [OF p(2)] by auto
  have w: "wf_tree None None (Lf j [(k, v)] rootSentinel)" using k by simp
  obtain body u where u: "encodeLeafNode [k] [v] rootSentinel = Inr body"
    "pgcall (WritePage None j body) (s\<lparr>bt_pg := b\<rparr>) = (s\<lparr>bt_pg := u\<rparr>, Inr ())"
    "fps.in_tx p ((pager_reads p)(j := Inr body)) u"
    "decodeLeafNodeRefs body = Inr ([k], [ref_of v], rootSentinel)"
    using write_leaf [of p "pager_reads p" "s\<lparr>bt_pg := b\<rparr>" j, OF _ _ w] b(2) p(4) by auto
  have two: "2 \<in> live p" "j \<noteq> 2" using p(3,4) r(2) by auto
  obtain c where c: "WritePage None 2 (encodeMetaPage j) u = (c, Inr ())"
    "fps.in_tx p ((pager_reads p)(j := Inr body, 2 := Inr (encodeMetaPage j))) c"
    using fps.tx_write [OF u(3) two(1), of "encodeMetaPage j"] by auto
  obtain q where q: "CommitTx None c = (q, Inr ())"
    "fps.at_rest p ((pager_reads p)(j := Inr body, 2 := Inr (encodeMetaPage j))) q"
    using fps.tx_commit [OF c(2)] by blast
  let ?s' = "s\<lparr>bt_pg := q, bt_root := j\<rparr>"
  have "setInEmpty None k v s = (?s', Inr ())"
    using k pgcall_ok [of "AllocatePage None" s, OF p(1)] pgcall_ok [of "BeginTx None" "s\<lparr>bt_pg := p\<rparr>"] b(1) u(1,2)
      pgcall_ok [of "WritePage None 2 (encodeMetaPage j)" "s\<lparr>bt_pg := u\<rparr>"] c(1) pgcall_ok [of "CommitTx None" "s\<lparr>bt_pg := c\<rparr>"] q(1)
    by (simp add: setInEmpty_def small_value_def)
  moreover have q': "pager_ready q" "live q = live p" "room q = room p"
    "pager_reads q = (pager_reads p)(j := Inr body, 2 := Inr (encodeMetaPage j))"
    using q(2) by (auto simp: fps.at_rest_def)
  have "ReadPage None 2 q = Inr (encodeMetaPage j)" "ReadPage None j q = Inr body"
    using fun_cong [OF q'(4)] two(2) by auto
  then have "bt_on ?s' (Lf j [(k, v)] rootSentinel)"
    using r q'(1,2) two p(4) w u(4) by (simp add: bt_on_def tree_rep_def node_ok_def)
  ultimately show ?thesis using q'(3) p(5) by (intro exI [of _ ?s'] exI [of _ j]) simp
qed

section \<open>Delete\<close>

lemma delete_write: "delete_in_leaf ctx i b k s =
  (case decodeLeafNode b of Inl e \<Rightarrow> (s, Inl e) | Inr (keys, vals, n) \<Rightarrow>
   case find_key 0 keys k of None \<Rightarrow> (s, Inr ())
   | Some pos \<Rightarrow> (case encodeLeafNode (take pos keys @ drop (pos + 1) keys) (take pos vals @ drop (pos + 1) vals) n of
       Inl e \<Rightarrow> (s, Inl e) | Inr body \<Rightarrow> write_leaf_tx ctx i body [] [] s))"
proof -
  have "chain_or_rollback ctx [] [] = (\<lambda>s. (s, Inr ()))"
    by (intro ext) (simp add: chain_or_rollback_def write_packed_chain_def)
  then have "write_leaf_tx ctx i body [] [] s = (case pgcall (BeginTx ctx) s of (s, Inl e) \<Rightarrow> (s, Inl e) | (s, Inr _) \<Rightarrow>
      case pgcall (WritePage ctx i body) s of (s, Inl e) \<Rightarrow> (rollback ctx s, Inl e) | (s, Inr _) \<Rightarrow> pgcall (CommitTx ctx) s)" for body
    by (simp only: write_leaf_tx_def prod.case sum.case)
  then show ?thesis by (simp only: delete_in_leaf_def Let_def)
qed

lemma delete_leaf_ok:
  assumes s: "bt_on s root" and at: "at root fs (Lf i es n)" and k: "in_bounds fs k"
  shows "\<exists>s' t'. deleteFromTree None i k s = Some (s', Inr ()) \<and> bt_on s' t'
    \<and> map_of (contents t') = (map_of (contents root))(k := None) \<and> depth t' \<le> depth root \<and> room (bt_pg s') = room (bt_pg s)"
proof -
  have wr: "wf_tree None None root" using s by (simp add: bt_on_def tree_rep_def)
  have w: "bwf None None fs (Lf i es n)" by (rule at_wf [OF wr at])
  obtain b where b: "readPage None i (bt_pg s) = Inr b" "b ! 0 = 1"
    "decodeLeafNodeRefs b = Inr (map fst es, map (ref_of \<circ> snd) es, n)"
    using leaf_page bt_on_at(4) [OF s at] by fastforce
  have del: "deleteFromTree None i k s = Some (delete_in_leaf None i b k s)"
    using b(1,2) by (simp add: deleteFromTree.simps [of None i])
  have dist: "distinct (map fst es)" using w strict_distinct by simp
  show ?thesis
  proof (cases "find_key 0 (map fst es) k")
    case None
    then have "map_of (contents root) k = None" using find_key_None [of es k] map_of_at [OF wr at k] by simp
    moreover have "deleteFromTree None i k s = Some (s, Inr ())"
      using del None leaf_decodes [OF w b(3)] by (simp add: delete_write)
    ultimately show ?thesis using s by (intro exI [of _ s] exI [of _ root]) (auto simp: fun_upd_idem)
  next
    case (Some j)
    then have j: "j < length es" "fst (es ! j) = k" using find_key_Some by auto
    let ?es = "take j es @ drop (Suc j) es"
    have "sorted_wrt (<) (map fst ?es)"
      using sorted_wrt_remove [of "(<)" "map fst es" j] w by (simp add: take_map drop_map)
    then have w': "bwf None None fs (Lf i ?es n)"
      using w j(1) by (auto dest: in_set_takeD in_set_dropD)
    obtain body p where p: "encodeLeafNode (map fst ?es) (map snd ?es) n = Inr body"
      "write_leaf_tx None i body [] [] s = (s\<lparr>bt_pg := p\<rparr>, Inr ())"
      "bt_on (s\<lparr>bt_pg := p\<rparr>) (rebuild fs (Lf i ?es n))" "room p = room (bt_pg s)"
      using leaf_replaced [OF s at w'] by blast
    have "deleteFromTree None i k s = Some (s\<lparr>bt_pg := p\<rparr>, Inr ())"
      using del Some leaf_decodes [OF w b(3)] p(1,2) by (simp add: delete_write take_map drop_map)
    moreover have "depth (rebuild fs (Lf i ?es n)) \<le> depth root"
      using depth_at [OF at] by (intro depth_rebuild [OF at, where d = 0]) auto
    ultimately show ?thesis
      using map_of_replace [OF wr at k remove_map_of [OF dist j]] flat_rebuild [of contents, OF _ at, of "Lf i ?es n"] p(3,4)
      by (intro exI [of _ "s\<lparr>bt_pg := p\<rparr>"] exI [of _ "rebuild fs (Lf i ?es n)"]) simp
  qed
qed

lemma delete_tree_ok:
  assumes s: "bt_on s root"
  shows "\<exists>s' t'. deleteFromTree None (bt_root s) k s = Some (s', Inr ()) \<and> bt_on s' t'
    \<and> map_of (contents t') = (map_of (contents root))(k := None) \<and> depth t' \<le> depth root \<and> room (bt_pg s') = room (bt_pg s)"
proof -
  let ?Q = "\<lambda>fs t. \<exists>s' t'. deleteFromTree None (tid t) k s = Some (s', Inr ()) \<and> bt_on s' t'
    \<and> map_of (contents t') = (map_of (contents root))(k := None) \<and> depth t' \<le> depth root \<and> room (bt_pg s') = room (bt_pg s)"
  have wr: "wf_tree None None root" "tid root = bt_root s" using s by (simp_all add: bt_on_def tree_rep_def)
  have "?Q [] root"
  proof (rule descend_induct [where Q = ?Q and fs = "[]", OF wr(1)])
    fix fs i es n assume "at root fs (Lf i es n)" "in_bounds fs k"
    then show "?Q fs (Lf i es n)" using delete_leaf_ok [OF s] by simp
  next
    fix fs i ts ks
    assume at: "at root fs (Nd i ts ks)" and len: "length ts = Suc (length ks)" "route ks k < length ts"
      and IH: "?Q ((Nd i ts ks, route ks k) # fs) (ts ! route ks k)"
    obtain b where b: "readPage None i (bt_pg s) = Inr b" "b ! 0 = 2" "decodeInternalNode b = Inr (map tid ts, ks)"
      using internal_page bt_on_at(4) [OF s at] by fastforce
    have "deleteFromTree None (tid (Nd i ts ks)) k s = deleteFromTree None (tid (ts ! route ks k)) k s"
      using b len by (simp add: deleteFromTree.simps [of None i] upperBound_def upperBoundIdx_route)
    then show "?Q fs (Nd i ts ks)" using IH by simp
  qed simp_all
  then show ?thesis using wr(2) by simp
qed

end
