(* ===== verification/Btree_Scan.thy ===== *)
theory Btree_Scan
  imports Btree_Ops
begin

text \<open>
  \<open>Scan\<close> and \<open>Check\<close> on a store that represents a map: the scan follows the chain of leaves and
  returns the entries of the range in key order; the check ends on every file and accepts every
  well-formed tree.
\<close>

section \<open>The leaves of a tree\<close>

fun lvs :: "tree \<Rightarrow> tree list" where
  "lvs (Lf i es n) = [Lf i es n]"
| "lvs (Nd i ts ks) = concat (map lvs ts)"

fun nxt :: "tree \<Rightarrow> u64" where
  "nxt (Lf i es n) = n" | "nxt (Nd i ts ks) = 0"

lemma concat_map_concat:
  "\<forall>t \<in> set ts. concat (map f (g t)) = f t \<Longrightarrow> concat (map f (concat (map g ts))) = concat (map f ts)"
  by (induction ts) auto

lemma lvs_contents: "concat (map contents (lvs t)) = contents t"
  by (induction t) (simp_all add: concat_map_concat)

lemma lvs_leaves: "map (\<lambda>l. (tid l, nxt l)) (lvs t) = leaves t"
  by (induction t) (auto simp: map_concat comp_def intro!: arg_cong [of _ _ concat])

lemma lvs_leaf: "l \<in> set (lvs t) \<Longrightarrow> \<not> is_node l \<and> tid l \<in> set (pages t) \<and> set (contents l) \<subseteq> set (contents t)"
  by (induction t) auto

lemma lvs_repr: "l \<in> set (lvs t) \<Longrightarrow> repr view t \<Longrightarrow> repr view l"
  by (induction t) auto

lemma linked_suffix: "linked f (xs @ (i, n) # ys) \<Longrightarrow> linked i ((i, n) # ys)"
  by (induction xs arbitrary: f) auto

section \<open>Scan\<close>

definition in_range :: "bytes \<Rightarrow> bytes \<Rightarrow> bytes \<times> bytes \<Rightarrow> bool" where
  "in_range start stop e \<longleftrightarrow> start \<le> fst e \<and> (stop = [] \<or> fst e < stop)"

definition past_end :: "bytes \<Rightarrow> bytes \<Rightarrow> bytes \<times> bytes \<Rightarrow> bool" where
  "past_end start stop e \<longleftrightarrow> start \<le> fst e \<and> stop \<noteq> [] \<and> stop \<le> fst e"

lemma Nil_le_bytes [simp]: "[] \<le> (k :: bytes)"
  by (cases k) auto

lemma scan_keys_ok:
  "sorted_wrt (<) (map fst es) \<Longrightarrow> \<forall>e \<in> set es. small_value (snd e) \<Longrightarrow>
   scan_keys None p start stop (zip (map fst es) (map (ref_of \<circ> snd) es)) acc
     = Inr (acc @ filter (in_range start stop) es, \<exists>e \<in> set es. past_end start stop e)"
proof (induction es arbitrary: acc)
  case (Cons e es)
  have "filter (in_range start stop) es = []" if "past_end start stop e"
  proof -
    have "\<not> in_range start stop x" if x: "x \<in> set es" for x
    proof -
      have "fst e < fst x" using x Cons.prems(1) by auto
      then show ?thesis using \<open>past_end start stop e\<close> by (auto simp: past_end_def in_range_def)
    qed
    then show ?thesis by (simp add: filter_empty_conv)
  qed
  then have stop: "filter (in_range start stop) (e # es) = []" if "past_end start stop e"
    using that by (auto simp: in_range_def past_end_def)
  consider "fst e < start" | "past_end start stop e" | "in_range start stop e"
    unfolding in_range_def past_end_def by (metis linorder_not_less)
  then show ?case
  proof cases
    case 1
    then have "start \<noteq> []" "\<not> in_range start stop e" "\<not> past_end start stop e" by (auto simp: in_range_def past_end_def)
    then show ?thesis using 1 Cons.IH Cons.prems by simp
  next
    case 2
    then have "\<not> fst e < start" "stop \<noteq> []" "stop \<le> fst e" by (auto simp: past_end_def)
    then show ?thesis using 2 stop by simp
  next
    case 3
    then have "\<not> fst e < start" "stop = [] \<or> fst e < stop" "\<not> past_end start stop e" by (auto simp: in_range_def past_end_def)
    then show ?thesis using 3 Cons.IH Cons.prems by (auto simp: ref_read_small)
  qed
qed simp

lemma scanLeaf_chain:
  assumes "linked f (map (\<lambda>l. (tid l, nxt l)) ls)"
    and "\<forall>l \<in> set ls. \<not> is_node l \<and> repr (pager_reads p) l \<and> tid l \<noteq> rootSentinel \<and> tid l \<noteq> 0"
    and "sorted_wrt (<) (map fst (concat (map contents ls)))" "\<forall>e \<in> set (concat (map contents ls)). small_value (snd e)"
  shows "scanLeaf None p f start stop acc = Some (Inr (acc @ filter (in_range start stop) (concat (map contents ls))))"
  using assms
proof (induction ls arbitrary: f acc)
  case Nil
  then show ?case by (simp add: scanLeaf.simps [of None p rootSentinel])
next
  case (Cons l ls)
  obtain i es n where l: "l = Lf i es n" using Cons.prems(2) by (cases l) auto
  then obtain b where b: "readPage None i p = Inr b" "decodeLeafNodeRefs b = Inr (map fst es, map (ref_of \<circ> snd) es, n)"
    using leaf_page [of p i es n] Cons.prems(2) by auto
  have s: "sorted_wrt (<) (map fst es)" "sorted_wrt (<) (map fst (concat (map contents ls)))"
    and lt: "\<And>x y. x \<in> set es \<Longrightarrow> y \<in> set (concat (map contents ls)) \<Longrightarrow> fst x < fst y"
    using Cons.prems(3) unfolding l list.map concat.simps map_append sorted_wrt_append contents.simps by auto
  have sm: "\<forall>e \<in> set es. small_value (snd e)" using Cons.prems(4) l by auto
  have i: "f = i" "i \<noteq> rootSentinel" "i \<noteq> 0" using Cons.prems(1,2) l by auto
  have "filter (in_range start stop) (concat (map contents ls)) = []" if "x \<in> set es" "past_end start stop x" for x
    using lt [OF that(1)] that(2) by (fastforce simp: filter_empty_conv in_range_def past_end_def)
  then have "scanLeaf None p f start stop acc =
      (if \<exists>x \<in> set es. past_end start stop x then Some (Inr (acc @ filter (in_range start stop) (concat (map contents (l # ls)))))
       else scanLeaf None p n start stop (acc @ filter (in_range start stop) es))"
    using i b scan_keys_ok [OF s(1) sm, of p start stop acc] l by (auto simp: scanLeaf.simps [of None p i])
  moreover have "scanLeaf None p n start stop (acc @ filter (in_range start stop) es)
      = Some (Inr (acc @ filter (in_range start stop) (concat (map contents (l # ls)))))"
    using Cons.IH [of n] Cons.prems(1,2,4) s(2) l by simp
  ultimately show ?case by (simp only: if_cancel)
qed

lemma left_of_route:
  "wf_list lo hi ts ks \<Longrightarrow> t \<in> set (take (route ks k) ts) \<Longrightarrow> e \<in> set (contents t) \<Longrightarrow> fst e < k"
proof (induction ts ks arbitrary: lo rule: list_induct2')
  case (4 u ts x ks)
  show ?case
  proof (cases "x \<le> k")
    case True
    have "fst e < x" if "t = u" using wf_contents(1) [of lo "Some x" u] 4 that by auto
    then show ?thesis using 4 True by auto
  qed (use 4 in simp)
qed auto

lemma scan_from_ok:
  assumes r: "pager_ready p" "tree_rep (pager_reads p) (live p) root"
    and "at root fs t" "\<forall>l \<in> set (ctxl lvs fs). \<forall>e \<in> set (contents l). \<not> in_range start stop e"
  shows "scan_from None p (tid t) start stop = Some (Inr (filter (in_range start stop) (contents root)))"
  using assms(3,4)
proof (induction t arbitrary: fs)
  case (Lf i es n)
  have w: "wf_tree None None root" "repr (pager_reads p) root" "linked (fst (hd (leaves root))) (leaves root)"
    "set (pages root) \<subseteq> live p" using r(2) by (auto simp: tree_rep_def)
  obtain b where b: "readPage None i p = Inr b" "b ! 0 = 1"
    using leaf_page repr_at [OF Lf.prems(1) w(2)] by fastforce
  have lv: "lvs root = ctxl lvs fs @ Lf i es n # ctxr lvs fs" using flat_at [of lvs, OF _ Lf.prems(1)] by simp
  let ?ls = "Lf i es n # ctxr lvs fs"
  have "linked i (map (\<lambda>l. (tid l, nxt l)) ?ls)"
    using w(3) unfolding lvs_leaves [symmetric] lv using linked_suffix by fastforce
  moreover have "\<not> is_node l \<and> repr (pager_reads p) l \<and> tid l \<noteq> rootSentinel \<and> tid l \<noteq> 0" if l: "l \<in> set ?ls" for l
  proof -
    have "l \<in> set (lvs root)" using l lv by auto
    then show ?thesis using lvs_leaf lvs_repr [OF _ w(2)] w(4) owned_id [OF r(1), of "tid l"] by blast
  qed
  moreover have c: "contents root = concat (map contents (ctxl lvs fs)) @ concat (map contents ?ls)"
    using lvs_contents [of root] lv by simp
  moreover have "sorted_wrt (<) (map fst (contents root))" "\<forall>e \<in> set (contents root). small_value (snd e)"
    using wf_contents(1) [OF w(1)] by auto
  then have "sorted_wrt (<) (map fst (concat (map contents ?ls)))" "\<forall>e \<in> set (concat (map contents ?ls)). small_value (snd e)"
    unfolding c map_append sorted_wrt_append by auto
  ultimately have "scanLeaf None p i start stop [] = Some (Inr (filter (in_range start stop) (concat (map contents ?ls))))"
    using scanLeaf_chain [of i ?ls p start stop "[]"] by simp
  moreover have "filter (in_range start stop) (concat (map contents (ctxl lvs fs))) = []"
    using Lf.prems(2) by (auto simp: filter_empty_conv)
  ultimately show ?case
    using b unfolding c filter_append by (simp add: scan_from.simps [of None p i])
next
  case (Nd i ts ks)
  have w: "wf_tree None None root" "repr (pager_reads p) root" using r(2) by (auto simp: tree_rep_def)
  obtain b where b: "readPage None i p = Inr b" "b ! 0 = 2" "decodeInternalNode b = Inr (map tid ts, ks)"
    using internal_page repr_at [OF Nd.prems(1) w(2)] by fastforce
  have wl: "wf_list (fst (bounds None None fs)) (snd (bounds None None fs)) ts ks"
    using at_wf [OF w(1) Nd.prems(1)] by simp
  let ?j = "if start = [] then 0 else route ks start"
  have len: "length ts = Suc (length ks)" using wf_list_length [OF wl] .
  have "route ks start \<le> length ks" by (simp add: route_def length_takeWhile_le)
  then have j: "?j < length ts" using len by simp
  have "\<not> in_range start stop e" if "t \<in> set (take ?j ts)" "e \<in> set (contents t)" for t e
    using left_of_route [OF wl, of t start e] that by (auto simp: in_range_def split: if_splits)
  then have "\<forall>l \<in> set (ctxl lvs ((Nd i ts ks, ?j) # fs)). \<forall>e \<in> set (contents l). \<not> in_range start stop e"
    using Nd.prems(2) lvs_leaf by (fastforce simp del: take_eq_Nil)
  moreover have "at root ((Nd i ts ks, ?j) # fs) (ts ! ?j)" using Nd.prems(1) j by simp
  ultimately have IH: "scan_from None p (tid (ts ! ?j)) start stop = Some (Inr (filter (in_range start stop) (contents root)))"
    using Nd.IH [of "ts ! ?j"] j by (meson nth_mem)
  have "(if length start = 0 then map tid ts ! 0 else upperBound (map tid ts) ks start) = tid (ts ! ?j)"
    using j len by (cases "start = []") (simp_all add: upperBound_def upperBoundIdx_route)
  then show ?case using b IH by (simp add: scan_from.simps [of None p i])
qed

lemma Scan_ok:
  assumes s: "bt_on s t"
  shows "kv_Scan None start stop s = Some (Inr (filter (in_range start stop) (contents t)))"
  using scan_from_ok [of "bt_pg s" t "[]" t start stop] s bt_on_root [OF s] bt_rep_checkOpen [OF bt_on_rep [OF s]]
  by (simp add: kv_Scan_def bt_on_def)

section \<open>Check\<close>

definition grows :: "u64 \<Rightarrow> u64 set \<Rightarrow> kv_err + u64 set \<Rightarrow> bool" where
  "grows pc visited r \<longleftrightarrow> (\<forall>v. r = Inr v \<longrightarrow> visited \<subseteq> v \<and> v \<subseteq> {..<pc})"

lemma check_chain_grows:
  "check_chain n ctx p pc i len visited = Inr (len', v) \<Longrightarrow> visited \<subseteq> {..<pc} \<Longrightarrow> visited \<subseteq> v \<and> v \<subseteq> {..<pc}"
proof (induction n arbitrary: i len visited)
  case 0
  then show ?case by (auto simp: check_chain.simps [of 0] split: if_splits)
next
  case (Suc n)
  show ?case
  proof (cases "i = rootSentinel \<or> i = 0")
    case False
    then obtain j and c :: bytes where "i < pc" "check_chain n ctx p pc j (len + length c) (insert i visited) = Inr (len', v)"
      using Suc.prems(1) by (auto simp: check_chain.simps [of "Suc n"] linorder_not_le split: if_splits sum.splits prod.splits)
    then show ?thesis using Suc.IH Suc.prems(2) by blast
  qed (use Suc.prems in \<open>auto simp: check_chain.simps [of "Suc n"]\<close>)
qed

lemma check_refs_grows: "visited \<subseteq> {..<pc} \<Longrightarrow> grows pc visited (check_refs ctx p refs visited pc)"
proof (induction refs arbitrary: visited)
  case (Cons r refs)
  have "grows pc visited (check_refs ctx p refs v pc)"
    if o: "checkOverflowChain ctx p r visited pc = Inr v" for v
  proof -
    obtain len' where "check_chain MaxOverflowChainLen ctx p pc (overflowPageID r) (length (inline r)) visited = Inr (len', v)"
      using o by (auto simp: checkOverflowChain_def split: sum.splits if_splits)
    then have "visited \<subseteq> v" "v \<subseteq> {..<pc}" using check_chain_grows [OF _ Cons.prems] by blast+
    then show ?thesis using Cons.IH [of v] by (auto simp: grows_def)
  qed
  then show ?case
    using Cons.IH [OF Cons.prems] by (cases "checkOverflowChain ctx p r visited pc") (simp_all add: grows_def)
qed (simp add: grows_def)

lemma check_leaf_grows: "visited \<subseteq> {..<pc} \<Longrightarrow> grows pc visited (check_leaf ctx p b visited pc pk)"
  using check_refs_grows [of visited pc ctx p] by (fastforce simp: check_leaf_def grows_def split: sum.splits if_splits)

text \<open>Each nested call visits one more page below the page count, so the counter is never used up.\<close>

lemma card_visit:
  assumes "i < (pc :: u64)" "i \<notin> visited" "card ({..<pc} - visited) < Suc n"
  shows "card ({..<pc} - insert i visited) < n"
proof -
  have "{..<pc} - visited = insert i ({..<pc} - insert i visited)" using assms(1,2) by auto
  then have "card ({..<pc} - visited) = Suc (card ({..<pc} - insert i visited))" by simp
  then show ?thesis using assms(3) by simp
qed

lemma checkNode_returns:
  "visited \<subseteq> {..<pc} \<Longrightarrow> card ({..<pc} - visited) < n \<Longrightarrow>
     \<exists>r. checkNode n ctx p i visited pc pk = Some r \<and> grows pc visited r"
  "visited \<subseteq> {..<pc} \<Longrightarrow> card ({..<pc} - visited) < n \<Longrightarrow>
     \<exists>r. check_children n ctx p cs visited pc = Some r \<and> grows pc visited r"
proof (induction n ctx p i visited pc pk and n ctx p cs visited pc rule: checkNode_check_children.induct)
  case (2 n ctx p i visited pc pk)
  show ?case
  proof (cases "pc \<le> i \<or> i \<in> visited")
    case False
    then have i: "i < pc" "i \<notin> visited" by auto
    have v: "insert i visited \<subseteq> {..<pc}" "card ({..<pc} - insert i visited) < n"
      using i "2.prems" card_visit by auto
    have g: "grows pc visited r" if "grows pc (insert i visited) r" for r using that by (auto simp: grows_def)
    show ?thesis
    proof (cases "readPage ctx i p")
      case (Inr b)
      consider "b ! 0 = 1" | cs ks where "b ! 0 = 2" "decodeInternalNode b = Inr (cs, ks)" "ascending ks"
        | "b ! 0 \<noteq> 1" "\<forall>cs ks. \<not> (b ! 0 = 2 \<and> decodeInternalNode b = Inr (cs, ks) \<and> ascending ks)"
        by blast
      then show ?thesis
      proof cases
        case 1
        then show ?thesis using False Inr g [OF check_leaf_grows [OF v(1)]] by auto
      next
        case 2
        then obtain r where "check_children n ctx p (zip cs (None # map Some ks)) (insert i visited) pc = Some r"
          "grows pc (insert i visited) r"
          using "2.IH" [OF _ i(2) Inr _ _ 2(2) refl] i v by fastforce
        then show ?thesis using 2 False Inr g by auto
      next
        case 3
        then have "checkNode (Suc n) ctx p i visited pc pk = Some (Inl ErrTreeCorrupt)"
          using False Inr by (auto split: sum.splits)
        then show ?thesis by (simp add: grows_def del: checkNode.simps)
      qed
    qed (use False in \<open>auto simp: grows_def\<close>)
  qed (auto simp: grows_def)
next
  case (4 n ctx p c pk cs visited pc)
  then obtain r where r: "checkNode n ctx p c visited pc pk = Some r" "grows pc visited r" by blast
  show ?case
  proof (cases r)
    case (Inr v)
    then have v: "visited \<subseteq> v" "v \<subseteq> {..<pc}" using r(2) by (auto simp: grows_def)
    then have "card ({..<pc} - v) < n" using "4.prems"(2) card_mono [of "{..<pc} - visited" "{..<pc} - v"] by fastforce
    then show ?thesis using "4.IH"(2) [OF r(1) Inr v(2)] r(1) Inr v by (fastforce simp: grows_def)
  qed (use r in \<open>auto simp: grows_def\<close>)
qed (auto simp: grows_def)

lemma card_below: "card {..<pc :: u64} < Suc (unat pc)"
proof -
  have "card {..<pc} \<le> card {..<unat pc}"
    by (rule card_inj_on_le [of unat]) (auto simp: word_less_nat_alt inj_on_def intro: unsigned_word_eqI)
  then show ?thesis by simp
qed

lemma Check_returns: "\<exists>r. kv_Check ctx s = Some r"
proof -
  have "\<exists>r. checkNode (unat pc + 1) ctx (bt_pg s) (bt_root s) {} pc None = Some r" for pc
    using checkNode_returns(1) [of "{}" pc "unat pc + 1"] card_below by (fastforce simp del: checkNode.simps)
  then obtain r where r: "\<And>pc. checkNode (unat pc + 1) ctx (bt_pg s) (bt_root s) {} pc None = Some (r pc)" by metis
  show ?thesis unfolding kv_Check_def r by (auto split: option.splits sum.splits)
qed

lemma check_refs_small: "\<forall>v \<in> set vs. small_value v \<Longrightarrow> check_refs ctx p (map ref_of vs) visited pc = Inr visited"
  by (induction vs) (auto simp: ref_of_def small_value_def)

definition chain_below :: "u64 \<Rightarrow> tree \<Rightarrow> bool" where
  "chain_below pc t \<longleftrightarrow> (\<forall>l \<in> set (lvs t). nxt l = rootSentinel \<or> nxt l < pc)"

lemma check_tree:
  "wf_tree lo hi t \<Longrightarrow> repr (pager_reads p) t \<Longrightarrow> distinct (pages t) \<Longrightarrow> set (pages t) \<inter> visited = {}
   \<Longrightarrow> set (pages t) \<subseteq> {..<pc} \<Longrightarrow> chain_below pc t \<Longrightarrow> pk = None \<or> pk = lo
   \<Longrightarrow> checkNode n None p (tid t) visited pc pk \<in> {None, Some (Inr (visited \<union> set (pages t)))}"
  "wf_list lo hi ts ks \<Longrightarrow> \<forall>t \<in> set ts. repr (pager_reads p) t \<Longrightarrow> distinct (concat (map pages ts))
   \<Longrightarrow> set (concat (map pages ts)) \<inter> visited = {} \<Longrightarrow> set (concat (map pages ts)) \<subseteq> {..<pc}
   \<Longrightarrow> \<forall>t \<in> set ts. chain_below pc t \<Longrightarrow> pk = None \<or> pk = lo
   \<Longrightarrow> check_children n None p (zip (map tid ts) (pk # map Some ks)) visited pc
         \<in> {None, Some (Inr (visited \<union> set (concat (map pages ts))))}"
proof (induction lo hi t and lo hi ts ks arbitrary: n visited pk and n visited pk rule: wf_tree_wf_list.induct)
  case (1 lo hi i es nx)
  obtain b where b: "readPage None i p = Inr b" "b ! 0 = 1" "decodeLeafNodeRefs b = Inr (map fst es, map (ref_of \<circ> snd) es, nx)"
    using leaf_page [of p i es nx] "1.prems"(2) by auto
  have a: "ascending (map fst es)" "check_refs None p (map (ref_of \<circ> snd) es) (insert i visited) pc = Inr (insert i visited)"
    using "1.prems"(1) check_refs_small [of "map snd es"] by (simp add: ascending_iff, force)
  have "\<not> fst (es ! 0) < l" if "pk = Some l" "es \<noteq> []" for l
    using "1.prems"(1,7) that by (cases es) auto
  then have "check_leaf None p b (insert i visited) pc pk = Inr (insert i visited)"
    using a b(3) "1.prems"(6) by (auto simp: check_leaf_def chain_below_def split: option.splits)
  then show ?case using b "1.prems"(4,5) by (cases n) auto
next
  case (2 lo hi i ts ks)
  obtain b where b: "readPage None i p = Inr b" "b ! 0 = 2" "decodeInternalNode b = Inr (map tid ts, ks)"
    using internal_page [of p i ts ks] "2.prems"(2) by auto
  have "wf_list lo hi ts ks" using "2.prems"(1) by simp
  then have a: "ascending ks" using wf_list_keys by (auto simp: ascending_iff)
  have "check_children m None p (zip (map tid ts) (None # map Some ks)) (insert i visited) pc
      \<in> {None, Some (Inr (insert i visited \<union> set (concat (map pages ts))))}" for m
    using "2.prems" by (intro "2.IH") (auto simp: chain_below_def)
  then show ?case using a b "2.prems"(4,5) by (cases n) auto
next
  case (4 lo hi t ts)
  then have "checkNode n None p (tid t) visited pc pk \<in> {None, Some (Inr (visited \<union> set (pages t)))}" by (intro "4.IH") auto
  then show ?case using "4.prems"(1) by auto
next
  case (5 lo hi t ts k ks)
  have h: "checkNode n None p (tid t) visited pc pk \<in> {None, Some (Inr (visited \<union> set (pages t)))}"
    using "5.prems" by (intro "5.IH"(1)) auto
  have "check_children n None p (zip (map tid ts) (Some k # map Some ks)) (visited \<union> set (pages t)) pc
      \<in> {None, Some (Inr (visited \<union> set (pages t) \<union> set (concat (map pages ts))))}"
    using "5.prems" by (intro "5.IH"(2)) auto
  then show ?case using h by (auto simp: Un_assoc)
qed auto

lemma linked_next: "linked f ls \<Longrightarrow> (i, n) \<in> set ls \<Longrightarrow> n = rootSentinel \<or> n \<in> fst ` set ls"
proof (induction ls arbitrary: f)
  case (Cons x ls)
  obtain a c where "x = (a, c)" by (cases x)
  then show ?case using Cons by (cases ls) auto
qed simp

lemma Check_ok:
  assumes s: "bt_on s t"
  shows "kv_Check None s = Some (Inr ())"
proof -
  have r: "pager_inv (bt_pg s)" and tr: "wf_tree None None t" "repr (pager_reads (bt_pg s)) t" "distinct (pages t)"
    "set (pages t) \<subseteq> live (bt_pg s)" "linked (fst (hd (leaves t))) (leaves t)"
    using s by (auto simp: bt_on_def tree_rep_def pager_ready_def)
  let ?pc = "fp_pageCount (bt_pg s)"
  have pc: "PageCount (bt_pg s) = Inr ?pc" using r inv_checkState by (simp add: PageCount_def)
  have below: "set (pages t) \<subseteq> {..<?pc}" using tr(4) by (auto simp: live_def)
  have "nxt l = rootSentinel \<or> nxt l < ?pc" if l: "l \<in> set (lvs t)" for l
  proof -
    have "(tid l, nxt l) \<in> set (leaves t)" using l by (auto simp: lvs_leaves [symmetric])
    then have "nxt l = rootSentinel \<or> nxt l \<in> tid ` set (lvs t)"
      using linked_next [OF tr(5)] by (fastforce simp: lvs_leaves [symmetric] image_image)
    then show ?thesis using lvs_leaf below by fastforce
  qed
  then have "checkNode (unat ?pc + 1) None (bt_pg s) (tid t) {} ?pc None \<in> {None, Some (Inr ({} \<union> set (pages t)))}"
    using below by (intro check_tree(1) [OF tr(1-3)]) (auto simp: chain_below_def)
  moreover obtain x where "checkNode (unat ?pc + 1) None (bt_pg s) (tid t) {} ?pc None = Some x"
    using checkNode_returns(1) [of "{}" ?pc "unat ?pc + 1"] card_below by (fastforce simp del: checkNode.simps)
  ultimately have "checkNode (unat ?pc + 1) None (bt_pg s) (tid t) {} ?pc None = Some (Inr (set (pages t)))" by auto
  then show ?thesis
    using pc s bt_on_root [OF s] bt_rep_checkOpen [OF bt_on_rep [OF s]] by (simp add: kv_Check_def bt_on_def del: checkNode.simps)
qed

end
