(* ===== verification/Simulation.thy ===== *)
theory Simulation
  imports Main
begin

text \<open>
  The contract between an implementation whose operations may fail to return and an executable
  specification: one operation at a time, as long as a budget (of pages, identifiers, ...) lasts.
  From it follows the statement about whole runs.
\<close>

text \<open>Running a list of operations, collecting the responses.\<close>

fun impl_run :: "('op \<Rightarrow> 's \<Rightarrow> ('s \<times> 'r) option) \<Rightarrow> 'op list \<Rightarrow> 's \<Rightarrow> ('s \<times> 'r list) option" where
  "impl_run step [] s = Some (s, [])"
| "impl_run step (x # xs) s = (case step x s of None \<Rightarrow> None | Some (s, r) \<Rightarrow>
     (case impl_run step xs s of None \<Rightarrow> None | Some (s, rs) \<Rightarrow> Some (s, r # rs)))"

fun spec_run :: "('op \<Rightarrow> 'a \<Rightarrow> 'a \<times> 'r) \<Rightarrow> 'op list \<Rightarrow> 'a \<Rightarrow> 'a \<times> 'r list" where
  "spec_run spec [] a = (a, [])"
| "spec_run spec (x # xs) a = (case spec x a of (a, r) \<Rightarrow> case spec_run spec xs a of (a, rs) \<Rightarrow> (a, r # rs))"

locale simulation =
  fixes rel :: "nat \<Rightarrow> 's \<Rightarrow> 'a \<Rightarrow> bool"
    and step :: "'op \<Rightarrow> 's \<Rightarrow> ('s \<times> 'r) option"
    and spec :: "'op \<Rightarrow> 'a \<Rightarrow> 'a \<times> 'r"
    and admissible :: "'op \<Rightarrow> bool"
  assumes sim: "rel (Suc n) s a \<Longrightarrow> admissible x \<Longrightarrow>
    \<exists>s'. step x s = Some (s', snd (spec x a)) \<and> rel n s' (fst (spec x a))"
begin

lemma run:
  assumes "rel (length xs + n) s a" "\<forall>x \<in> set xs. admissible x"
  shows "\<exists>s'. impl_run step xs s = Some (s', snd (spec_run spec xs a)) \<and> rel n s' (fst (spec_run spec xs a))"
  using assms
proof (induction xs arbitrary: s a)
  case (Cons x xs)
  then obtain s' where "step x s = Some (s', snd (spec x a))" "rel (length xs + n) s' (fst (spec x a))"
    using sim [of "length xs + n" s a x] by auto
  then show ?case using Cons.IH [of s' "fst (spec x a)"] Cons.prems(2) by (auto split: prod.splits)
qed simp

end

end
