(* ===== verification/Btree_Props.thy ===== *)
theory Btree_Props
  imports Btree_Scan Simulation
begin

text \<open>
  The store as its clients see it: it refines an executable specification on sorted lists of
  entries, keeps its map over closing and reopening, and its consistency check ends on every file.
\<close>

section \<open>The specification\<close>

datatype kv_op = OpGet bytes | OpSet bytes bytes | OpDelete bytes | OpScan bytes bytes | OpCheck

datatype kv_resp = RValue "kv_err + bytes" | RUnit "kv_err + unit" | REntries "kv_err + (bytes \<times> bytes) list"

fun put_entry :: "bytes \<Rightarrow> bytes \<Rightarrow> (bytes \<times> bytes) list \<Rightarrow> (bytes \<times> bytes) list" where
  "put_entry k v [] = [(k, v)]"
| "put_entry k v ((k', v') # es) =
     (if k' < k then (k', v') # put_entry k v es else if k' = k then (k, v) # es else (k, v) # (k', v') # es)"

fun kv_spec :: "kv_op \<Rightarrow> (bytes \<times> bytes) list \<Rightarrow> (bytes \<times> bytes) list \<times> kv_resp" where
  "kv_spec (OpGet k) es = (es, RValue (case map_of es k of None \<Rightarrow> Inl ErrKeyNotFound | Some v \<Rightarrow> Inr v))"
| "kv_spec (OpSet k v) es =
     (if length k > 63 then (es, RUnit (Inl ErrKeyTooLarge))
      else if length v > 16777216 then (es, RUnit (Inl ErrValueTooLarge))
      else (put_entry k v es, RUnit (Inr ())))"
| "kv_spec (OpDelete k) es = (filter (\<lambda>e. fst e \<noteq> k) es, RUnit (Inr ()))"
| "kv_spec (OpScan start stop) es =
     (es, REntries (Inr (filter (\<lambda>e. start \<le> fst e \<and> (stop = [] \<or> fst e < stop)) es)))"
| "kv_spec OpCheck es = (es, RUnit (Inr ()))"

text \<open>The same operation on the store.\<close>

fun kv_exec :: "kv_op \<Rightarrow> btreeStore \<Rightarrow> (btreeStore \<times> kv_resp) option" where
  "kv_exec (OpGet k) s = map_option (\<lambda>r. (s, RValue r)) (kv_Get None k s)"
| "kv_exec (OpSet k v) s = map_option (\<lambda>(s, r). (s, RUnit r)) (kv_Set None k v s)"
| "kv_exec (OpDelete k) s = map_option (\<lambda>(s, r). (s, RUnit r)) (kv_Delete None k s)"
| "kv_exec (OpScan start stop) s = map_option (\<lambda>r. (s, REntries r)) (kv_Scan None start stop s)"
| "kv_exec OpCheck s = map_option (\<lambda>r. (s, RUnit r)) (kv_Check None s)"

text \<open>Values between 513 bytes and 16 MiB go to overflow pages and are not covered.\<close>

fun kv_admissible :: "kv_op \<Rightarrow> bool" where
  "kv_admissible (OpSet k v) \<longleftrightarrow> length v \<le> 512 \<or> 16777216 < length v \<or> 63 < length k"
| "kv_admissible _ \<longleftrightarrow> True"

text \<open>The store holds the entries and has pages left for \<open>n\<close> more operations.\<close>

definition kv_rel :: "nat \<Rightarrow> btreeStore \<Rightarrow> (bytes \<times> bytes) list \<Rightarrow> bool" where
  "kv_rel n s es \<longleftrightarrow>
     (bt_root s = rootSentinel \<and> es = [] \<and> bt_rep s Map.empty \<and> n * (n + 2) \<le> room (bt_pg s))
     \<or> (\<exists>t. bt_on s t \<and> contents t = es \<and> n * (depth t + n + 2) \<le> room (bt_pg s))"

lemma kv_rel_rep: "kv_rel n s es \<Longrightarrow> bt_rep s (map_of es)"
  by (auto simp: kv_rel_def dest: bt_on_rep)

section \<open>Sorted lists of entries and maps\<close>

lemma map_of_inject_sorted:
  assumes "sorted_wrt (<) (map fst xs)" "sorted_wrt (<) (map fst (ys :: (bytes \<times> bytes) list))" "map_of xs = map_of ys"
  shows "xs = ys"
proof -
  have d: "distinct (map fst xs)" "distinct (map fst ys)" using assms(1,2) strict_distinct by blast+
  then have "set xs = set ys" using assms(3) map_of_eq_Some_iff by (metis map_of_inject_set)
  then have "set (map fst xs) = set (map fst ys)" by simp
  then have k: "map fst xs = map fst ys" using assms(1,2) strict_sorted_equal by blast
  have "map_of xs = map_of ys" by (fact assms(3))
  then have "map (the \<circ> map_of xs) (map fst xs) = map (the \<circ> map_of ys) (map fst ys)" using k by simp
  moreover have "map (the \<circ> map_of zs) (map fst zs) = map snd zs" if "distinct (map fst zs)" for zs :: "(bytes \<times> bytes) list"
    using that by auto
  ultimately have "map snd xs = map snd ys" using d by metis
  then show ?thesis using k by (metis zip_map_fst_snd)
qed

lemma put_entry_map: "map_of (put_entry k v es) = (map_of es)(k \<mapsto> v)"
  by (induction es) (auto simp: fun_eq_iff)

lemma put_entry_keys: "fst ` set (put_entry k v es) = insert k (fst ` set es)"
  by (induction k v es rule: put_entry.induct) (simp_all add: insert_commute split: if_splits)

lemma put_entry_sorted: "sorted_wrt (<) (map fst es) \<Longrightarrow> sorted_wrt (<) (map fst (put_entry k v es))"
proof (induction es)
  case (Cons e es)
  obtain k' v' where e: "e = (k', v')" by (cases e)
  have "\<forall>x \<in> fst ` set (put_entry k v es). k' < x" if "k' < k"
    using Cons.prems that e by (auto simp: put_entry_keys)
  then show ?case using Cons e by (auto intro: order.strict_trans)
qed simp

lemma filter_map_of: "map_of (filter (\<lambda>e. fst e \<noteq> k) es) = (map_of es)(k := None)"
  by (induction es) (auto simp: fun_eq_iff)

lemma bt_on_sorted: "bt_on s t \<Longrightarrow> sorted_wrt (<) (map fst (contents t))"
  using wf_contents(1) by (auto simp: bt_on_def tree_rep_def)

section \<open>Every operation refines the specification\<close>

lemma kv_rel_sorted: "kv_rel n s es \<Longrightarrow> sorted_wrt (<) (map fst es)"
  using bt_on_sorted by (auto simp: kv_rel_def)

lemma kv_rel_next: "kv_rel (Suc n) s es \<Longrightarrow> kv_rel n s es"
  by (auto simp: kv_rel_def)

lemma sim_Set:
  assumes r: "kv_rel (Suc n) s es" and k: "length k \<le> 63" "length v \<le> 512"
  shows "\<exists>s'. kv_Set None k v s = Some (s', Inr ()) \<and> kv_rel n s' (put_entry k v es)"
proof (cases "bt_root s = rootSentinel")
  case True
  then have e: "es = []" "bt_rep s Map.empty" "Suc n * (Suc n + 2) \<le> room (bt_pg s)"
    using r bt_on_root by (auto simp: kv_rel_def)
  then obtain s' j where s': "setInEmpty None k v s = (s', Inr ())" "bt_on s' (Lf j [(k, v)] rootSentinel)"
    "room (bt_pg s) \<le> Suc (room (bt_pg s'))"
    using setInEmpty_ok [OF e(2) True, of k v] k by (auto simp: key_fits_def small_value_def)
  have "kv_Set None k v s = Some (s', Inr ())"
    using s'(1) True k bt_rep_checkOpen [OF e(2)] by (simp add: kv_Set_def)
  moreover have "n * (n + 2) \<le> room (bt_pg s')" using e(3) s'(3) by simp
  ultimately show ?thesis using s'(2) e(1) by (intro exI [of _ s']) (auto simp: kv_rel_def)
next
  case False
  then obtain t where t: "bt_on s t" "contents t = es" "Suc n * (depth t + Suc n + 2) \<le> room (bt_pg s)"
    using r by (auto simp: kv_rel_def)
  have "depth t + 2 \<le> room (bt_pg s)" using t(3) by (rule order_trans [rotated]) simp
  then obtain s' t' where s': "set_loop None (bt_root s) [] k v [] s = Some (s', Inr ())" "set_result t s k v s' t'"
    using set_loop_ok [OF t(1), of k v] k by (auto simp: key_fits_def small_value_def)
  then have o: "bt_on s' t'" "map_of (contents t') = (map_of (contents t))(k \<mapsto> v)" "depth t' \<le> Suc (depth t)"
    "room (bt_pg s) \<le> room (bt_pg s') + (depth t + 2)" by (auto simp: set_result_def)
  have "kv_Set None k v s = Some (s', Inr ())"
    using s'(1) False k bt_rep_checkOpen [OF bt_on_rep [OF t(1)]] by (simp add: kv_Set_def setInTree_def)
  moreover have "contents t' = put_entry k v es"
    using o(2) t(2) bt_on_sorted [OF o(1)] bt_on_sorted [OF t(1)]
    by (intro map_of_inject_sorted) (auto simp: put_entry_map put_entry_sorted)
  moreover have "n * (depth t' + n + 2) \<le> room (bt_pg s')"
  proof -
    have "n * (depth t' + n + 2) \<le> n * (depth t + Suc n + 2)" using o(3) by (intro mult_le_mono) auto
    also have "\<dots> \<le> room (bt_pg s')" using t(3) o(4) by simp
    finally show ?thesis .
  qed
  ultimately show ?thesis using o(1) by (intro exI [of _ s']) (auto simp: kv_rel_def)
qed

lemma sim_Delete:
  assumes r: "kv_rel n s es"
  shows "\<exists>s'. kv_Delete None k s = Some (s', Inr ()) \<and> kv_rel n s' (filter (\<lambda>e. fst e \<noteq> k) es)"
proof (cases "bt_root s = rootSentinel")
  case True
  then have e: "es = []" "bt_rep s Map.empty" using r bt_on_root by (auto simp: kv_rel_def)
  then show ?thesis
    using True r bt_rep_checkOpen [OF e(2)] by (intro exI [of _ s]) (simp add: kv_Delete_def)
next
  case False
  then obtain t where t: "bt_on s t" "contents t = es" "n * (depth t + n + 2) \<le> room (bt_pg s)"
    using r by (auto simp: kv_rel_def)
  obtain s' t' where s': "deleteFromTree None (bt_root s) k s = Some (s', Inr ())" "bt_on s' t'"
    "map_of (contents t') = (map_of (contents t))(k := None)" "depth t' \<le> depth t" "room (bt_pg s') = room (bt_pg s)"
    using delete_tree_ok [OF t(1)] by blast
  have "kv_Delete None k s = Some (s', Inr ())"
    using s'(1) False bt_rep_checkOpen [OF bt_on_rep [OF t(1)]] by (simp add: kv_Delete_def)
  moreover have "contents t' = filter (\<lambda>e. fst e \<noteq> k) es"
    using s'(3) t(2) bt_on_sorted [OF s'(2)] bt_on_sorted [OF t(1)]
    by (intro map_of_inject_sorted) (auto simp: filter_map_of sorted_wrt_map intro: sorted_wrt_filter)
  moreover have "n * (depth t' + n + 2) \<le> room (bt_pg s')"
    using t(3) s'(4,5) by (metis add_le_mono1 le_trans mult_le_mono2)
  ultimately show ?thesis using s'(2) by (intro exI [of _ s']) (auto simp: kv_rel_def)
qed

lemma sim_Scan:
  assumes "kv_rel n s es"
  shows "kv_Scan None start stop s = Some (Inr (filter (\<lambda>e. start \<le> fst e \<and> (stop = [] \<or> fst e < stop)) es))"
proof (cases "bt_root s = rootSentinel")
  case True
  then have e: "es = []" using assms bt_on_root by (auto simp: kv_rel_def)
  then show ?thesis using True bt_rep_checkOpen [OF kv_rel_rep [OF assms]] by (simp add: kv_Scan_def)
next
  case False
  then obtain t where "bt_on s t" "contents t = es" using assms by (auto simp: kv_rel_def)
  then show ?thesis using Scan_ok [of s t start stop] by (simp add: in_range_def [abs_def])
qed

lemma sim_Check:
  assumes "kv_rel n s es"
  shows "kv_Check None s = Some (Inr ())"
proof (cases "bt_root s = rootSentinel")
  case True
  then show ?thesis using bt_rep_checkOpen [OF kv_rel_rep [OF assms]] by (simp add: kv_Check_def)
next
  case False
  then show ?thesis using assms Check_ok by (auto simp: kv_rel_def)
qed

lemma sim_step:
  assumes r: "kv_rel (Suc n) s es" and a: "kv_admissible x"
  shows "\<exists>s'. kv_exec x s = Some (s', snd (kv_spec x es)) \<and> kv_rel n s' (fst (kv_spec x es))"
proof (cases x)
  case (OpGet k)
  then show ?thesis using Get_ok [OF kv_rel_rep [OF r]] kv_rel_next [OF r] by (simp add: get_result_def)
next
  case (OpSet k v)
  show ?thesis
  proof (cases "length k > 63 \<or> length v > 16777216")
    case True
    then show ?thesis using OpSet kv_rel_next [OF r] by (auto simp: kv_Set_def)
  next
    case False
    then have "length k \<le> 63" "length v \<le> 512" using a OpSet by auto
    then show ?thesis using sim_Set [OF r, of k v] OpSet False by auto
  qed
next
  case (OpDelete k)
  then show ?thesis using sim_Delete [OF kv_rel_next [OF r], of k] by auto
next
  case (OpScan start stop)
  then show ?thesis using sim_Scan [OF r] kv_rel_next [OF r] by simp
next
  case OpCheck
  then show ?thesis using sim_Check [OF r] kv_rel_next [OF r] by simp
qed

interpretation kvsim: simulation kv_rel kv_exec kv_spec kv_admissible
  by unfold_locales (rule sim_step)

section \<open>Opening\<close>

definition freshStore :: "btreeStore" where
  "freshStore = fst (kv_Open None (newBtreeStore freshPager))"

lemma freshStore_ok:
  "kv_Open None (newBtreeStore freshPager) = (freshStore, Inr ()) \<and> bt_root freshStore = rootSentinel
   \<and> bt_rep freshStore Map.empty \<and> room (bt_pg freshStore) = 2251799813685244
   \<and> live (bt_pg freshStore) = {2}"
proof -
  let ?s = "newBtreeStore freshPager"
  obtain q i where q: "AllocatePage None freshPager = (q, Inr i)" "live q = {i}" "room q = 2251799813685244"
    using fps.alloc_law [of freshPager] freshPager_inv by auto
  have "q = onePage" using q(1) by (simp add: onePage_def)
  then have i: "i = 2" "pager_ready q" using q(2) onePage_inv by auto
  obtain b w c where t: "BeginTx None q = (b, Inr ())" "WritePage None 2 (encodeMetaPage rootSentinel) b = (w, Inr ())"
    "CommitTx None w = (c, Inr ())" "fps.at_rest q ((pager_reads q)(2 := Inr (encodeMetaPage rootSentinel))) c"
    using fps.tx_one_page [OF i(2), of 2 "encodeMetaPage rootSentinel"] q(2) i(1) by auto
  have pc: "PageCount freshPager = Inr 2"
    using freshPager_inv inv_checkState freshPager_count(1) by (simp add: PageCount_def pager_ready_def)
  let ?f = "?s\<lparr>bt_pg := c, bt_isOpen := True\<rparr>"
  have o: "kv_Open None ?s = (?f, Inr ())"
    using pc q(1) i(1) t(1-3) by (simp add: kv_Open_def newBtreeStore_def pgcall_def)
  have "ReadPage None 2 c = Inr (encodeMetaPage rootSentinel)"
    using t(4) by (auto simp: fps.at_rest_def dest: fun_cong [of _ _ 2])
  then have "bt_rep ?f Map.empty"
    using t(4) q(2) i(1) by (simp add: bt_rep_def fps.at_rest_def newBtreeStore_def)
  then show ?thesis
    using o t(4) q(2,3) i(1) by (simp add: freshStore_def fps.at_rest_def newBtreeStore_def)
qed

lemma fresh_rel: "n \<le> 33554432 \<Longrightarrow> kv_rel n freshStore []"
proof -
  assume "n \<le> 33554432"
  then have "n * (n + 2) \<le> 33554432 * (33554432 + 2)" by (intro mult_le_mono) auto
  then show ?thesis using freshStore_ok by (simp add: kv_rel_def)
qed

text \<open>A store with one entry.\<close>

definition oneStore :: "btreeStore" where
  "oneStore = fst (the (kv_Set None [1] [2] freshStore))"

lemma oneStore_ok: "bt_rep oneStore [[1] \<mapsto> [2]]"
proof -
  obtain s where "kv_Set None [1] [2] freshStore = Some (s, Inr ())" "kv_rel 0 s [([1], [2])]"
    using sim_Set [OF fresh_rel, of 0 "[1]" "[2]"] by auto
  then show ?thesis using kv_rel_rep by (fastforce simp: oneStore_def)
qed

text \<open>Opening a store on a pager that already holds one.\<close>

lemma kv_Open_existing:
  assumes "bt_rep s m" "pager_ready p" "live p = live (bt_pg s)" "pager_reads p = pager_reads (bt_pg s)"
  shows "\<exists>s'. kv_Open None (newBtreeStore p) = (s', Inr ()) \<and> bt_rep s' m"
proof -
  have s: "2 \<in> live p" "ReadPage None 2 p = Inr (encodeMetaPage (bt_root s))"
    using assms(1,3) fun_cong [OF assms(4), of 2] by (auto simp: bt_rep_def)
  have pc: "PageCount p = Inr (fp_pageCount p)"
    using assms(2) inv_checkState by (simp add: PageCount_def pager_ready_def)
  have "fp_pageCount p \<noteq> 2" using s(1) by (auto simp: live_def)
  then have "kv_Open None (newBtreeStore p) = (newBtreeStore p\<lparr>bt_root := bt_root s, bt_isOpen := True\<rparr>, Inr ())"
    using pc s(2) by (simp add: kv_Open_def newBtreeStore_def readPage_view [THEN iffD2])
  moreover have "bt_rep (newBtreeStore p\<lparr>bt_root := bt_root s, bt_isOpen := True\<rparr>) m"
    using assms s by (simp add: bt_rep_def newBtreeStore_def)
  ultimately show ?thesis by blast
qed

section \<open>Properties\<close>



text \<open>C4: On any store that represents a map (however it got there), \<open>Set\<close> of a key and a value
  that fit a leaf succeeds, whether it updates, inserts, or splits nodes up to the root, and the
  store then represents the updated map: \<open>Get\<close> finds the new value under the key and the old
  values under all others.\<close>

theorem Set_updates_map:
  assumes "bt_rep s m" "length k \<le> 63" "length v \<le> 512" "card (live (bt_pg s)) + 2 \<le> room (bt_pg s)"
  shows "\<exists>s'. kv_Set None k v s = Some (s', Inr ()) \<and> bt_rep s' (m(k \<mapsto> v))
    \<and> (\<forall>k'. kv_Get None k' s' = Some (case (m(k \<mapsto> v)) k' of None \<Rightarrow> Inl ErrKeyNotFound | Some x \<Rightarrow> Inr x))"
proof -
  have kv: "key_fits k" "small_value v" using assms(2,3) by (simp_all add: key_fits_def small_value_def)
  have "\<exists>s'. kv_Set None k v s = Some (s', Inr ()) \<and> bt_rep s' (m(k \<mapsto> v))"
  proof (cases "bt_root s = rootSentinel")
    case True
    then obtain s' j where "setInEmpty None k v s = (s', Inr ())" "bt_on s' (Lf j [(k, v)] rootSentinel)"
      using setInEmpty_ok [OF assms(1) True kv] assms(4) by auto
    moreover have "m = Map.empty" using bt_rep_empty [OF assms(1) True] .
    ultimately show ?thesis
      using True assms(2,3) bt_rep_checkOpen [OF assms(1)] bt_on_rep [of s'] by (fastforce simp: kv_Set_def)
  next
    case False
    then obtain t where t: "bt_on s t" "m = map_of (contents t)" using bt_rep_on [OF assms(1)] by blast
    have "depth t + 2 \<le> room (bt_pg s)" using depth_live [OF t(1)] assms(4) by simp
    then obtain s' t' where "set_loop None (bt_root s) [] k v [] s = Some (s', Inr ())" "set_result t s k v s' t'"
      using set_loop_ok [OF t(1) kv] by blast
    then show ?thesis
      using False t(2) assms(2,3) bt_rep_checkOpen [OF assms(1)] bt_on_rep [of s' t']
      by (auto simp: kv_Set_def setInTree_def set_result_def)
  qed
  then show ?thesis using Get_ok by (fastforce simp: get_result_def)
qed

theorem Set_updates_map_witness:
  "\<exists>s'. kv_Set None [1] [2] freshStore = Some (s', Inr ()) \<and> kv_Get None [1] s' = Some (Inr [2])"
  using Set_updates_map [of freshStore Map.empty "[1]" "[2]"] freshStore_ok by auto

text \<open>C8: \<open>Scan\<close> on a store that represents a map returns exactly the entries of the map with a key
  in the range from \<open>start\<close> up to but not including \<open>stop\<close> (an empty bound is no bound), in
  strictly increasing key order.\<close>

theorem Scan_returns_range:
  assumes "bt_rep s m"
  shows "\<exists>es. kv_Scan None start stop s = Some (Inr es) \<and> sorted_wrt (<) (map fst es)
    \<and> (\<forall>k v. (k, v) \<in> set es \<longleftrightarrow> m k = Some v \<and> start \<le> k \<and> (stop = [] \<or> k < stop))"
proof (cases "bt_root s = rootSentinel")
  case True
  then show ?thesis
    using bt_rep_empty [OF assms True] bt_rep_checkOpen [OF assms] by (simp add: kv_Scan_def)
next
  case False
  then obtain t where t: "bt_on s t" "m = map_of (contents t)" using bt_rep_on [OF assms] by blast
  have d: "distinct (map fst (contents t))" using strict_distinct [OF bt_on_sorted [OF t(1)]] .
  have "sorted_wrt (<) (map fst (filter (in_range start stop) (contents t)))"
    using bt_on_sorted [OF t(1)] by (simp add: sorted_wrt_map sorted_wrt_filter)
  then show ?thesis
    using Scan_ok [OF t(1), of start stop] t(2) d by (auto simp: in_range_def)
qed

theorem Scan_returns_range_witness: "\<exists>es. kv_Scan None [] [] oneStore = Some (Inr es) \<and> set es = {([1], [2])}"
proof -
  obtain es where es: "kv_Scan None [] [] oneStore = Some (Inr es)"
    "\<forall>k v. (k, v) \<in> set es \<longleftrightarrow> [[1] \<mapsto> [2]] k = Some v \<and> [] \<le> k \<and> ([] = [] \<or> k < [])"
    using Scan_returns_range [OF oneStore_ok, of "[]" "[]"] by blast
  have "x \<in> set es \<longleftrightarrow> x = ([1], [2])" for x using es(2) by (cases x) (auto split: if_splits)
  then show ?thesis using es(1) by blast
qed

text \<open>C18: The consistency check ends on every store, whatever the pages contain (cycles and shared
  pages included): the counter that bounds its recursion, one more than the page count, is never
  used up.\<close>

theorem Check_terminates: "\<exists>r. kv_Check ctx s = Some r"
  by (rule Check_returns)

text \<open>C19: Closing the store and its pager and opening both again on the two files gives a store
  that represents the same map.\<close>

theorem store_reopen:
  assumes "bt_rep s m" "\<forall>xs. mset (ord xs) = mset xs"
  shows "\<exists>s1 q p s2. kv_Close s = (s1, Inr ()) \<and> pager_Close (bt_pg s1) = (q, Inr ())
    \<and> pager_Open None (newPager 0 (fp_main q) (fp_wal q) [] ord) = (p, Inr ())
    \<and> kv_Open None (newBtreeStore p) = (s2, Inr ()) \<and> bt_rep s2 m"
proof -
  have r: "pager_ready (bt_pg s)" "\<not> bt_closed s" using assms(1) by (auto simp: bt_rep_def)
  then obtain q p where "pager_Close (bt_pg s) = (q, Inr ())"
    "pager_Open None (newPager 0 (fp_main q) (fp_wal q) [] ord) = (p, Inr ())"
    "pager_ready p" "live p = live (bt_pg s)" "pager_reads p = pager_reads (bt_pg s)"
    using close_reopen_ok [of "bt_pg s" ord] assms(2) by (auto simp: pager_ready_def)
  then show ?thesis using kv_Open_existing [OF assms(1)] r(2) by (fastforce simp: kv_Close_def)
qed

theorem store_reopen_witness:
  "\<exists>s1 q p s2. kv_Close oneStore = (s1, Inr ()) \<and> pager_Close (bt_pg s1) = (q, Inr ())
    \<and> pager_Open None (newPager 0 (fp_main q) (fp_wal q) [] id) = (p, Inr ())
    \<and> kv_Open None (newBtreeStore p) = (s2, Inr ()) \<and> bt_rep s2 [[1] \<mapsto> [2]]"
  using store_reopen [OF oneStore_ok, of id] by simp

end
