(* ===== verification/Btree_Compact.thy ===== *)
theory Btree_Compact
  imports Btree
begin

text \<open>
  \<open>Compact\<close> of \<open>kv/btree.go\<close>: the scan of the old tree, the bottom-up construction of the new one,
  the swap of the root and the release of the old pages, statement by statement.
\<close>

section \<open>Freeing the old tree\<close>

text \<open>A call of \<open>FreePage\<close> whose result is ignored.\<close>

definition free_ignored :: "ctx \<Rightarrow> u64 \<Rightarrow> btreeStore \<Rightarrow> btreeStore" where
  "free_ignored ctx pageID s = fst (pgcall (FreePage ctx pageID) s)"

function freeOverflowChain :: "ctx \<Rightarrow> u64 \<Rightarrow> u64 set \<Rightarrow> btreeStore \<Rightarrow> btreeStore \<times> u64 set" where
  "freeOverflowChain ctx pageID visited s =
     (if pageID = rootSentinel \<or> pageID = 0 \<or> pageID \<in> visited then (s, visited)
      else (case readPage ctx pageID (bt_pg s) of
          Inl e \<Rightarrow> (s, insert pageID visited)
        | Inr body \<Rightarrow>
          (case decodeOverflowPage body of
             Inl e \<Rightarrow> (s, insert pageID visited)
           | Inr (nextPtr, chunk) \<Rightarrow>
             freeOverflowChain ctx nextPtr (insert pageID visited) (free_ignored ctx pageID s))))"
  by pat_completeness auto
termination
  by (relation "measure (\<lambda>(ctx, pid, visited, s). card (UNIV - visited))")
    (auto simp del: card_Diff_insert simp add: card_unseen_less)

declare freeOverflowChain.simps [simp del]

fun free_refs :: "ctx \<Rightarrow> leafValueRef list \<Rightarrow> u64 set \<Rightarrow> btreeStore \<Rightarrow> btreeStore \<times> u64 set" where
  "free_refs ctx [] visited s = (s, visited)"
| "free_refs ctx (ref # refs) visited s =
     (if hasOverflow ref then
        (case freeOverflowChain ctx (overflowPageID ref) visited s of
           (s, visited) \<Rightarrow> free_refs ctx refs visited s)
      else free_refs ctx refs visited s)"

text \<open>
  The recursion over the tree is bounded by a counter that starts above the page count: a page that
  is not below it cannot be read, and a page is entered once.
\<close>

fun freeNode :: "nat \<Rightarrow> ctx \<Rightarrow> u64 \<Rightarrow> u64 set \<Rightarrow> btreeStore \<Rightarrow> (btreeStore \<times> u64 set) option"
  and free_children :: "nat \<Rightarrow> ctx \<Rightarrow> u64 list \<Rightarrow> u64 set \<Rightarrow> btreeStore \<Rightarrow> (btreeStore \<times> u64 set) option" where
  "freeNode 0 ctx pageID visited s = None"
| "freeNode (Suc n) ctx pageID visited s =
     (if pageID = rootSentinel \<or> pageID = 0 \<or> pageID \<in> visited then Some (s, visited)
      else (case readPage ctx pageID (bt_pg s) of
          Inl e \<Rightarrow> Some (s, insert pageID visited)
        | Inr body \<Rightarrow>
          if body ! 0 = NodeTypeLeaf then
            (let refs = (case decodeLeafNodeRefs body of Inl e \<Rightarrow> [] | Inr (keys, refs, nextLeaf) \<Rightarrow> refs) in
             case free_refs ctx refs (insert pageID visited) s of
               (s, visited) \<Rightarrow> Some (free_ignored ctx pageID s, visited))
          else if body ! 0 = NodeTypeInternal then
            (let childPtrs = (case decodeInternalNode body of Inl e \<Rightarrow> [] | Inr (childPtrs, ikeys) \<Rightarrow> childPtrs) in
             case free_children n ctx childPtrs (insert pageID visited) s of
               None \<Rightarrow> None
             | Some (s, visited) \<Rightarrow> Some (free_ignored ctx pageID s, visited))
          else Some (free_ignored ctx pageID s, insert pageID visited)))"
| "free_children n ctx [] visited s = Some (s, visited)"
| "free_children n ctx (c # cs) visited s =
     (case freeNode n ctx c visited s of
        None \<Rightarrow> None
      | Some (s, visited) \<Rightarrow> free_children n ctx cs visited s)"

definition freeTreePages :: "ctx \<Rightarrow> u64 \<Rightarrow> btreeStore \<Rightarrow> btreeStore option" where
  "freeTreePages ctx rootPageID s =
     (if rootPageID = rootSentinel then Some s
      else map_option fst (freeNode (unat (fp_pageCount (bt_pg s)) + 2) ctx rootPageID {} s))"

section \<open>Building the new tree\<close>

text \<open>The values of one leaf; a large value gets a new overflow chain allocated (it is not written).\<close>

fun compact_vals :: "ctx \<Rightarrow> (bytes \<times> bytes) list \<Rightarrow> btreeStore \<Rightarrow> btreeStore \<times> bytes list" where
  "compact_vals ctx [] s = (s, [])"
| "compact_vals ctx ((k, v) # es) s =
     (case (if length v > MaxValSize then prepareOverflow ctx v s else (s, [], v)) of
        (s, ovIDs, packed) \<Rightarrow>
      case compact_vals ctx es s of (s, vals) \<Rightarrow> (s, packed # vals))"

definition leaf_chunk :: "nat \<Rightarrow> 'a list \<Rightarrow> 'a list" where
  "leaf_chunk i entries =
     (let start = i * MaxLeafKeys;
          stop = (if start + MaxLeafKeys > length entries then length entries else start + MaxLeafKeys)
      in gslice start stop entries)"

primrec compact_leaves :: "ctx \<Rightarrow> nat list \<Rightarrow> (bytes \<times> bytes) list \<Rightarrow> btreeStore
    \<Rightarrow> btreeStore \<times> (kv_err + (u64 \<times> bytes) list)" where
  "compact_leaves ctx [] entries s = (s, Inr [])"
| "compact_leaves ctx (i # is) entries s =
     (let chunk = leaf_chunk i entries in
      case compact_vals ctx chunk s of (s, vals) \<Rightarrow>
      case pgcall (AllocatePage ctx) s of (s, Inl e) \<Rightarrow> (s, Inl e) | (s, Inr leafID) \<Rightarrow>
      case encodeLeafNode (map fst chunk) vals rootSentinel of Inl e \<Rightarrow> (s, Inl e) | Inr leafBody \<Rightarrow>
      case compact_leaves ctx is entries s of (s, Inl e) \<Rightarrow> (s, Inl e) | (s, Inr pages) \<Rightarrow>
      (s, Inr ((leafID, leafBody) # pages)))"

text \<open>The second pass over the leaves, with the next pointers.\<close>

primrec compact_patch :: "ctx \<Rightarrow> nat list \<Rightarrow> (bytes \<times> bytes) list \<Rightarrow> u64 list \<Rightarrow> (u64 \<times> bytes) list \<Rightarrow> btreeStore
    \<Rightarrow> btreeStore \<times> (kv_err + (u64 \<times> bytes) list)" where
  "compact_patch ctx [] entries leafPageIDs newPages s = (s, Inr newPages)"
| "compact_patch ctx (i # is) entries leafPageIDs newPages s =
     (let chunk = leaf_chunk i entries in
      case compact_vals ctx chunk s of (s, vals) \<Rightarrow>
      case encodeLeafNode (map fst chunk) vals (leafPageIDs ! (i + 1)) of Inl e \<Rightarrow> (s, Inl e) | Inr leafBody \<Rightarrow>
      compact_patch ctx is entries leafPageIDs (newPages[i := (fst (newPages ! i), leafBody)]) s)"

text \<open>The separator keys of an internal node whose first child has index \<open>start\<close> in its level.\<close>

definition sep_keys :: "(bytes \<times> bytes) list \<Rightarrow> nat \<Rightarrow> nat \<Rightarrow> bytes list" where
  "sep_keys entries start numChildren =
     map (\<lambda>j. let firstIdx = start + (j + 1) * MaxLeafKeys;
                 firstIdx = (if firstIdx \<ge> length entries then length entries - 1 else firstIdx)
             in fst (entries ! firstIdx)) [0 ..< numChildren - 1]"

primrec compact_level :: "ctx \<Rightarrow> nat list \<Rightarrow> (bytes \<times> bytes) list \<Rightarrow> u64 list \<Rightarrow> btreeStore
    \<Rightarrow> btreeStore \<times> (kv_err + (u64 \<times> bytes) list)" where
  "compact_level ctx [] entries currentLevel s = (s, Inr [])"
| "compact_level ctx (i # is) entries currentLevel s =
     (let start = i * (MaxInternalKeys + 1);
          stop = (if start + (MaxInternalKeys + 1) > length currentLevel then length currentLevel
                  else start + (MaxInternalKeys + 1));
          children = gslice start stop currentLevel in
      case pgcall (AllocatePage ctx) s of (s, Inl e) \<Rightarrow> (s, Inl e) | (s, Inr intID) \<Rightarrow>
      case encodeInternalNode children (sep_keys entries start (length children)) of
        Inl e \<Rightarrow> (s, Inl e)
      | Inr intBody \<Rightarrow>
        (case compact_level ctx is entries currentLevel s of (s, Inl e) \<Rightarrow> (s, Inl e) | (s, Inr pages) \<Rightarrow>
         (s, Inr ((intID, intBody) # pages))))"

partial_function (option) compact_levels :: "ctx \<Rightarrow> (bytes \<times> bytes) list \<Rightarrow> u64 list \<Rightarrow> (u64 \<times> bytes) list
    \<Rightarrow> btreeStore \<Rightarrow> (btreeStore \<times> (kv_err + (u64 \<times> (u64 \<times> bytes) list))) option" where
  "compact_levels ctx entries currentLevel newPages s =
     (if length currentLevel > 1 then
        (let numInternals = (length currentLevel + (MaxInternalKeys + 1) - 1) div (MaxInternalKeys + 1) in
         case compact_level ctx [0 ..< numInternals] entries currentLevel s of
           (s, Inl e) \<Rightarrow> Some (s, Inl e)
         | (s, Inr pages) \<Rightarrow> compact_levels ctx entries (map fst pages) (newPages @ pages) s)
      else Some (s, Inr (currentLevel ! 0, newPages)))"

fun compact_write :: "ctx \<Rightarrow> (u64 \<times> bytes) list \<Rightarrow> btreeStore \<Rightarrow> btreeStore \<times> (kv_err + unit)" where
  "compact_write ctx [] s = (s, Inr ())"
| "compact_write ctx ((pid, body) # pages) s =
     (case pgcall (WritePage ctx pid body) s of (s, Inl e) \<Rightarrow> (s, Inl e) | (s, Inr _) \<Rightarrow>
      compact_write ctx pages s)"

text \<open>The transaction that swaps the root, the update of the root in memory and the release of the old tree.\<close>

definition compact_swap :: "ctx \<Rightarrow> u64 \<Rightarrow> btreeStore \<Rightarrow> (btreeStore \<times> (kv_err + unit)) option" where
  "compact_swap ctx newRootID s =
     (let oldRootPageID = bt_root s in
      case pgcall (BeginTx ctx) s of (s, Inl e) \<Rightarrow> Some (s, Inl e) | (s, Inr _) \<Rightarrow>
      case pgcall (WritePage ctx MetaPageID (encodeMetaPage newRootID)) s of
        (s, Inl e) \<Rightarrow> Some (rollback ctx s, Inl e)
      | (s, Inr _) \<Rightarrow>
        (case pgcall (CommitTx ctx) s of (s, Inl e) \<Rightarrow> Some (s, Inl e) | (s, Inr _) \<Rightarrow>
         (case freeTreePages ctx oldRootPageID (s\<lparr>bt_root := newRootID\<rparr>) of
            None \<Rightarrow> None
          | Some s \<Rightarrow> Some (s, Inr ()))))"

definition compact_build :: "ctx \<Rightarrow> (bytes \<times> bytes) list \<Rightarrow> btreeStore
    \<Rightarrow> (btreeStore \<times> (kv_err + (u64 \<times> (u64 \<times> bytes) list))) option" where
  "compact_build ctx entries s =
     (let numLeaves = (length entries + MaxLeafKeys - 1) div MaxLeafKeys in
      case compact_leaves ctx [0 ..< numLeaves] entries s of (s, Inl e) \<Rightarrow> Some (s, Inl e) | (s, Inr newPages) \<Rightarrow>
      (let leafPageIDs = map fst newPages in
       case compact_patch ctx [0 ..< numLeaves - 1] entries leafPageIDs newPages s of
         (s, Inl e) \<Rightarrow> Some (s, Inl e)
       | (s, Inr newPages) \<Rightarrow> compact_levels ctx entries leafPageIDs newPages s))"

definition kv_Compact :: "ctx \<Rightarrow> btreeStore \<Rightarrow> (btreeStore \<times> (kv_err + unit)) option" where
  "kv_Compact ctx s =
     (case checkOpen s of Some e \<Rightarrow> Some (s, Inl e) | None \<Rightarrow>
      if bt_root s = rootSentinel then Some (s, Inr ())
      else (case scanAll ctx s of
          None \<Rightarrow> None
        | Some (Inl e) \<Rightarrow> Some (s, Inl e)
        | Some (Inr entries) \<Rightarrow>
          if entries = [] then compact_swap ctx rootSentinel s
          else (case compact_build ctx entries s of
              None \<Rightarrow> None
            | Some (s, Inl e) \<Rightarrow> Some (s, Inl e)
            | Some (s, Inr (newRootID, newPages)) \<Rightarrow>
              (case compact_write ctx newPages s of (s, Inl e) \<Rightarrow> Some (s, Inl e) | (s, Inr _) \<Rightarrow>
               case readPage ctx newRootID (bt_pg s) of
                 Inl e \<Rightarrow> Some (s, Inl ErrTreeCorrupt)
               | Inr _ \<Rightarrow> compact_swap ctx newRootID s))))"

end
