(* ===== verification/Mem_Store.thy ===== *)
theory Mem_Store
  imports Key Btree_Props
begin

text \<open>
  The in-memory ordered store of \<open>sql/store/store.go\<close>: a sorted slice searched with
  \<open>sort.Search\<close>.  It meets the same specification as the tree store, so the two are
  interchangeable.  The receiver is an option (\<open>None\<close> is the nil pointer); the lock is not modelled.
\<close>

section \<open>Model\<close>

text \<open>\<open>sort.Search\<close> on the interval from \<open>i\<close> to \<open>j\<close>.\<close>

function sort_Search :: "(nat \<Rightarrow> bool) \<Rightarrow> nat \<Rightarrow> nat \<Rightarrow> nat" where
  "sort_Search f i j =
     (if i < j then (let h = (i + j) div 2 in if \<not> f h then sort_Search f (h + 1) j else sort_Search f i h)
      else i)"
  by pat_completeness auto
termination by (relation "measure (\<lambda>(f, i, j). j - i)") auto

declare sort_Search.simps [simp del]

type_synonym memStore = "(Key \<times> bytes) list"

datatype mem_err = ErrNotFound | ErrNilStore

definition mem_index :: "Key \<Rightarrow> memStore \<Rightarrow> nat" where
  "mem_index k es = sort_Search (\<lambda>i. Key_Compare (fst (es ! i)) k \<ge> 0) 0 (length es)"

definition mem_search :: "Key \<Rightarrow> memStore \<Rightarrow> nat \<times> bool" where
  "mem_search k es =
     (let idx = mem_index k es in
      if idx < length es \<and> Key_Compare (fst (es ! idx)) k = 0 then (idx, True) else (idx, False))"

definition mem_Put :: "Key \<Rightarrow> bytes \<Rightarrow> memStore option \<Rightarrow> memStore option \<times> (mem_err + unit)" where
  "mem_Put k value s =
     (case s of None \<Rightarrow> (s, Inl ErrNilStore) | Some es \<Rightarrow>
      (case mem_search k es of (idx, found) \<Rightarrow>
        if found then (Some (es[idx := (fst (es ! idx), value)]), Inr ())
        else (Some (take idx es @ (k, value) # drop idx es), Inr ())))"

definition mem_Get :: "Key \<Rightarrow> memStore option \<Rightarrow> mem_err + bytes" where
  "mem_Get k s =
     (case s of None \<Rightarrow> Inl ErrNilStore | Some es \<Rightarrow>
      if \<not> snd (mem_search k es) then Inl ErrNotFound
      else Inr (snd (es ! mem_index k es)))"

definition mem_Delete :: "Key \<Rightarrow> memStore option \<Rightarrow> memStore option \<times> (mem_err + unit)" where
  "mem_Delete k s =
     (case s of None \<Rightarrow> (s, Inl ErrNilStore) | Some es \<Rightarrow>
      (case mem_search k es of (idx, found) \<Rightarrow>
        if \<not> found then (Some es, Inr ()) else (Some (take idx es @ drop (idx + 1) es), Inr ())))"

definition mem_Len :: "memStore option \<Rightarrow> nat" where
  "mem_Len s = (case s of None \<Rightarrow> 0 | Some es \<Rightarrow> length es)"

fun mem_scan_loop :: "Key \<Rightarrow> (Key \<times> bytes) list \<Rightarrow> (Key \<times> bytes) list" where
  "mem_scan_loop stop [] = []"
| "mem_scan_loop stop (e # es) = (if Key_Compare (fst e) stop \<ge> 0 then [] else e # mem_scan_loop stop es)"

definition mem_Scan :: "Key \<Rightarrow> Key \<Rightarrow> memStore option \<Rightarrow> mem_err + (Key \<times> bytes) list" where
  "mem_Scan start stop s =
     (case s of None \<Rightarrow> Inl ErrNilStore | Some es \<Rightarrow>
      if Key_Compare start stop \<ge> 0 then Inr []
      else Inr (mem_scan_loop stop (drop (mem_index start es) es)))"

section \<open>Binary search\<close>

text \<open>On a monotone predicate \<open>sort.Search\<close> finds the boundary.\<close>

lemma mid: "i < j \<Longrightarrow> i \<le> (i + j) div 2 \<and> (i + j) div 2 < (j :: nat)"
  by auto

lemma sort_Search_step:
  "i < j \<Longrightarrow> sort_Search f i j =
     (if f ((i + j) div 2) then sort_Search f i ((i + j) div 2) else sort_Search f (Suc ((i + j) div 2)) j)"
  "\<not> i < j \<Longrightarrow> sort_Search f i j = i"
  using sort_Search.simps [of f i j] by (auto simp: Let_def)

lemma sort_Search_bounds: "i \<le> j \<Longrightarrow> i \<le> sort_Search f i j \<and> sort_Search f i j \<le> j"
proof (induction f i j rule: sort_Search.induct)
  case (1 f i j)
  show ?case
  proof (cases "i < j")
    case True
    note m = mid [OF True]
    show ?thesis
    proof (cases "f ((i + j) div 2)")
      case False
      then show ?thesis using 1(1) [OF True refl] m True by (auto simp: sort_Search_step)
    next
      case t: True
      then show ?thesis using 1(2) [OF True refl] m True by (auto simp: sort_Search_step)
    qed
  qed (use 1(3) in \<open>simp add: sort_Search_step\<close>)
qed

lemma sort_Search_boundary:
  assumes "i \<le> j" "\<And>a b. a \<le> b \<Longrightarrow> b < j \<Longrightarrow> f a \<Longrightarrow> f b"
  shows "(\<forall>h. i \<le> h \<longrightarrow> h < sort_Search f i j \<longrightarrow> \<not> f h) \<and> (\<forall>h. sort_Search f i j \<le> h \<longrightarrow> h < j \<longrightarrow> f h)"
  using assms
proof (induction f i j rule: sort_Search.induct)
  case (1 f i j)
  show ?case
  proof (cases "i < j")
    case True
    note m = mid [OF True]
    let ?h = "(i + j) div 2"
    show ?thesis
    proof (cases "f ?h")
      case False
      have "\<not> f h" if "h \<le> ?h" for h using 1(4) [of h ?h] that False m by blast
      moreover have "(\<forall>h. Suc ?h \<le> h \<longrightarrow> h < sort_Search f (Suc ?h) j \<longrightarrow> \<not> f h)
          \<and> (\<forall>h. sort_Search f (Suc ?h) j \<le> h \<longrightarrow> h < j \<longrightarrow> f h)"
        using 1(1) [OF True refl False] m 1(4) by simp
      ultimately show ?thesis using True False by (simp add: sort_Search_step not_less_eq_eq) (meson not_less_eq_eq)
    next
      case t: True
      have "f h" if "?h \<le> h" "h < j" for h using 1(4) [of ?h h] that t by blast
      moreover have "(\<forall>h. i \<le> h \<longrightarrow> h < sort_Search f i ?h \<longrightarrow> \<not> f h) \<and> (\<forall>h. sort_Search f i ?h \<le> h \<longrightarrow> h < ?h \<longrightarrow> f h)"
      proof (rule 1(2) [OF True refl])
        fix a b assume "a \<le> b" "b < ?h" "f a"
        then show "f b" using 1(4) [of a b] m by linarith
      qed (use t m in auto)
      ultimately show ?thesis using True t by (simp add: sort_Search_step) (meson linorder_not_less)
    qed
  qed (use 1(3) in \<open>simp add: sort_Search_step\<close>)
qed

section \<open>The slice stays sorted\<close>

definition plain :: "memStore \<Rightarrow> (bytes \<times> bytes) list" where
  "plain es = map (\<lambda>(k, v). (kdata k, v)) es"

definition mem_ok :: "memStore \<Rightarrow> bool" where
  "mem_ok es \<longleftrightarrow> sorted_wrt (<) (map fst (plain es))"

lemma plain_simps [simp]: "length (plain es) = length es" "plain [] = []" "plain (xs @ ys) = plain xs @ plain ys"
  "plain ((k, v) # es) = (kdata k, v) # plain es" "plain (take i es) = take i (plain es)" "plain (drop i es) = drop i (plain es)"
  by (simp_all add: plain_def take_map drop_map)

lemma plain_nth: "i < length es \<Longrightarrow> plain es ! i = (kdata (fst (es ! i)), snd (es ! i))"
  by (simp add: plain_def split_beta)

lemma mem_index_split:
  assumes "mem_ok es"
  shows "mem_index k es \<le> length es \<and> (\<forall>e \<in> set (take (mem_index k es) (plain es)). fst e < kdata k)
    \<and> (\<forall>e \<in> set (drop (mem_index k es) (plain es)). kdata k \<le> fst e)"
proof -
  let ?f = "\<lambda>i. Key_Compare (fst (es ! i)) k \<ge> 0" and ?n = "mem_index k es"
  have f: "?f i \<longleftrightarrow> kdata k \<le> fst (plain es ! i)" if "i < length es" for i
    using that by (simp add: Key_Compare_def plain_nth linorder_not_less [symmetric])
  have "?f b" if "a \<le> b" "b < length es" "?f a" for a b
  proof -
    have "fst (plain es ! a) \<le> fst (plain es ! b)"
      using assms that sorted_wrt_nth_less [of "(<)" "map fst (plain es)" a b]
      by (cases "a = b") (auto simp: mem_ok_def)
    then show ?thesis using that f [of a] f [of b] by simp
  qed
  then have b: "(\<forall>h. 0 \<le> h \<longrightarrow> h < ?n \<longrightarrow> \<not> ?f h) \<and> (\<forall>h. ?n \<le> h \<longrightarrow> h < length es \<longrightarrow> ?f h)"
    unfolding mem_index_def by (intro sort_Search_boundary) auto
  have n: "?n \<le> length es" using sort_Search_bounds [of 0 "length es"] by (simp add: mem_index_def)
  have "fst e < kdata k" if "e \<in> set (take ?n (plain es))" for e
    using that b n f by (auto simp: in_set_conv_nth linorder_not_le)
  moreover have "kdata k \<le> fst e" if "e \<in> set (drop ?n (plain es))" for e
    using that b n f by (auto simp: in_set_conv_nth)
  ultimately show ?thesis using n by blast
qed

text \<open>The entries below the key, and those from it on.\<close>

definition parts :: "Key \<Rightarrow> memStore \<Rightarrow> (bytes \<times> bytes) list \<Rightarrow> (bytes \<times> bytes) list \<Rightarrow> bool" where
  "parts k es l r \<longleftrightarrow> plain es = l @ r \<and> r = drop (mem_index k es) (plain es) \<and> l = take (mem_index k es) (plain es)
     \<and> (\<forall>e \<in> set l. fst e < kdata k) \<and> (\<forall>e \<in> set r. kdata k \<le> fst e) \<and> sorted_wrt (<) (map fst r)
     \<and> mem_search k es = (length l, r \<noteq> [] \<and> fst (hd r) = kdata k) \<and> mem_index k es = length l"

lemma mem_split:
  assumes "mem_ok es"
  shows "\<exists>l r. parts k es l r"
proof -
  let ?n = "mem_index k es"
  let ?l = "take ?n (plain es)" and ?r = "drop ?n (plain es)"
  note m = mem_index_split [OF assms, of k]
  have "sorted_wrt (<) (map fst ?r)" using assms by (simp add: mem_ok_def drop_map [symmetric] sorted_wrt_drop)
  moreover have "Key_Compare (fst (es ! ?n)) k = 0 \<longleftrightarrow> fst (hd ?r) = kdata k" if "?n < length es"
    using that by (simp add: Key_Compare_def hd_drop_conv_nth plain_nth)
  then have "mem_search k es = (length ?l, ?r \<noteq> [] \<and> fst (hd ?r) = kdata k)"
    using m by (auto simp: mem_search_def Let_def)
  moreover have "?n = length ?l" using m by simp
  ultimately have "parts k es ?l ?r" using m unfolding parts_def by (intro conjI) (simp_all del: plain_simps(5,6))
  then show ?thesis by blast
qed

lemma put_entry_append: "\<forall>e \<in> set l. fst e < k \<Longrightarrow> put_entry k v (l @ r) = l @ put_entry k v r"
  by (induction l) auto

lemma put_entry_from: "\<forall>e \<in> set r. k \<le> fst e \<Longrightarrow>
  put_entry k v r = (if r \<noteq> [] \<and> fst (hd r) = k then (k, v) # tl r else (k, v) # r)"
  by (cases r) auto

lemma from_key:
  assumes "sorted_wrt (<) (map fst r)" "\<forall>e \<in> set r. (k :: bytes) \<le> fst e" "r \<noteq> []"
  shows "\<forall>e \<in> set (tl r). fst e \<noteq> k" "fst (hd r) \<noteq> k \<Longrightarrow> \<forall>e \<in> set r. fst e \<noteq> k"
proof -
  obtain e es where r: "r = e # es" using assms(3) by (cases r) auto
  have l: "fst e < fst x" if "x \<in> set es" for x using assms(1) r that by auto
  have k: "k \<le> fst e" using assms(2) r by auto
  have "fst x \<noteq> k" if "x \<in> set es" for x using l [OF that] k by (metis leD)
  then show "\<forall>e \<in> set (tl r). fst e \<noteq> k" "fst (hd r) \<noteq> k \<Longrightarrow> \<forall>e \<in> set r. fst e \<noteq> k" using r by auto
qed

section \<open>The operations\<close>

lemma mem_Put_ok:
  assumes "mem_ok es"
  shows "\<exists>es'. mem_Put k v (Some es) = (Some es', Inr ()) \<and> plain es' = put_entry (kdata k) v (plain es)"
proof -
  obtain l r where lr: "parts k es l r" using mem_split [OF assms] by blast
  then have s: "plain es = l @ r" "l = take (mem_index k es) (plain es)" "r = drop (mem_index k es) (plain es)"
    "\<forall>e \<in> set l. fst e < kdata k" "\<forall>e \<in> set r. kdata k \<le> fst e"
    "mem_search k es = (length l, r \<noteq> [] \<and> fst (hd r) = kdata k)" "mem_index k es = length l"
    unfolding parts_def by blast+
  have p: "put_entry (kdata k) v (plain es) = l @ put_entry (kdata k) v r" using s(1,4) put_entry_append by simp
  show ?thesis
  proof (cases "r \<noteq> [] \<and> fst (hd r) = kdata k")
    case True
    then have n: "length l < length es" using s(1) plain_simps(1) [of es] by (cases r) auto
    have "kdata (fst (es ! length l)) = kdata k"
      using True n s(3,7) by (simp add: hd_drop_conv_nth plain_nth)
    then have "plain (es[length l := (fst (es ! length l), v)]) = (plain es)[length l := (kdata k, v)]"
      by (simp add: plain_def map_update)
    also have "\<dots> = l @ (kdata k, v) # tl r" unfolding s(1) using True by (cases r) auto
    finally show ?thesis using True s(6) p put_entry_from [OF s(5), of v] by (simp add: mem_Put_def)
  next
    case False
    have "plain (take (length l) es @ (k, v) # drop (length l) es) = l @ (kdata k, v) # r" by (simp add: s(1))
    then show ?thesis using False s(6) p put_entry_from [OF s(5), of v] by (auto simp: mem_Put_def)
  qed
qed

lemma mem_Get_ok:
  assumes "mem_ok es"
  shows "mem_Get k (Some es) = (case map_of (plain es) (kdata k) of None \<Rightarrow> Inl ErrNotFound | Some v \<Rightarrow> Inr v)"
proof -
  obtain l r where lr: "parts k es l r" using mem_split [OF assms] by blast
  then have s: "plain es = l @ r" "r = drop (mem_index k es) (plain es)"
    "\<forall>e \<in> set l. fst e < kdata k" "\<forall>e \<in> set r. kdata k \<le> fst e" "sorted_wrt (<) (map fst r)"
    "mem_search k es = (length l, r \<noteq> [] \<and> fst (hd r) = kdata k)" "mem_index k es = length l"
    unfolding parts_def by blast+
  have l: "map_of l (kdata k) = None" using s(3) by (auto simp: map_of_eq_None_iff)
  show ?thesis
  proof (cases "r \<noteq> [] \<and> fst (hd r) = kdata k")
    case True
    then have n: "length l < length es" using s(1) plain_simps(1) [of es] by (cases r) auto
    have "snd (es ! length l) = snd (hd r)" using True n s(2,7) by (simp add: hd_drop_conv_nth plain_nth)
    moreover have "map_of r (kdata k) = Some (snd (hd r))" using True by (cases r) auto
    ultimately show ?thesis using True s(1,6,7) l by (simp add: mem_Get_def map_add_def)
  next
    case False
    then have "map_of r (kdata k) = None"
      using from_key(2) [OF s(5,4)] by (cases "r = []") (auto simp: map_of_eq_None_iff)
    then show ?thesis using False s(1,6) l by (simp add: mem_Get_def map_add_def)
  qed
qed

lemma mem_Delete_ok:
  assumes "mem_ok es"
  shows "\<exists>es'. mem_Delete k (Some es) = (Some es', Inr ()) \<and> plain es' = filter (\<lambda>e. fst e \<noteq> kdata k) (plain es)"
proof -
  obtain l r where lr: "parts k es l r" using mem_split [OF assms] by blast
  then have s: "plain es = l @ r" "l = take (mem_index k es) (plain es)" "r = drop (mem_index k es) (plain es)"
    "\<forall>e \<in> set l. fst e < kdata k" "\<forall>e \<in> set r. kdata k \<le> fst e" "sorted_wrt (<) (map fst r)"
    "mem_search k es = (length l, r \<noteq> [] \<and> fst (hd r) = kdata k)" "mem_index k es = length l"
    unfolding parts_def by blast+
  have l: "filter (\<lambda>e. fst e \<noteq> kdata k) l = l" using s(4) by (auto intro!: filter_True)
  show ?thesis
  proof (cases "r \<noteq> [] \<and> fst (hd r) = kdata k")
    case True
    then have "filter (\<lambda>e. fst e \<noteq> kdata k) r = tl r"
      using from_key(1) [OF s(6,5)] by (cases r) (auto intro!: filter_True)
    moreover have "plain (take (length l) es @ drop (Suc (length l)) es) = l @ tl r" by (simp add: s(1)) (simp add: drop_Suc)
    moreover have "filter (\<lambda>e. fst e \<noteq> kdata k) (plain es) = l @ filter (\<lambda>e. fst e \<noteq> kdata k) r" by (simp add: s(1) l)
    ultimately show ?thesis using True s(7) by (simp add: mem_Delete_def)
  next
    case False
    then have "filter (\<lambda>e. fst e \<noteq> kdata k) r = r"
      using from_key(2) [OF s(6,5)] by (cases "r = []") (auto intro!: filter_True)
    then show ?thesis using False s(1,7) l by (simp add: mem_Delete_def)
  qed
qed

lemma mem_scan_loop_plain: "sorted_wrt (<) (map fst (plain es)) \<Longrightarrow>
  plain (mem_scan_loop stop es) = filter (\<lambda>e. fst e < kdata stop) (plain es)"
proof (induction es)
  case (Cons e es)
  obtain k v where e: "e = (k, v)" by (cases e)
  show ?case
  proof (cases "kdata k < kdata stop")
    case True
    then show ?thesis using Cons e by (simp add: Key_Compare_def linorder_not_le)
  next
    case False
    then have "filter (\<lambda>e. fst e < kdata stop) (plain es) = []"
      using Cons.prems e by (auto simp: filter_empty_conv)
    then show ?thesis using False e by (simp add: Key_Compare_def linorder_not_less)
  qed
qed simp

lemma mem_Scan_ok:
  assumes "mem_ok es" "kdata start < kdata stop"
  shows "\<exists>rs. mem_Scan start stop (Some es) = Inr rs
    \<and> plain rs = filter (\<lambda>e. kdata start \<le> fst e \<and> fst e < kdata stop) (plain es)"
proof -
  obtain l r where lr: "parts start es l r" using mem_split [OF assms(1)] by blast
  then have s: "plain es = l @ r" "r = drop (mem_index start es) (plain es)"
    "\<forall>e \<in> set l. fst e < kdata start" "\<forall>e \<in> set r. kdata start \<le> fst e" "sorted_wrt (<) (map fst r)"
    unfolding parts_def by blast+
  have "filter (\<lambda>e. kdata start \<le> fst e \<and> fst e < kdata stop) l = []" using s(3) by (auto simp: filter_empty_conv)
  moreover have "filter (\<lambda>e. kdata start \<le> fst e \<and> fst e < kdata stop) r = filter (\<lambda>e. fst e < kdata stop) r"
    using s(4) by (auto intro: filter_cong)
  moreover have "plain (mem_scan_loop stop (drop (mem_index start es) es)) = filter (\<lambda>e. fst e < kdata stop) r"
    using mem_scan_loop_plain [of "drop (mem_index start es) es"] s(2,5) by simp
  ultimately show ?thesis using s(1) assms(2) by (auto simp: mem_Scan_def Key_Compare_def)
qed

section \<open>Same answers as the tree store\<close>

definition mem_err_kv :: "mem_err \<Rightarrow> kv_err" where
  "mem_err_kv e = (case e of ErrNotFound \<Rightarrow> ErrKeyNotFound | ErrNilStore \<Rightarrow> KvNotOpen)"

fun mem_exec :: "kv_op \<Rightarrow> memStore option \<Rightarrow> (memStore option \<times> kv_resp) option" where
  "mem_exec (OpGet k) s = Some (s, RValue (map_sum mem_err_kv id (mem_Get (FromBytes k) s)))"
| "mem_exec (OpSet k v) s = (case mem_Put (FromBytes k) v s of (s, r) \<Rightarrow> Some (s, RUnit (map_sum mem_err_kv id r)))"
| "mem_exec (OpDelete k) s = (case mem_Delete (FromBytes k) s of (s, r) \<Rightarrow> Some (s, RUnit (map_sum mem_err_kv id r)))"
| "mem_exec (OpScan start stop) s = Some (s, REntries (map_sum mem_err_kv plain (mem_Scan (FromBytes start) (FromBytes stop) s)))"
| "mem_exec OpCheck s = Some (s, RUnit (Inr ()))"

text \<open>The operations on which both stores are meant to agree: sizes the tree store accepts, and
  scans of a proper range.\<close>

fun mem_admissible :: "kv_op \<Rightarrow> bool" where
  "mem_admissible (OpSet k v) \<longleftrightarrow> length k \<le> 63 \<and> length v \<le> 512"
| "mem_admissible (OpScan start stop) \<longleftrightarrow> start < stop"
| "mem_admissible _ \<longleftrightarrow> True"

definition mem_rel :: "nat \<Rightarrow> memStore option \<Rightarrow> (bytes \<times> bytes) list \<Rightarrow> bool" where
  "mem_rel n s es \<longleftrightarrow> (\<exists>l. s = Some l \<and> mem_ok l \<and> plain l = es)"

lemma kdata_FromBytes [simp]: "kdata (FromBytes b) = b"
  by (simp add: FromBytes_def EncodeBytes_def)

lemma mem_step:
  assumes "mem_rel (Suc n) s es" "mem_admissible x"
  shows "\<exists>s'. mem_exec x s = Some (s', snd (kv_spec x es)) \<and> mem_rel n s' (fst (kv_spec x es))"
proof -
  obtain l where l: "s = Some l" "mem_ok l" "plain l = es" using assms(1) by (auto simp: mem_rel_def)
  show ?thesis
  proof (cases x)
    case (OpGet k)
    then show ?thesis
      using l mem_Get_ok [OF l(2), of "FromBytes k"] by (auto simp: mem_rel_def mem_err_kv_def split: option.splits)
  next
    case (OpSet k v)
    then show ?thesis
      using l mem_Put_ok [OF l(2), of "FromBytes k" v] assms(2) put_entry_sorted [of es k v] by (auto simp: mem_rel_def mem_ok_def)
  next
    case (OpDelete k)
    then show ?thesis
      using l mem_Delete_ok [OF l(2), of "FromBytes k"] by (auto simp: mem_rel_def mem_ok_def sorted_wrt_map sorted_wrt_filter)
  next
    case (OpScan start stop)
    then have "stop \<noteq> []" using assms(2) by auto
    then show ?thesis
      using OpScan l mem_Scan_ok [OF l(2), of "FromBytes start" "FromBytes stop"] assms(2) by (auto simp: mem_rel_def)
  qed (use l in \<open>auto simp: mem_rel_def\<close>)
qed

interpretation memsim: simulation mem_rel mem_exec kv_spec mem_admissible
  by unfold_locales (rule mem_step)

text \<open>C10: The in-memory store and the tree store are interchangeable: started empty, they give the
  same responses to every sequence of up to 2^25 operations with keys of at most 63 bytes, values
  of at most 512 bytes and proper scan ranges, and every operation of both returns.\<close>

theorem stores_agree:
  assumes "length ops \<le> 33554432" "\<forall>x \<in> set ops. mem_admissible x"
  shows "\<exists>m t rs. impl_run mem_exec ops (Some []) = Some (m, rs) \<and> impl_run kv_exec ops freshStore = Some (t, rs)"
proof -
  have "kv_admissible x" if "mem_admissible x" for x using that by (cases x) auto
  then have k: "\<forall>x \<in> set ops. kv_admissible x" using assms(2) by blast
  have "kv_rel (length ops + 0) freshStore []" using fresh_rel assms(1) by simp
  from kvsim.run [OF this k] obtain t where t: "impl_run kv_exec ops freshStore = Some (t, snd (spec_run kv_spec ops []))" by blast
  have "mem_rel (length ops + 0) (Some []) []" by (simp add: mem_rel_def mem_ok_def)
  from memsim.run [OF this assms(2)] t show ?thesis by blast
qed

theorem stores_agree_witness:
  "\<exists>m t rs. impl_run mem_exec [OpSet [2] [7], OpGet [2], OpScan [1] [3]] (Some []) = Some (m, rs)
    \<and> impl_run kv_exec [OpSet [2] [7], OpGet [2], OpScan [1] [3]] freshStore = Some (t, rs)"
  using stores_agree [of "[OpSet [2] [7], OpGet [2], OpScan [1] [3]]"] by simp

end
