(* ===== verification/Heap.thy ===== *)
theory Heap
  imports Key Kv_Node Pager "HOL-Library.AList"
begin

text \<open>
  Table rows over a key-value store: \<open>sql/heap/heap.go\<close>, \<open>encode.go\<close> and \<open>table.go\<close>.  A row
  version is one entry of the store: the key is the table, the primary key and the transaction
  number; the value is a flag byte, a null bitmask and the storage composite of the other columns.
  A \<open>KVStore\<close> is an interface value, a record of its methods over some state; \<open>None\<close> as the result
  of a method is not returning.  A Go \<open>nil\<close> row is \<open>None\<close>, a \<open>nil\<close> column value \<open>ANil\<close>.
\<close>

section \<open>Data\<close>

record 's KVStore =
  kvs_Set :: "ctx \<Rightarrow> bytes \<Rightarrow> bytes \<Rightarrow> 's \<Rightarrow> ('s \<times> (kv_err + unit)) option"
  kvs_Delete :: "ctx \<Rightarrow> bytes \<Rightarrow> 's \<Rightarrow> ('s \<times> (kv_err + unit)) option"
  kvs_Scan :: "ctx \<Rightarrow> bytes \<Rightarrow> bytes \<Rightarrow> 's \<Rightarrow> (kv_err + (bytes \<times> bytes) list) option"

abbreviation (input) FlagNormal :: byte where "FlagNormal \<equiv> 0"
abbreviation (input) FlagTombstone :: byte where "FlagTombstone \<equiv> 1"

record Column =
  ColName :: bytes
  ColKind :: Kind

record Schema =
  TableID :: u64
  Columns :: "Column list"
  PKIndices :: "int list"

datatype heap_err =
    ErrInvalidSchema | ErrColumnCountMismatch | ErrTypeMismatch | ErrNullNotSupported | ErrDuplicateKey
  | ErrRowNotFound | ErrTxConflict | ErrInvalidTx | ErrPrimaryKeyUpdate
  | HeapValueTooShort | HeapUnknownFlags | HeapTruncatedBitmask | HeapDecodeMismatch
  | HeapKey key_err | HeapKv kv_err

definition known_kind :: "Kind \<Rightarrow> bool" where
  "known_kind k \<longleftrightarrow> k = KindUint64 \<or> k = KindInt64 \<or> k = KindString \<or> k = KindBytes"

text \<open>\<open>OpenTable\<close> returns a table holding the schema; the model passes the schema around.\<close>

definition OpenTable :: "Schema \<Rightarrow> heap_err + Schema" where
  "OpenTable schema =
     (if Columns schema = [] then Inl ErrInvalidSchema
      else if PKIndices schema = [] then Inl ErrInvalidSchema
      else if \<not> list_all (\<lambda>idx. 0 \<le> idx \<and> idx < int (length (Columns schema))) (PKIndices schema) then Inl ErrInvalidSchema
      else if \<not> distinct (map ColName (Columns schema)) then Inl ErrInvalidSchema
      else if \<not> list_all (\<lambda>c. known_kind (ColKind c)) (Columns schema) then Inl ErrInvalidSchema
      else Inr schema)"

section \<open>Values\<close>

definition anyToPrimitive :: "Kind \<Rightarrow> any \<Rightarrow> heap_err + any" where
  "anyToPrimitive kind v =
     (if v = ANil then Inr ANil
      else if kind = KindUint64 then (case v of AUint64 x \<Rightarrow> Inr v | _ \<Rightarrow> Inl ErrTypeMismatch)
      else if kind = KindInt64 then (case v of AInt64 x \<Rightarrow> Inr v | _ \<Rightarrow> Inl ErrTypeMismatch)
      else if kind = KindString then (case v of AString x \<Rightarrow> Inr v | _ \<Rightarrow> Inl ErrTypeMismatch)
      else if kind = KindBytes then (case v of ABytes x \<Rightarrow> Inr v | _ \<Rightarrow> Inl ErrTypeMismatch)
      else Inl ErrTypeMismatch)"

definition anyToKeyValue :: "Kind \<Rightarrow> any \<Rightarrow> heap_err + Value" where
  "anyToKeyValue kind v =
     (if v = ANil then Inl ErrNullNotSupported
      else if kind = KindUint64 then (case v of AUint64 x \<Rightarrow> Inr (Uint64 x) | _ \<Rightarrow> Inl ErrTypeMismatch)
      else if kind = KindInt64 then (case v of AInt64 x \<Rightarrow> Inr (Int64 x) | _ \<Rightarrow> Inl ErrTypeMismatch)
      else if kind = KindString then (case v of AString x \<Rightarrow> Inr (VString x) | _ \<Rightarrow> Inl ErrTypeMismatch)
      else if kind = KindBytes then (case v of ABytes x \<Rightarrow> Inr (VBytes x) | _ \<Rightarrow> Inl ErrTypeMismatch)
      else Inl ErrTypeMismatch)"

definition pkKinds :: "Schema \<Rightarrow> Kind list" where
  "pkKinds schema = map (\<lambda>idx. ColKind (Columns schema ! nat idx)) (PKIndices schema)"

text \<open>The conversion loop of \<open>encodeRowKeyFromPK\<close> and \<open>encodeRowVersionPrefix\<close>.\<close>

fun pk_key_values :: "Kind list \<Rightarrow> any list \<Rightarrow> heap_err + Value list" where
  "pk_key_values (kind # kinds) (v # ws) =
     (case anyToKeyValue kind v of Inl e \<Rightarrow> Inl e | Inr kv \<Rightarrow>
      case pk_key_values kinds ws of Inl e \<Rightarrow> Inl e | Inr kvs \<Rightarrow> Inr (kv # kvs))"
| "pk_key_values _ _ = Inr []"

definition encodeRowKeyFromPK :: "Schema \<Rightarrow> any list \<Rightarrow> u64 \<Rightarrow> heap_err + bytes" where
  "encodeRowKeyFromPK schema pkValues version =
     (if length pkValues \<noteq> length (PKIndices schema) then Inl ErrColumnCountMismatch
      else (case pk_key_values (pkKinds schema) pkValues of Inl e \<Rightarrow> Inl e | Inr kvs \<Rightarrow>
        case EncodeTableRowKey (TableID schema) kvs version of Inl e \<Rightarrow> Inl (HeapKey e) | Inr raw \<Rightarrow> Inr raw))"

definition encodeRowVersionPrefix :: "Schema \<Rightarrow> any list \<Rightarrow> heap_err + (bytes \<times> bytes)" where
  "encodeRowVersionPrefix schema pkValues =
     (if length pkValues \<noteq> length (PKIndices schema) then Inl ErrColumnCountMismatch
      else (case pk_key_values (pkKinds schema) pkValues of Inl e \<Rightarrow> Inl e | Inr kvs \<Rightarrow>
        case EncodeTableRowPrefix (TableID schema) kvs of Inl e \<Rightarrow> Inl (HeapKey e) | Inr prefix \<Rightarrow>
        Inr (prefix, case PrefixEnd prefix of Some e \<Rightarrow> e | None \<Rightarrow> [])))"

section \<open>Row values\<close>

definition bitmaskLen :: "Schema \<Rightarrow> nat" where
  "bitmaskLen schema = (length (Columns schema) + 7) div 8"

text \<open>The column loop of \<open>encodeEnterpriseValue\<close>: the bitmask and the values that are not null.\<close>

fun encode_columns :: "nat \<Rightarrow> Column list \<Rightarrow> any list \<Rightarrow> bytes \<Rightarrow> any list \<Rightarrow> heap_err + (bytes \<times> any list)" where
  "encode_columns i (c # cs) (v # ws) bitmask prims =
     (if v = ANil
      then encode_columns (Suc i) cs ws (bitmask[i div 8 := bitmask ! (i div 8) OR push_bit (i mod 8) 1]) prims
      else (case anyToPrimitive (ColKind c) v of Inl e \<Rightarrow> Inl e | Inr p \<Rightarrow>
        encode_columns (Suc i) cs ws bitmask (prims @ [p])))"
| "encode_columns i _ _ bitmask prims = Inr (bitmask, prims)"

definition encodeEnterpriseValue :: "Schema \<Rightarrow> any list option \<Rightarrow> byte \<Rightarrow> heap_err + bytes" where
  "encodeEnterpriseValue schema values flags =
     (let values = (case values of
          None \<Rightarrow> if flags = FlagTombstone then replicate (length (Columns schema)) ANil else []
        | Some ws \<Rightarrow> ws) in
      if length values \<noteq> length (Columns schema) then Inl ErrColumnCountMismatch
      else (case encode_columns 0 (Columns schema) values (zero_bytes (bitmaskLen schema)) [] of
          Inl e \<Rightarrow> Inl e
        | Inr (bitmask, prims) \<Rightarrow>
          (case (if prims \<noteq> [] then EncodeStorageComposite prims else Inr \<lparr>kdata = [], kfields = []\<rparr>) of
             Inl e \<Rightarrow> Inl (HeapKey e)
           | Inr compositeKey \<Rightarrow> Inr (flags # bitmask @ kdata compositeKey))))"

definition null_bit :: "bytes \<Rightarrow> nat \<Rightarrow> bool" where
  "null_bit bitmask i \<longleftrightarrow> bitmask ! (i div 8) AND push_bit (i mod 8) 1 \<noteq> 0"

text \<open>The last loop of \<open>decodeEnterpriseValue\<close>.\<close>

fun fill_values :: "bytes \<Rightarrow> nat list \<Rightarrow> any list \<Rightarrow> heap_err + any list" where
  "fill_values bitmask [] nn = Inr []"
| "fill_values bitmask (i # is) nn =
     (if null_bit bitmask i then
        (case fill_values bitmask is nn of Inl e \<Rightarrow> Inl e | Inr ws \<Rightarrow> Inr (ANil # ws))
      else (case nn of
          [] \<Rightarrow> Inl HeapDecodeMismatch
        | v # nn \<Rightarrow> (case fill_values bitmask is nn of Inl e \<Rightarrow> Inl e | Inr ws \<Rightarrow> Inr (v # ws))))"

text \<open>The values of the columns that are not null.\<close>

definition decode_payload :: "Schema \<Rightarrow> bytes \<Rightarrow> bytes \<Rightarrow> key_err + any list" where
  "decode_payload schema bitmask payload =
     (let nonNullKinds = map (\<lambda>i. ColKind (Columns schema ! i))
            (filter (\<lambda>i. \<not> null_bit bitmask i) [0..<length (Columns schema)]) in
      if payload \<noteq> [] \<and> nonNullKinds \<noteq> [] then
        (case ParseStorageCompositeKey payload nonNullKinds of Inl e \<Rightarrow> Inl e | Inr k \<Rightarrow> DecodeStorageComposite k)
      else Inr [])"

definition decodeEnterpriseValue :: "Schema \<Rightarrow> bytes \<Rightarrow> heap_err + (any list option \<times> bool)" where
  "decodeEnterpriseValue schema data =
     (if length data < 1 then Inl HeapValueTooShort
      else if data ! 0 \<noteq> FlagNormal \<and> data ! 0 \<noteq> FlagTombstone then Inl HeapUnknownFlags
      else (let numCols = length (Columns schema); bl = bitmaskLen schema in
        if length data < 1 + bl then Inl HeapTruncatedBitmask
        else if data ! 0 = FlagTombstone then Inr (None, True)
        else (let bitmask = gslice 1 (1 + bl) data in
          case decode_payload schema bitmask (drop (1 + bl) data) of
            Inl e \<Rightarrow> Inl (HeapKey e)
          | Inr nonNullVals \<Rightarrow>
            (case fill_values bitmask [0..<numCols] nonNullVals of Inl e \<Rightarrow> Inl e | Inr ws \<Rightarrow> Inr (Some ws, False)))))"

section \<open>Versions of a row\<close>

text \<open>The versions among the entries of a scan; entries whose key does not parse are skipped.\<close>

fun entry_versions :: "Schema \<Rightarrow> (bytes \<times> bytes) list \<Rightarrow> (u64 \<times> bytes \<times> bytes) list" where
  "entry_versions schema [] = []"
| "entry_versions schema ((k, d) # es) =
     (case DecodeTableRowKey k (pkKinds schema) of
        Inl _ \<Rightarrow> entry_versions schema es
      | Inr (_, _, version) \<Rightarrow> (version, k, d) # entry_versions schema es)"

definition validateMonotonicTx :: "'s KVStore \<Rightarrow> ctx \<Rightarrow> Schema \<Rightarrow> any list \<Rightarrow> u64 \<Rightarrow> 's \<Rightarrow> (heap_err + unit) option" where
  "validateMonotonicTx kv ctx schema pkValues txID s =
     (if txID = 0 then Some (Inl ErrInvalidTx)
      else (case encodeRowVersionPrefix schema pkValues of Inl e \<Rightarrow> Some (Inl e) | Inr (start, stop) \<Rightarrow>
        case kvs_Scan kv ctx start stop s of
          None \<Rightarrow> None
        | Some (Inl e) \<Rightarrow> Some (Inl (HeapKv e))
        | Some (Inr entries) \<Rightarrow>
          if list_ex (\<lambda>(version, _). version \<ge> txID) (entry_versions schema entries)
          then Some (Inl ErrTxConflict) else Some (Inr ())))"

text \<open>The first entry after sorting by descending version.\<close>

fun latest :: "(u64 \<times> 'a) list \<Rightarrow> (u64 \<times> 'a) option" where
  "latest [] = None"
| "latest (e # es) = (case latest es of None \<Rightarrow> Some e | Some e' \<Rightarrow> if fst e' > fst e then Some e' else Some e)"

definition findVisibleRow :: "'s KVStore \<Rightarrow> ctx \<Rightarrow> Schema \<Rightarrow> any list \<Rightarrow> u64 \<Rightarrow> 's \<Rightarrow> (heap_err + (any list \<times> u64)) option" where
  "findVisibleRow kv ctx schema pkValues txID s =
     (case encodeRowVersionPrefix schema pkValues of Inl e \<Rightarrow> Some (Inl e) | Inr (start, stop) \<Rightarrow>
      case kvs_Scan kv ctx start stop s of
        None \<Rightarrow> None
      | Some (Inl e) \<Rightarrow> Some (Inl (HeapKv e))
      | Some (Inr entries) \<Rightarrow>
        (case latest (filter (\<lambda>(version, _). version \<le> txID) (entry_versions schema entries)) of
           None \<Rightarrow> Some (Inl ErrRowNotFound)
         | Some (version, _, d) \<Rightarrow>
           (case decodeEnterpriseValue schema d of
              Inl e \<Rightarrow> Some (Inl e)
            | Inr (_, True) \<Rightarrow> Some (Inl ErrRowNotFound)
            | Inr (vals, False) \<Rightarrow> Some (Inr (case vals of None \<Rightarrow> [] | Some ws \<Rightarrow> ws, version)))))"

definition valueEqual :: "any \<Rightarrow> any \<Rightarrow> bool" where
  "valueEqual a b \<longleftrightarrow>
     (case a of
        AUint64 x \<Rightarrow> (case b of AUint64 y \<Rightarrow> x = y | _ \<Rightarrow> False)
      | AInt64 x \<Rightarrow> (case b of AInt64 y \<Rightarrow> x = y | _ \<Rightarrow> False)
      | AString x \<Rightarrow> (case b of AString y \<Rightarrow> x = y | _ \<Rightarrow> False)
      | ABytes x \<Rightarrow> (case b of ABytes y \<Rightarrow> x = y | _ \<Rightarrow> False)
      | _ \<Rightarrow> False)"

fun comparePK :: "int list \<Rightarrow> any list \<Rightarrow> any list \<Rightarrow> bool" where
  "comparePK (idx # idxs) (p # ps) newValues =
     (if idx \<ge> int (length newValues) then False
      else if \<not> valueEqual p (newValues ! nat idx) then False
      else comparePK idxs ps newValues)"
| "comparePK _ _ newValues = True"

section \<open>Insert, Update, Delete, Get\<close>

text \<open>The common end of the three writers: encode the value and the key, then \<open>Set\<close>.\<close>

definition write_row :: "'s KVStore \<Rightarrow> ctx \<Rightarrow> Schema \<Rightarrow> any list option \<Rightarrow> byte \<Rightarrow> any list \<Rightarrow> u64 \<Rightarrow> 's
    \<Rightarrow> ('s \<times> (heap_err + unit)) option" where
  "write_row kv ctx schema values flags pkVals txID s =
     (case encodeEnterpriseValue schema values flags of Inl e \<Rightarrow> Some (s, Inl e) | Inr rowValue \<Rightarrow>
      case encodeRowKeyFromPK schema pkVals txID of Inl e \<Rightarrow> Some (s, Inl e) | Inr rowKey \<Rightarrow>
      (case kvs_Set kv ctx rowKey rowValue s of
         None \<Rightarrow> None
       | Some (s, Inl e) \<Rightarrow> Some (s, Inl (HeapKv e))
       | Some (s, Inr _) \<Rightarrow> Some (s, Inr ())))"

definition table_Insert :: "'s KVStore \<Rightarrow> ctx \<Rightarrow> Schema \<Rightarrow> u64 \<Rightarrow> any list \<Rightarrow> 's \<Rightarrow> ('s \<times> (heap_err + unit)) option" where
  "table_Insert kv ctx schema txID values s =
     (if length values \<noteq> length (Columns schema) then Some (s, Inl ErrColumnCountMismatch)
      else (let pkVals = map (\<lambda>idx. values ! nat idx) (PKIndices schema) in
        case validateMonotonicTx kv ctx schema pkVals txID s of
          None \<Rightarrow> None
        | Some (Inl e) \<Rightarrow> Some (s, Inl e)
        | Some (Inr _) \<Rightarrow>
          (case findVisibleRow kv ctx schema pkVals txID s of
             None \<Rightarrow> None
           | Some (Inr _) \<Rightarrow> Some (s, Inl ErrDuplicateKey)
           | Some (Inl _) \<Rightarrow> write_row kv ctx schema (Some values) FlagNormal pkVals txID s)))"

definition table_Update :: "'s KVStore \<Rightarrow> ctx \<Rightarrow> Schema \<Rightarrow> u64 \<Rightarrow> any list \<Rightarrow> any list \<Rightarrow> 's \<Rightarrow> ('s \<times> (heap_err + unit)) option" where
  "table_Update kv ctx schema txID pkValues newValues s =
     (if length newValues \<noteq> length (Columns schema) then Some (s, Inl ErrColumnCountMismatch)
      else (case validateMonotonicTx kv ctx schema pkValues txID s of
          None \<Rightarrow> None
        | Some (Inl e) \<Rightarrow> Some (s, Inl e)
        | Some (Inr _) \<Rightarrow>
          (case findVisibleRow kv ctx schema pkValues txID s of
             None \<Rightarrow> None
           | Some (Inl _) \<Rightarrow> Some (s, Inl ErrRowNotFound)
           | Some (Inr _) \<Rightarrow>
             if \<not> comparePK (PKIndices schema) pkValues newValues then Some (s, Inl ErrPrimaryKeyUpdate)
             else write_row kv ctx schema (Some newValues) FlagNormal pkValues txID s)))"

definition table_Delete :: "'s KVStore \<Rightarrow> ctx \<Rightarrow> Schema \<Rightarrow> u64 \<Rightarrow> any list \<Rightarrow> 's \<Rightarrow> ('s \<times> (heap_err + unit)) option" where
  "table_Delete kv ctx schema txID pkValues s =
     (case validateMonotonicTx kv ctx schema pkValues txID s of
        None \<Rightarrow> None
      | Some (Inl e) \<Rightarrow> Some (s, Inl e)
      | Some (Inr _) \<Rightarrow>
        (case findVisibleRow kv ctx schema pkValues txID s of
           None \<Rightarrow> None
         | Some (Inl _) \<Rightarrow> Some (s, Inl ErrRowNotFound)
         | Some (Inr _) \<Rightarrow> write_row kv ctx schema None FlagTombstone pkValues txID s))"

definition table_Get :: "'s KVStore \<Rightarrow> ctx \<Rightarrow> Schema \<Rightarrow> u64 \<Rightarrow> any list \<Rightarrow> 's \<Rightarrow> (heap_err + any list) option" where
  "table_Get kv ctx schema txID pkValues s =
     (case findVisibleRow kv ctx schema pkValues txID s of
        None \<Rightarrow> None | Some (Inl e) \<Rightarrow> Some (Inl e) | Some (Inr (vals, _)) \<Rightarrow> Some (Inr vals))"

section \<open>Scan and Vacuum\<close>

definition table_bounds :: "Schema \<Rightarrow> bytes \<times> bytes" where
  "table_bounds schema = (TablePrefix (TableID schema),
     case PrefixEnd (TablePrefix (TableID schema)) of Some e \<Rightarrow> e | None \<Rightarrow> [])"

definition extractPKPrefix :: "bytes \<Rightarrow> bytes" where
  "extractPKPrefix fullKey = (if length fullKey \<le> 8 then fullKey else take (length fullKey - 8) fullKey)"

text \<open>The group map of \<open>Scan\<close>: the newest version of each primary key.\<close>

fun scan_groups :: "(u64 \<times> bytes \<times> bytes) list \<Rightarrow> (bytes \<times> u64 \<times> bytes) list \<Rightarrow> (bytes \<times> u64 \<times> bytes) list" where
  "scan_groups [] groups = groups"
| "scan_groups ((version, k, d) # es) groups =
     (case map_of groups (extractPKPrefix k) of
        Some (v, _) \<Rightarrow> scan_groups es (if version > v then AList.update (extractPKPrefix k) (version, d) groups else groups)
      | None \<Rightarrow> scan_groups es (AList.update (extractPKPrefix k) (version, d) groups))"

fun visible_rows :: "Schema \<Rightarrow> (bytes \<times> u64 \<times> bytes) list \<Rightarrow> (bytes \<times> any list) list" where
  "visible_rows schema [] = []"
| "visible_rows schema ((pk, _, d) # gs) =
     (if d \<noteq> [] \<and> d ! 0 = FlagTombstone then visible_rows schema gs
      else (case decodeEnterpriseValue schema d of
          Inl _ \<Rightarrow> visible_rows schema gs
        | Inr (vals, _) \<Rightarrow> (pk, case vals of None \<Rightarrow> [] | Some ws \<Rightarrow> ws) # visible_rows schema gs))"

record enterpriseRows =
  er_rows :: "(bytes \<times> any list) list"
  er_idx :: nat
  er_curVals :: "any list option"

definition table_Scan :: "'s KVStore \<Rightarrow> ctx \<Rightarrow> Schema \<Rightarrow> u64 \<Rightarrow> 's \<Rightarrow> (heap_err + enterpriseRows) option" where
  "table_Scan kv ctx schema txID s =
     (case table_bounds schema of (start, stop) \<Rightarrow>
      case kvs_Scan kv ctx start stop s of
        None \<Rightarrow> None
      | Some (Inl e) \<Rightarrow> Some (Inl (HeapKv e))
      | Some (Inr entries) \<Rightarrow>
        (let filtered = filter (\<lambda>(version, _). \<not> version > txID) (entry_versions schema entries);
             rows = visible_rows schema (scan_groups filtered []) in
         Some (Inr \<lparr>er_rows = sort_key fst rows, er_idx = 0, er_curVals = None\<rparr>)))"

definition rows_Next :: "enterpriseRows \<Rightarrow> enterpriseRows \<times> bool" where
  "rows_Next r =
     (let r = r\<lparr>er_idx := er_idx r + 1\<rparr> in
      if er_idx r \<ge> length (er_rows r) then (r, False)
      else (r\<lparr>er_curVals := Some (snd (er_rows r ! er_idx r))\<rparr>, True))"

definition rows_Values :: "enterpriseRows \<Rightarrow> any list option" where
  "rows_Values r = er_curVals r"

definition rows_Close :: "enterpriseRows \<Rightarrow> enterpriseRows" where
  "rows_Close r = r\<lparr>er_rows := []\<rparr>"

text \<open>The versions of one primary key that \<open>Vacuum\<close> deletes, from the newest on.\<close>

definition vacuum_victims :: "u64 \<Rightarrow> (u64 \<times> bytes \<times> bytes) list \<Rightarrow> bytes list" where
  "vacuum_victims olderThan versions =
     (let versions = rev (sort_key fst versions) in
      case find (\<lambda>(v, _). v \<le> olderThan) versions of
        None \<Rightarrow> []
      | Some (oldVersion, _, d) \<Rightarrow>
        (let isTomb = (d \<noteq> [] \<and> d ! 0 = FlagTombstone);
             hasNewer = list_ex (\<lambda>(v, _). v > olderThan) versions in
         map (\<lambda>(v, k, _). k) (filter (\<lambda>(v, _). \<not> v > olderThan \<and>
           (isTomb \<and> \<not> hasNewer \<or> \<not> isTomb \<and> v < oldVersion)) versions)))"

text \<open>The versions grouped by primary key, in the order in which the keys appear.\<close>

fun vacuum_groups :: "(u64 \<times> bytes \<times> bytes) list \<Rightarrow> (bytes \<times> (u64 \<times> bytes \<times> bytes) list) list
    \<Rightarrow> (bytes \<times> (u64 \<times> bytes \<times> bytes) list) list" where
  "vacuum_groups [] groups = groups"
| "vacuum_groups ((v, k, d) # es) groups =
     vacuum_groups es (AList.update (extractPKPrefix k)
       ((case map_of groups (extractPKPrefix k) of None \<Rightarrow> [] | Some ws \<Rightarrow> ws) @ [(v, k, d)]) groups)"

text \<open>Errors of \<open>Delete\<close> are ignored.\<close>

fun delete_all :: "'s KVStore \<Rightarrow> ctx \<Rightarrow> bytes list \<Rightarrow> 's \<Rightarrow> 's option" where
  "delete_all kv ctx [] s = Some s"
| "delete_all kv ctx (k # ks) s = (case kvs_Delete kv ctx k s of None \<Rightarrow> None | Some (s, _) \<Rightarrow> delete_all kv ctx ks s)"

definition table_Vacuum :: "'s KVStore \<Rightarrow> ctx \<Rightarrow> Schema \<Rightarrow> u64 \<Rightarrow> 's \<Rightarrow> ('s \<times> (heap_err + unit)) option" where
  "table_Vacuum kv ctx schema olderThan s =
     (case table_bounds schema of (start, stop) \<Rightarrow>
      case kvs_Scan kv ctx start stop s of
        None \<Rightarrow> None
      | Some (Inl e) \<Rightarrow> Some (s, Inl (HeapKv e))
      | Some (Inr entries) \<Rightarrow>
        (let groups = vacuum_groups (entry_versions schema entries) [] in
         case delete_all kv ctx (concat (map (\<lambda>(_, versions). vacuum_victims olderThan versions) groups)) s of
           None \<Rightarrow> None
         | Some s \<Rightarrow> Some (s, Inr ())))"

end
