(* ===== verification/Heap_Props.thy ===== *)
theory Heap_Props
  imports Heap Btree_Props
begin

text \<open>
  Row values: whatever row \<open>encodeEnterpriseValue\<close> accepts, \<open>decodeEnterpriseValue\<close> gives back, the null
  columns included.
\<close>

section \<open>Row values\<close>

lemma null_bit_iff: "null_bit bm i \<longleftrightarrow> bit (bm ! (i div 8)) (i mod 8)"
  by (simp add: null_bit_def bit_iff_and_push_bit_not_eq_0)

lemma null_bit_set:
  assumes "i div 8 < length bm"
  shows "null_bit (bm[i div 8 := bm ! (i div 8) OR push_bit (i mod 8) 1]) j \<longleftrightarrow> null_bit bm j \<or> j = i"
proof (cases "j div 8 = i div 8")
  case True
  have "j mod 8 = i mod 8 \<longleftrightarrow> j = i" using True by (metis div_mult_mod_eq)
  then show ?thesis using True assms by (auto simp: null_bit_iff bit_simps)
qed (auto simp: null_bit_iff)

lemma anyToPrimitive_Inr: "anyToPrimitive kind v = Inr p \<Longrightarrow> v \<noteq> ANil \<Longrightarrow> p = v \<and> any_kind v = kind"
  by (auto simp: anyToPrimitive_def split: if_splits any.splits)

lemma encode_columns_Inr:
  assumes "encode_columns i cs xs bm prims = Inr (bm', prims')" "length cs = length xs" "i + length xs \<le> 8 * length bm"
  shows "length bm' = length bm \<and> prims' = prims @ filter (\<lambda>v. v \<noteq> ANil) xs
    \<and> (\<forall>j. null_bit bm' j \<longleftrightarrow> null_bit bm j \<or> (i \<le> j \<and> j < i + length xs \<and> xs ! (j - i) = ANil))
    \<and> (\<forall>(c, v) \<in> set (zip cs xs). v \<noteq> ANil \<longrightarrow> any_kind v = ColKind c)"
  using assms
proof (induction i cs xs bm prims rule: encode_columns.induct)
  case (1 i c cs v xs bm prims)
  have i: "i div 8 < length bm" using "1.prems"(3) by simp
  have nth: "(v # xs) ! (j - i) = xs ! (j - Suc i)" if "Suc i \<le> j" for j using that by (simp add: nth_Cons')
  show ?case
  proof (cases "v = ANil")
    case True
    note IH = "1.IH"(1) [OF True]
    show ?thesis using IH "1.prems" True null_bit_set [OF i] nth by (auto simp: Suc_le_eq nth_Cons' le_less)
  next
    case False
    then obtain p where p: "anyToPrimitive (ColKind c) v = Inr p" using "1.prems"(1) by (auto split: sum.splits)
    note IH = "1.IH"(2) [OF False p]
    show ?thesis
      using IH "1.prems" False p anyToPrimitive_Inr [OF p False] nth by (auto simp: Suc_le_eq nth_Cons' le_less)
  qed
qed auto

lemma fill_values_ok:
  assumes "\<forall>j < length xs. null_bit bm (k + j) \<longleftrightarrow> xs ! j = ANil"
  shows "fill_values bm [k..<k + length xs] (filter (\<lambda>v. v \<noteq> ANil) xs) = Inr xs"
  using assms
proof (induction xs arbitrary: k)
  case (Cons x xs)
  have "\<forall>j < length xs. null_bit bm (Suc k + j) \<longleftrightarrow> xs ! j = ANil" using Cons.prems by auto
  from Cons.IH [OF this] have "fill_values bm [Suc k..<k + length (x # xs)] (filter (\<lambda>v. v \<noteq> ANil) xs) = Inr xs" by simp
  moreover have "[k..<k + length (x # xs)] = k # [Suc k..<k + length (x # xs)]" using upt_conv_Cons [of k "k + length (x # xs)"] by simp
  moreover have "null_bit bm k \<longleftrightarrow> x = ANil" using Cons.prems by force
  ultimately show ?case by auto
qed simp

lemma filter_index_zip:
  assumes "length cs = length xs"
  shows "map (\<lambda>i. f (cs ! i)) (filter (\<lambda>i. P (xs ! i)) [0..<length xs]) = map (f \<circ> fst) (filter (P \<circ> snd) (zip cs xs))"
proof -
  have "zip cs xs = map (\<lambda>i. (cs ! i, xs ! i)) [0..<length xs]"
    using assms by (intro nth_equalityI) auto
  then show ?thesis by (simp add: filter_map comp_def)
qed

lemma decode_encoded:
  assumes "encodeEnterpriseValue schema (Some xs) FlagNormal = Inr b" "\<forall>v \<in> set xs. length (any_raw v) < 2 ^ 32"
  shows "decodeEnterpriseValue schema b = Inr (Some xs, False)"
proof -
  let ?n = "length (Columns schema)" and ?nn = "filter (\<lambda>v. v \<noteq> ANil) xs"
  have len: "length xs = ?n" using assms(1) by (simp add: encodeEnterpriseValue_def split: if_splits)
  obtain bm prims k where e: "encode_columns 0 (Columns schema) xs (zero_bytes (bitmaskLen schema)) [] = Inr (bm, prims)"
    and c: "(if prims \<noteq> [] then EncodeStorageComposite prims else Inr \<lparr>kdata = [], kfields = []\<rparr>) = Inr k"
    and b: "b = 0 # bm @ kdata k"
    using assms(1) len by (auto simp: encodeEnterpriseValue_def split: sum.splits)
  have "0 + length xs \<le> 8 * length (zero_bytes (bitmaskLen schema))" using len by (simp add: bitmaskLen_def)
  from encode_columns_Inr [OF e _ this] len have bm: "length bm = bitmaskLen schema" "prims = ?nn"
    and kinds: "\<forall>(c, v) \<in> set (zip (Columns schema) xs). v \<noteq> ANil \<longrightarrow> any_kind v = ColKind c"
    and bits: "\<And>j. null_bit bm j \<longleftrightarrow> null_bit (zero_bytes (bitmaskLen schema)) j \<or> (j < length xs \<and> xs ! j = ANil)"
    by auto
  have "\<not> null_bit (zero_bytes (bitmaskLen schema)) j" if "j < length xs" for j
    using that len by (auto simp: null_bit_iff zero_bytes_def bitmaskLen_def)
  then have nb: "null_bit bm j \<longleftrightarrow> xs ! j = ANil" if "j < length xs" for j using bits that by auto
  have "filter (\<lambda>i. \<not> null_bit bm i) [0..<?n] = filter (\<lambda>i. xs ! i \<noteq> ANil) [0..<length xs]"
    unfolding len by (rule filter_cong [OF refl]) (use nb len in auto)
  then have "map (\<lambda>i. ColKind (Columns schema ! i)) (filter (\<lambda>i. \<not> null_bit bm i) [0..<?n])
      = map (ColKind \<circ> fst) (filter ((\<lambda>v. v \<noteq> ANil) \<circ> snd) (zip (Columns schema) xs))"
    using filter_index_zip [of "Columns schema" xs ColKind "\<lambda>v. v \<noteq> ANil"] len by simp
  also have "\<dots> = map (any_kind \<circ> snd) (filter ((\<lambda>v. v \<noteq> ANil) \<circ> snd) (zip (Columns schema) xs))"
    using kinds by (auto intro!: map_cong)
  also have "\<dots> = map any_kind ?nn"
    using len filter_map [of "\<lambda>v. v \<noteq> ANil" snd "zip (Columns schema) xs"] by (simp add: comp_def)
  finally have ks: "map (\<lambda>i. ColKind (Columns schema ! i)) (filter (\<lambda>i. \<not> null_bit bm i) [0..<?n]) = map any_kind ?nn" .
  have "decode_payload schema bm (kdata k) = Inr ?nn"
  proof (cases "?nn = []")
    case False
    then have k: "EncodeStorageComposite ?nn = Inr k" using c bm(2) by simp
    have "0 < length (kdata k)" using k False by (cases ?nn) (auto simp: EncodeStorageComposite_eq)
    then have "kdata k \<noteq> []" by simp
    then show ?thesis
      using storage_roundtrip [OF k False] assms(2) False unfolding decode_payload_def ks Let_def by simp
  next
    case True
    then show ?thesis unfolding decode_payload_def ks Let_def by simp
  qed
  moreover have "fill_values bm [0..<?n] ?nn = Inr xs" using fill_values_ok [of xs bm 0] nb len by simp
  ultimately show ?thesis
    using b bm(1) by (simp add: decodeEnterpriseValue_def Let_def gslice_def)
qed

text \<open>C25: Whatever row value \<open>encodeEnterpriseValue\<close> accepts, \<open>decodeEnterpriseValue\<close> gives it back:
  every column with its value, nulls included, and not as a tombstone.  (Values are shorter than
  4 GiB, the range of the length field.)\<close>

theorem row_value_roundtrip:
  assumes "encodeEnterpriseValue schema (Some xs) FlagNormal = Inr b" "\<forall>v \<in> set xs. length (any_raw v) < 2 ^ 32"
  shows "decodeEnterpriseValue schema b = Inr (Some xs, False)"
  using assms by (rule decode_encoded)

theorem row_value_roundtrip_witness:
  "let schema = \<lparr>TableID = 7, Columns = [\<lparr>ColName = [97], ColKind = KindUint64\<rparr>, \<lparr>ColName = [98], ColKind = KindString\<rparr>,
       \<lparr>ColName = [99], ColKind = KindBytes\<rparr>], PKIndices = [0]\<rparr>;
       xs = [AUint64 5, ANil, ABytes [1, 0, 2]] in
   decodeEnterpriseValue schema (case encodeEnterpriseValue schema (Some xs) FlagNormal of Inr b \<Rightarrow> b | Inl _ \<Rightarrow> []) = Inr (Some xs, False)"
proof -
  let ?schema = "\<lparr>TableID = 7, Columns = [\<lparr>ColName = [97], ColKind = KindUint64\<rparr>, \<lparr>ColName = [98], ColKind = KindString\<rparr>,
       \<lparr>ColName = [99], ColKind = KindBytes\<rparr>], PKIndices = [0]\<rparr>"
  let ?xs = "[AUint64 5, ANil, ABytes [1, 0, 2]]"
  have "\<not> isl (encodeEnterpriseValue ?schema (Some ?xs) FlagNormal)" by code_simp
  then obtain b where b: "encodeEnterpriseValue ?schema (Some ?xs) FlagNormal = Inr b"
    by (cases "encodeEnterpriseValue ?schema (Some ?xs) FlagNormal") auto
  have "\<forall>v \<in> set ?xs. length (any_raw v) < 2 ^ 32" by simp
  from row_value_roundtrip [OF b this] show ?thesis using b by (simp add: Let_def)
qed

end
