(* ===== verification/Heap_Keys.thy ===== *)
theory Heap_Keys
  imports Heap Btree_Props
begin

text \<open>
  The keys of table rows: primary keys of number and string columns are encoded without
  ambiguity, and the range scanned for a primary key (or for a table) contains exactly its rows,
  whatever other tables share the store.
\<close>

section \<open>Primary keys\<close>

fun pk_bytes :: "any \<Rightarrow> bytes" where
  "pk_bytes (AUint64 v) = put_be 8 v"
| "pk_bytes (AInt64 v) = put_be 8 (flip_sign v)"
| "pk_bytes (AString s) = s @ [0]"
| "pk_bytes _ = []"

definition pk_col :: "Kind \<Rightarrow> any \<Rightarrow> bool" where
  "pk_col kind v \<longleftrightarrow> any_kind v = kind \<and> kind \<noteq> KindBytes \<and> storable v"

text \<open>The primary keys the properties are about: number and string columns, no zero byte in a string.\<close>

definition plain_pk :: "Schema \<Rightarrow> any list \<Rightarrow> bool" where
  "plain_pk schema pk \<longleftrightarrow> pk \<noteq> [] \<and> list_all2 pk_col (pkKinds schema) pk"

definition row_prefix :: "Schema \<Rightarrow> any list \<Rightarrow> bytes" where
  "row_prefix schema pk = (tableRowTag # put_be 8 (TableID schema)) @ concat (map pk_bytes pk)"

definition row_key :: "Schema \<Rightarrow> any list \<Rightarrow> u64 \<Rightarrow> bytes" where
  "row_key schema pk v = row_prefix schema pk @ put_be 8 v"

lemma pk_col_cases:
  assumes "pk_col kind v"
  obtains (u) x where "v = AUint64 x" "kind = KindUint64" | (i) x where "v = AInt64 x" "kind = KindInt64"
    | (s) x where "v = AString x" "kind = KindString" "0 \<notin> set x"
  using assms by (cases v) (auto simp: pk_col_def)

lemma pk_key_values_ok:
  assumes "list_all2 pk_col kinds pk"
  shows "\<exists>kvs. pk_key_values kinds pk = Inr kvs \<and> concat (map encode_pk_value kvs) = concat (map pk_bytes pk)
    \<and> map vkind kvs = kinds \<and> pk_kind_ok kvs \<and> length kvs = length pk"
  using assms
proof (induction kinds pk rule: list_all2_induct)
  case (Cons kind kinds v pk)
  then obtain kvs where kvs: "pk_key_values kinds pk = Inr kvs" "concat (map encode_pk_value kvs) = concat (map pk_bytes pk)"
    "map vkind kvs = kinds" "pk_kind_ok kvs" "length kvs = length pk" by blast
  from Cons.hyps(1) show ?case by (cases rule: pk_col_cases) (use kvs in \<open>auto simp: anyToKeyValue_def\<close>)
qed simp

lemma pkKinds_length: "length (pkKinds schema) = length (PKIndices schema)"
  by (simp add: pkKinds_def)

lemma plain_pk_kvs:
  assumes "plain_pk schema pk"
  obtains kvs where "pk_key_values (pkKinds schema) pk = Inr kvs" "map vkind kvs = pkKinds schema" "pk_kind_ok kvs"
    "length pk = length (PKIndices schema)" "\<And>v. EncodeTableRowKey (TableID schema) kvs v = Inr (row_key schema pk v)"
    "EncodeTableRowPrefix (TableID schema) kvs = Inr (row_prefix schema pk)"
proof -
  have a: "list_all2 pk_col (pkKinds schema) pk" "pk \<noteq> []" using assms by (auto simp: plain_pk_def)
  obtain kvs where k: "pk_key_values (pkKinds schema) pk = Inr kvs" "concat (map encode_pk_value kvs) = concat (map pk_bytes pk)"
    "map vkind kvs = pkKinds schema" "pk_kind_ok kvs" "length kvs = length pk" using pk_key_values_ok [OF a(1)] by blast
  moreover have "kvs \<noteq> []" using k(5) a(2) by auto
  ultimately show ?thesis
    using that a(1) by (auto simp: EncodeTableRowKey_def EncodeTableRowPrefix_def row_key_def row_prefix_def pkKinds_length dest: list_all2_lengthD)
qed

lemma row_key_encode: "plain_pk schema pk \<Longrightarrow> encodeRowKeyFromPK schema pk v = Inr (row_key schema pk v)"
  by (erule plain_pk_kvs) (simp add: encodeRowKeyFromPK_def)

lemma row_key_decode: "plain_pk schema pk \<Longrightarrow> \<exists>kvs. DecodeTableRowKey (row_key schema pk v) (pkKinds schema) = Inr (TableID schema, kvs, v)"
  by (erule plain_pk_kvs) (metis row_roundtrip)

lemma length_row_prefix: "plain_pk schema pk \<Longrightarrow> 9 < length (row_prefix schema pk)"
proof -
  assume a: "plain_pk schema pk"
  then obtain v pk' kind where "pk = v # pk'" "pk_col kind v" by (cases pk) (auto simp: plain_pk_def list_all2_Cons2)
  moreover have "0 < length (pk_bytes v)" using \<open>pk_col kind v\<close> by (cases rule: pk_col_cases) auto
  ultimately show ?thesis by (simp add: row_prefix_def)
qed

section \<open>Unambiguous encoding\<close>

lemma no_zero_cancel: "0 \<notin> set xs \<Longrightarrow> 0 \<notin> set ys \<Longrightarrow> xs @ (0 :: byte) # r = ys @ 0 # r' \<Longrightarrow> xs = ys \<and> r = r'"
proof (induction xs arbitrary: ys)
  case Nil
  then show ?case by (cases ys) auto
next
  case (Cons x xs)
  then show ?case by (cases ys) auto
qed

lemma pk_bytes_cancel:
  "list_all2 pk_col kinds pk \<Longrightarrow> list_all2 pk_col kinds pk' \<Longrightarrow>
   concat (map pk_bytes pk) @ r = concat (map pk_bytes pk') @ r' \<Longrightarrow> pk = pk' \<and> r = r'"
proof (induction kinds arbitrary: pk pk')
  case (Cons kind kinds)
  obtain v ws v' ws' where p: "pk = v # ws" "pk' = v' # ws'" "pk_col kind v" "pk_col kind v'"
    "list_all2 pk_col kinds ws" "list_all2 pk_col kinds ws'"
    using Cons.prems(1,2) by (auto simp: list_all2_Cons1)
  let ?r = "concat (map pk_bytes ws) @ r" and ?r' = "concat (map pk_bytes ws') @ r'"
  have e: "pk_bytes v @ ?r = pk_bytes v' @ ?r'" using Cons.prems(3) p by simp
  have "v = v' \<and> ?r = ?r'"
    using p(3)
  proof (cases rule: pk_col_cases)
    case (u x)
    then show ?thesis using p(4) e by (auto elim!: pk_col_cases simp: put_be_inj)
  next
    case (i x)
    then show ?thesis using p(4) e by (auto elim!: pk_col_cases simp: put_be_inj flip_sign_eq_iff)
  next
    case (s x)
    then obtain y where y: "v' = AString y" "0 \<notin> set y" using p(4) by (auto elim!: pk_col_cases)
    then show ?thesis using s e no_zero_cancel [of x y ?r ?r'] by simp
  qed
  then show ?case using Cons.IH [OF p(5,6)] p(1,2) by blast
qed simp

text \<open>The schema of each table is determined by its number.\<close>

lemma row_prefix_cancel:
  assumes "plain_pk sch pk" "plain_pk sch' pk'" "TableID sch = TableID sch' \<Longrightarrow> sch = sch'"
    and "row_prefix sch pk @ r = row_prefix sch' pk' @ r'"
  shows "sch = sch' \<and> pk = pk' \<and> r = r'"
proof -
  have "TableID sch = TableID sch'" and c: "concat (map pk_bytes pk) @ r = concat (map pk_bytes pk') @ r'"
    using assms(4) by (auto simp: row_prefix_def put_be_inj)
  then have s: "sch = sch'" using assms(3) by blast
  then show ?thesis using pk_bytes_cancel [OF _ _ c, of "pkKinds sch"] assms(1,2) by (auto simp: plain_pk_def)
qed

section \<open>Prefix ranges\<close>

lemma not_prefix_less:
  "(p :: bytes) \<le> k \<Longrightarrow> (\<nexists>r. k = p @ r) \<Longrightarrow> \<exists>u x w y w'. p = u @ x # w \<and> k = u @ y # w' \<and> x < y"
proof (induction p arbitrary: k)
  case (Cons a p)
  then obtain c k' where k: "k = c # k'" by (cases k) auto
  show ?case
  proof (cases "a = c")
    case True
    then have "p \<le> k'" "\<nexists>r. k' = p @ r" using Cons.prems k by auto
    from Cons.IH [OF this] obtain u x w y w' where "p = u @ x # w" "k' = u @ y # w'" "x < y" by blast
    then show ?thesis using True k by (intro exI [of _ "a # u"]) auto
  next
    case False
    then have "a < c" using Cons.prems(1) k by auto
    then show ?thesis using k by (intro exI [of _ "[]"]) auto
  qed
qed simp

lemma app_split_longer:
  assumes "u @ x # w = q @ v" "length u < length q"
  shows "\<exists>q'. q = u @ x # q'"
proof -
  obtain us where us: "q = u @ us" "x # w = us @ v"
    using assms by (auto simp: append_eq_append_conv2)
  then have "us \<noteq> []" using assms(2) by auto
  then show ?thesis using us by (cases us) auto
qed

lemma less_zeros: "(w :: bytes) < replicate n 0 \<Longrightarrow> set w \<subseteq> {0}"
proof (induction w arbitrary: n)
  case (Cons a w)
  then show ?case by (cases n) (auto split: if_splits)
qed simp

text \<open>A key between a prefix and its end starts with the prefix, unless what follows the first
  difference consists of zero bytes.\<close>

lemma range_shape:
  assumes "PrefixEnd p = Some e" "p \<le> k" "k < e" "p = u @ x # w" "k = u @ y # w'" "x < y"
  shows "set w' \<subseteq> {0}"
proof -
  have "\<exists>b \<in> set (rev p). b \<noteq> 0xFF" and e: "e = rev (inc_rev (rev p))"
    using assms(1) by (auto simp: PrefixEnd_def split: if_splits)
  from inc_rev_shape [OF this(1)] obtain q b n where p: "p = q @ b # replicate n 0xFF"
    and r: "e = q @ (b + 1) # replicate n 0" "b \<noteq> 0xFF" using e by auto
  consider "length u < length q" | "length u = length q" | "length q < length u" by linarith
  then show ?thesis
  proof cases
    case 1
    then obtain q' where "q = u @ x # q'" using app_split_longer [of u x w q] p assms(4) by auto
    then have "e < k" using r assms(5,6) by (simp add: append_less_cong)
    then show ?thesis using assms(3) by simp
  next
    case 2
    then have u: "u = q" "x = b" using p assms(4) by auto
    have "u @ y # w' < u @ (b + 1) # replicate n 0" using assms(3,5) r u by simp
    then have "y < b + 1 \<or> y = b + 1 \<and> w' < replicate n 0" by (simp add: append_less_cong)
    moreover have "\<not> y < b + 1"
    proof
      assume "y < b + 1"
      then have "y \<le> b" by (simp add: word_less_nat_alt word_le_nat_alt unat_word_ariths split: if_splits)
      then show False using assms(6) u(2) by simp
    qed
    ultimately show ?thesis using less_zeros by blast
  next
    case 3
    then obtain u' where "u = q @ b # u'" using app_split_longer [of q b "replicate n 0xFF" u "x # w"] p assms(4) by auto
    then have "u' @ x # w = replicate n 0xFF" using p assms(4) by simp
    then have "x \<in> set (replicate n (0xFF :: byte))" by (metis in_set_conv_decomp)
    then have "x = 0xFF" by simp
    moreover have "y \<le> 0xFF" by (simp add: word_le_nat_alt) (use unsigned_less [of y, where ?'a = nat] in simp)
    ultimately show ?thesis using assms(6) by simp
  qed
qed

lemma put_be_nonzero: "v \<noteq> 0 \<Longrightarrow> \<not> set (put_be 8 (v :: u64)) \<subseteq> {0}"
proof
  assume v: "v \<noteq> 0" and s: "set (put_be 8 v) \<subseteq> {0}"
  have "put_be 8 v = replicate 8 0" using s by (intro replicate_eqI) auto
  also have "\<dots> = put_be 8 (0 :: u64)" by (simp add: numeral_eq_Suc zero_bytes_def)
  finally show False using v unfolding put_be_inj by simp
qed

text \<open>A key that ends in a non-zero number and lies in the range of a prefix has the prefix, unless
  the part before the number is itself a beginning of the prefix.\<close>

lemma range_prefix:
  assumes "PrefixEnd p = Some e" "p \<le> h @ put_be 8 v" "h @ put_be 8 v < e" "v \<noteq> (0 :: u64)" "\<nexists>r. p = h @ r"
  shows "\<exists>r. h @ put_be 8 v = p @ r"
proof (rule ccontr)
  assume n: "\<nexists>r. h @ put_be 8 v = p @ r"
  obtain u x w y w' where d: "p = u @ x # w" "h @ put_be 8 v = u @ y # w'" "x < y"
    using not_prefix_less [OF assms(2) n] by blast
  have z: "set w' \<subseteq> {0}" using range_shape [OF assms(1-3) d] .
  have "length u < length h"
  proof (rule ccontr)
    assume "\<not> length u < length h"
    then obtain us where "u = h @ us" using d(2) by (auto simp: append_eq_append_conv2)
    then show False using assms(5) d(1) by auto
  qed
  then obtain h' where "h = u @ y # h'" using app_split_longer [of u y w' h "put_be 8 v"] d(2) by auto
  then have "w' = h' @ put_be 8 v" using d(2) by simp
  then show False using z put_be_nonzero [OF assms(4)] by auto
qed

lemma row_prefix_end: "\<exists>e. PrefixEnd (row_prefix schema pk) = Some e"
  by (auto simp: PrefixEnd_def row_prefix_def tableRowTag_def)

lemma row_range:
  assumes "plain_pk sch pk" "plain_pk sch' pk'" "TableID sch = TableID sch' \<Longrightarrow> sch = sch'" "v \<noteq> 0"
    and "PrefixEnd (row_prefix sch pk) = Some e" "row_prefix sch pk \<le> row_key sch' pk' v" "row_key sch' pk' v < e"
  shows "sch' = sch \<and> pk' = pk"
proof (cases "\<exists>r. row_prefix sch pk = row_prefix sch' pk' @ r")
  case True
  then show ?thesis using row_prefix_cancel [OF assms(1-3)] by (metis append.right_neutral)
next
  case False
  then obtain r where "row_prefix sch' pk' @ put_be 8 v = row_prefix sch pk @ r"
    using range_prefix [OF assms(5)] assms(4,6,7) unfolding row_key_def by blast
  then show ?thesis using row_prefix_cancel [OF assms(1-3)] by metis
qed

lemma TablePrefix_eq: "TablePrefix t = tableRowTag # put_be 8 t"
  by (simp add: TablePrefix_def copy_at_def zero_bytes_def numeral_eq_Suc)

lemma table_prefix_end: "\<exists>e. PrefixEnd (TablePrefix t) = Some e"
  by (auto simp: PrefixEnd_def TablePrefix_eq tableRowTag_def)

lemma table_range:
  assumes "plain_pk sch pk" "v \<noteq> 0"
    and "PrefixEnd (TablePrefix t) = Some e" "TablePrefix t \<le> row_key sch pk v" "row_key sch pk v < e"
  shows "TableID sch = t"
proof -
  have "TablePrefix t \<noteq> row_prefix sch pk @ r" for r
  proof
    assume "TablePrefix t = row_prefix sch pk @ r"
    then have "length (TablePrefix t) = length (row_prefix sch pk @ r)" by (rule arg_cong)
    then show False using length_row_prefix [OF assms(1)] by (simp add: TablePrefix_eq)
  qed
  then obtain r where "row_prefix sch pk @ put_be 8 v = TablePrefix t @ r"
    using range_prefix [OF assms(3)] assms(2,4,5) unfolding row_key_def by blast
  then show ?thesis by (simp add: row_prefix_def TablePrefix_eq put_be_inj)
qed

lemma prefix_in_range:
  assumes "PrefixEnd p = Some e"
  shows "p \<le> p @ r \<and> p @ r < e"
  by (rule prefix_bound [OF assms])

end
