(* ===== verification/Heap_Mvcc.thy ===== *)
theory Heap_Mvcc
  imports Heap_Props Heap_Keys
begin

text \<open>
  Multi-version reads and writes.  \<open>visible_row\<close> is the specification of a read: the value of the
  greatest version that is not above the transaction.  Tables share one store; the contents are
  row keys of tables with different numbers and versions above zero (\<open>rows_only\<close>), which every
  writer keeps.
\<close>

section \<open>The store interface\<close>

text \<open>What the heap relies on: ordered scans, and \<open>Set\<close> and \<open>Delete\<close> as updates of a map, as long as a
  budget of writes lasts.\<close>

locale kv_store =
  fixes kv :: "'s KVStore"
    and rep :: "nat \<Rightarrow> 's \<Rightarrow> (bytes \<rightharpoonup> bytes) \<Rightarrow> bool"
    and fits :: "bytes \<Rightarrow> bytes \<Rightarrow> bool"
  assumes scan_law: "rep n s m \<Longrightarrow> \<exists>es. kvs_Scan kv None a b s = Some (Inr es) \<and> sorted_wrt (<) (map fst es)
      \<and> (\<forall>k v. (k, v) \<in> set es \<longleftrightarrow> m k = Some v \<and> a \<le> k \<and> (b = [] \<or> k < b))"
    and set_law: "rep (Suc n) s m \<Longrightarrow> fits k v \<Longrightarrow>
      \<exists>s'. kvs_Set kv None k v s = Some (s', Inr ()) \<and> rep n s' (m(k \<mapsto> v))"
    and delete_law: "rep n s m \<Longrightarrow> \<exists>s'. kvs_Delete kv None k s = Some (s', Inr ()) \<and> rep n s' (m(k := None))"
    and budget_law: "rep (Suc n) s m \<Longrightarrow> rep n s m"

text \<open>The tree store provides it, for entries that fit a leaf.\<close>

definition btreeKV :: "btreeStore KVStore" where
  "btreeKV = \<lparr>kvs_Set = kv_Set, kvs_Delete = kv_Delete, kvs_Scan = kv_Scan\<rparr>"

definition tree_holds :: "nat \<Rightarrow> btreeStore \<Rightarrow> (bytes \<rightharpoonup> bytes) \<Rightarrow> bool" where
  "tree_holds n s m \<longleftrightarrow> (\<exists>es. kv_rel n s es \<and> m = map_of es)"

definition leaf_fits :: "bytes \<Rightarrow> bytes \<Rightarrow> bool" where
  "leaf_fits k v \<longleftrightarrow> length k \<le> 63 \<and> length v \<le> 512"

interpretation btkv: kv_store btreeKV tree_holds leaf_fits
proof unfold_locales
  fix n s m a b assume "tree_holds n s m"
  then obtain es where es: "kv_rel n s es" "m = map_of es" by (auto simp: tree_holds_def)
  have "sorted_wrt (<) (map fst es)" using kv_rel_sorted [OF es(1)] .
  then show "\<exists>es. kvs_Scan btreeKV None a b s = Some (Inr es) \<and> sorted_wrt (<) (map fst es)
      \<and> (\<forall>k v. (k, v) \<in> set es \<longleftrightarrow> m k = Some v \<and> a \<le> k \<and> (b = [] \<or> k < b))"
    using sim_Scan [OF es(1), of a b] es(2) strict_distinct
    by (auto simp: btreeKV_def sorted_wrt_map intro!: sorted_wrt_filter)
next
  fix n s m k v assume "tree_holds (Suc n) s m" "leaf_fits k v"
  then show "\<exists>s'. kvs_Set btreeKV None k v s = Some (s', Inr ()) \<and> tree_holds n s' (m(k \<mapsto> v))"
    using sim_Set [of n s _ k v] by (fastforce simp: tree_holds_def leaf_fits_def btreeKV_def put_entry_map)
next
  fix n s m k assume "tree_holds n s m"
  then show "\<exists>s'. kvs_Delete btreeKV None k s = Some (s', Inr ()) \<and> tree_holds n s' (m(k := None))"
    using sim_Delete [of n s _ k] by (fastforce simp: tree_holds_def btreeKV_def filter_map_of)
next
  fix n s m assume "tree_holds (Suc n) s m"
  then show "tree_holds n s m" using kv_rel_next by (auto simp: tree_holds_def)
qed

section \<open>What is visible\<close>

text \<open>An entry holds a row, or no row for a tombstone.\<close>

definition stored :: "Schema \<Rightarrow> any list option \<Rightarrow> bytes \<Rightarrow> bool" where
  "stored schema r d \<longleftrightarrow> encodeEnterpriseValue schema r (if r = None then FlagTombstone else FlagNormal) = Inr d
     \<and> (\<forall>xs. r = Some xs \<longrightarrow> (\<forall>x \<in> set xs. length (any_raw x) < 2 ^ 32))"

definition rows_only :: "Schema list \<Rightarrow> (bytes \<rightharpoonup> bytes) \<Rightarrow> bool" where
  "rows_only schemas m \<longleftrightarrow> distinct (map TableID schemas)
     \<and> (\<forall>k d. m k = Some d \<longrightarrow> (\<exists>sch \<in> set schemas. \<exists>pk v r. plain_pk sch pk \<and> v \<noteq> 0 \<and> k = row_key sch pk v \<and> stored sch r d))"

definition version_set :: "(bytes \<rightharpoonup> bytes) \<Rightarrow> Schema \<Rightarrow> any list \<Rightarrow> u64 set" where
  "version_set m schema pk = {v. row_key schema pk v \<in> dom m}"

definition visible_version :: "(bytes \<rightharpoonup> bytes) \<Rightarrow> Schema \<Rightarrow> any list \<Rightarrow> u64 \<Rightarrow> u64 option" where
  "visible_version m schema pk tx =
     (if {v \<in> version_set m schema pk. v \<le> tx} = {} then None else Some (Max {v \<in> version_set m schema pk. v \<le> tx}))"

definition row_of :: "Schema \<Rightarrow> bytes \<Rightarrow> heap_err + any list" where
  "row_of schema d = (case decodeEnterpriseValue schema d of
      Inl e \<Rightarrow> Inl e | Inr (_, True) \<Rightarrow> Inl ErrRowNotFound | Inr (vals, False) \<Rightarrow> Inr (case vals of None \<Rightarrow> [] | Some ws \<Rightarrow> ws))"

definition visible_row :: "(bytes \<rightharpoonup> bytes) \<Rightarrow> Schema \<Rightarrow> any list \<Rightarrow> u64 \<Rightarrow> heap_err + any list" where
  "visible_row m schema pk tx = (case visible_version m schema pk tx of
      None \<Rightarrow> Inl ErrRowNotFound | Some v \<Rightarrow> row_of schema (the (m (row_key schema pk v))))"

lemma row_key_inject:
  assumes "plain_pk sch pk" "plain_pk sch' pk'" "TableID sch = TableID sch' \<Longrightarrow> sch = sch'"
  shows "row_key sch pk v = row_key sch' pk' v' \<longleftrightarrow> sch = sch' \<and> pk = pk' \<and> v = v'"
  using row_prefix_cancel [OF assms, of "put_be 8 v" "put_be 8 v'"] by (auto simp: row_key_def put_be_inj)

lemma same_table: "rows_only schemas m \<Longrightarrow> sch \<in> set schemas \<Longrightarrow> sch' \<in> set schemas \<Longrightarrow> TableID sch = TableID sch' \<Longrightarrow> sch = sch'"
  by (auto simp: rows_only_def distinct_map dest: inj_onD)

lemma stored_Some: "stored sch (Some xs) d \<Longrightarrow> decodeEnterpriseValue sch d = Inr (Some xs, False)"
  using decode_encoded [of sch xs d] by (simp add: stored_def)

lemma encode_nulls: "\<exists>bm'. encode_columns i cs (replicate (length cs) ANil) bm prims = Inr (bm', prims) \<and> length bm' = length bm"
proof (induction cs arbitrary: i bm)
  case (Cons c cs)
  then show ?case using Cons.IH [of "Suc i" "bm[i div 8 := bm ! (i div 8) OR push_bit (i mod 8) 1]"] by simp
qed simp

lemma encode_tombstone:
  "\<exists>bm. encodeEnterpriseValue sch None FlagTombstone = Inr (FlagTombstone # bm) \<and> length bm = bitmaskLen sch"
  using encode_nulls [of 0 "Columns sch" "zero_bytes (bitmaskLen sch)" "[]"]
  by (auto simp: encodeEnterpriseValue_def Let_def)

lemma stored_None: "stored sch None d \<Longrightarrow> decodeEnterpriseValue sch d = Inr (None, True)"
  using encode_tombstone [of sch] by (auto simp: stored_def decodeEnterpriseValue_def Let_def)

lemma row_of_stored: "stored sch r d \<Longrightarrow> row_of sch d = (case r of None \<Rightarrow> Inl ErrRowNotFound | Some xs \<Rightarrow> Inr xs)"
  by (cases r) (auto simp: row_of_def dest: stored_Some stored_None)

text \<open>The entries of a scan over the versions of a primary key.\<close>

lemma scanned_rows:
  assumes m: "rows_only schemas m" "sch \<in> set schemas" "plain_pk sch pk"
    and e: "PrefixEnd (row_prefix sch pk) = Some e"
    and es: "\<forall>k v. (k, v) \<in> set es \<longleftrightarrow> m k = Some v \<and> row_prefix sch pk \<le> k \<and> (e = [] \<or> k < e)"
  shows "set es = {(row_key sch pk v, d) | v d. m (row_key sch pk v) = Some d}"
proof -
  have ne: "e \<noteq> []" using prefix_in_range [OF e, of "[]"] by auto
  have "(k, d) \<in> set es \<longleftrightarrow> (\<exists>v. k = row_key sch pk v \<and> m k = Some d)" for k d
  proof
    assume "(k, d) \<in> set es"
    then have k: "m k = Some d" "row_prefix sch pk \<le> k" "k < e" using es ne by auto
    then obtain sch' pk' v where r: "sch' \<in> set schemas" "plain_pk sch' pk'" "v \<noteq> 0" "k = row_key sch' pk' v"
      using m(1) unfolding rows_only_def by blast
    then have "sch' = sch \<and> pk' = pk" using row_range [OF m(3) r(2) _ r(3) e] k same_table [OF m(1,2) r(1)] by metis
    then show "\<exists>v. k = row_key sch pk v \<and> m k = Some d" using r k by blast
  next
    assume "\<exists>v. k = row_key sch pk v \<and> m k = Some d"
    then show "(k, d) \<in> set es" using es prefix_in_range [OF e] by (auto simp: row_key_def)
  qed
  then show ?thesis by auto
qed

lemma entry_versions_map:
  assumes "\<forall>(k, d) \<in> set es. \<exists>pk v. plain_pk sch pk \<and> k = row_key sch pk v"
  shows "entry_versions sch es = map (\<lambda>(k, d). (get_be (drop (length k - 8) k), k, d)) es"
  using assms
proof (induction es)
  case (Cons e es)
  obtain pk v d where e: "e = (row_key sch pk v, d)" "plain_pk sch pk" using Cons.prems by auto
  then have "\<exists>kvs. DecodeTableRowKey (row_key sch pk v) (pkKinds sch) = Inr (TableID sch, kvs, v)" using row_key_decode by blast
  moreover have "get_be (drop (length (row_key sch pk v) - 8) (row_key sch pk v)) = v"
    by (simp add: row_key_def codec_simps)
  ultimately show ?case using Cons e by auto
qed simp

lemma version_of_key: "get_be (drop (length (row_key sch pk v) - 8) (row_key sch pk v)) = v"
  by (simp add: row_key_def codec_simps)

lemma versions_of_pk:
  assumes "plain_pk sch pk" "set es = {(row_key sch pk v, d) | v d. m (row_key sch pk v) = Some d}"
  shows "set (entry_versions sch es) = {(v, row_key sch pk v, d) | v d. m (row_key sch pk v) = Some d}"
proof -
  have "\<forall>(k, d) \<in> set es. \<exists>pk v. plain_pk sch pk \<and> k = row_key sch pk v" using assms by auto
  from entry_versions_map [OF this] show ?thesis
    using assms(2) by (auto simp: version_of_key image_iff)
qed

lemma latest_None: "latest xs = None \<longleftrightarrow> xs = []"
  by (cases xs) (auto split: option.splits)

lemma latest_Some: "latest xs = Some e \<Longrightarrow> e \<in> set xs \<and> (\<forall>x \<in> set xs. fst x \<le> fst e)"
proof (induction xs arbitrary: e)
  case (Cons x xs)
  show ?case
  proof (cases "latest xs")
    case None
    then have "xs = []" using latest_None by blast
    then show ?thesis using Cons.prems by simp
  next
    case (Some y)
    note IH = Cons.IH [OF Some]
    show ?thesis
    proof (cases "fst x < fst y")
      case True
      then have "e = y" using Cons.prems Some by simp
      then show ?thesis using IH True by (simp add: less_imp_le)
    next
      case False
      then have "e = x" "fst y \<le> fst x" using Cons.prems Some by simp_all
      moreover from this have "\<forall>z \<in> set xs. fst z \<le> fst x" using IH order_trans by blast
      ultimately show ?thesis by simp
    qed
  qed
qed simp

lemma latest_visible:
  assumes "set xs = {(v, row_key sch pk v, d) | v d. m (row_key sch pk v) = Some d}"
  shows "latest (filter (\<lambda>(v, _). v \<le> tx) xs) = (case visible_version m sch pk tx of
    None \<Rightarrow> None | Some v \<Rightarrow> Some (v, row_key sch pk v, the (m (row_key sch pk v))))"
proof -
  let ?V = "{v \<in> version_set m sch pk. v \<le> tx}"
  let ?xs = "filter (\<lambda>(v, _). v \<le> tx) xs"
  have "set ?xs = {(v, row_key sch pk v, d) | v d. m (row_key sch pk v) = Some d \<and> v \<le> tx}" using assms by auto
  then have V: "fst ` set ?xs = ?V" by (auto simp: version_set_def image_iff)
  show ?thesis
  proof (cases "latest ?xs")
    case None
    then have "?xs = []" using latest_None by blast
    then have "?V = {}" using V by simp
    then show ?thesis using None by (simp add: visible_version_def)
  next
    case (Some e)
    note l = latest_Some [OF Some]
    then obtain v d where e: "e = (v, row_key sch pk v, d)" "m (row_key sch pk v) = Some d" using assms by auto
    have "fst e \<in> ?V" unfolding V [symmetric] using l by blast
    moreover have "\<forall>w \<in> ?V. w \<le> fst e" unfolding V [symmetric] using l by blast
    moreover have "fst e = v" using e by simp
    ultimately have "Max ?V = v" "?V \<noteq> {}" by (auto intro!: Max_eqI)
    then show ?thesis using Some e by (simp add: visible_version_def)
  qed
qed

section \<open>Reads\<close>

context kv_store
begin

lemma scan_row:
  assumes "rep n s m" "rows_only schemas m" "sch \<in> set schemas" "plain_pk sch pk"
  obtains e es where "encodeRowVersionPrefix sch pk = Inr (row_prefix sch pk, e)"
    "kvs_Scan kv None (row_prefix sch pk) e s = Some (Inr es)"
    "set (entry_versions sch es) = {(v, row_key sch pk v, d) | v d. m (row_key sch pk v) = Some d}"
proof -
  obtain e where e: "PrefixEnd (row_prefix sch pk) = Some e" using row_prefix_end by blast
  obtain es where es: "kvs_Scan kv None (row_prefix sch pk) e s = Some (Inr es)"
    "\<forall>k v. (k, v) \<in> set es \<longleftrightarrow> m k = Some v \<and> row_prefix sch pk \<le> k \<and> (e = [] \<or> k < e)"
    using scan_law [OF assms(1)] by blast
  have "encodeRowVersionPrefix sch pk = Inr (row_prefix sch pk, e)"
    using assms(4) e by (auto elim!: plain_pk_kvs simp: encodeRowVersionPrefix_def)
  then show ?thesis using that es(1) versions_of_pk [OF assms(4) scanned_rows [OF assms(2-4) e es(2)]] by blast
qed

lemma find_visible:
  assumes "rep n s m" "rows_only schemas m" "sch \<in> set schemas" "plain_pk sch pk"
  shows "\<exists>r. findVisibleRow kv None sch pk tx s = Some r \<and> visible_row m sch pk tx = map_sum id fst r"
proof -
  obtain e es where "encodeRowVersionPrefix sch pk = Inr (row_prefix sch pk, e)"
    "kvs_Scan kv None (row_prefix sch pk) e s = Some (Inr es)"
    "set (entry_versions sch es) = {(v, row_key sch pk v, d) | v d. m (row_key sch pk v) = Some d}"
    using scan_row [OF assms] by blast
  then show ?thesis
    using latest_visible [of "entry_versions sch es" sch pk m tx]
    by (auto simp: findVisibleRow_def visible_row_def row_of_def split: option.splits sum.splits bool.splits)
qed

lemma get_visible:
  assumes "rep n s m" "rows_only schemas m" "sch \<in> set schemas" "plain_pk sch pk"
  shows "table_Get kv None sch tx pk s = Some (visible_row m sch pk tx)"
  using find_visible [OF assms, of tx] by (auto simp: table_Get_def split: sum.splits)

lemma monotonic:
  assumes "rep n s m" "rows_only schemas m" "sch \<in> set schemas" "plain_pk sch pk"
  shows "validateMonotonicTx kv None sch pk tx s = Some (if tx = 0 then Inl ErrInvalidTx
    else if \<exists>v \<in> version_set m sch pk. tx \<le> v then Inl ErrTxConflict else Inr ())"
proof -
  obtain e es where es: "encodeRowVersionPrefix sch pk = Inr (row_prefix sch pk, e)"
    "kvs_Scan kv None (row_prefix sch pk) e s = Some (Inr es)"
    "set (entry_versions sch es) = {(v, row_key sch pk v, d) | v d. m (row_key sch pk v) = Some d}"
    using scan_row [OF assms] by blast
  have "list_ex (\<lambda>(v, _). v \<ge> tx) (entry_versions sch es) \<longleftrightarrow> (\<exists>v \<in> version_set m sch pk. tx \<le> v)"
    using es(3) by (force simp: list_ex_iff version_set_def)
  then show ?thesis using es(1,2) by (simp add: validateMonotonicTx_def)
qed

section \<open>Writes\<close>

lemma write_row_ok:
  assumes "rep (Suc n) s m" "plain_pk sch pk" "encodeEnterpriseValue sch row flags = Inr d" "fits (row_key sch pk tx) d"
  shows "\<exists>s'. write_row kv None sch row flags pk tx s = Some (s', Inr ()) \<and> rep n s' (m(row_key sch pk tx \<mapsto> d))"
  using set_law [OF assms(1,4)] assms(2,3) by (auto simp: write_row_def row_key_encode)

lemma insert_spec:
  assumes "rep n s m" "rows_only schemas m" "sch \<in> set schemas" "length xs = length (Columns sch)"
    and "pk = map (\<lambda>idx. xs ! nat idx) (PKIndices sch)" "plain_pk sch pk"
  shows "table_Insert kv None sch tx xs s =
    (if tx = 0 then Some (s, Inl ErrInvalidTx)
     else if \<exists>v \<in> version_set m sch pk. tx \<le> v then Some (s, Inl ErrTxConflict)
     else if \<not> isl (visible_row m sch pk tx) then Some (s, Inl ErrDuplicateKey)
     else write_row kv None sch (Some xs) FlagNormal pk tx s)"
proof -
  obtain r where "findVisibleRow kv None sch pk tx s = Some r" "visible_row m sch pk tx = map_sum id fst r"
    using find_visible [OF assms(1-3,6)] by blast
  then show ?thesis
    using monotonic [OF assms(1-3,6), of tx] assms(4,5) by (cases r) (auto simp: table_Insert_def Let_def)
qed

lemma update_spec:
  assumes "rep n s m" "rows_only schemas m" "sch \<in> set schemas" "length xs = length (Columns sch)" "plain_pk sch pk"
  shows "table_Update kv None sch tx pk xs s =
    (if tx = 0 then Some (s, Inl ErrInvalidTx)
     else if \<exists>v \<in> version_set m sch pk. tx \<le> v then Some (s, Inl ErrTxConflict)
     else if isl (visible_row m sch pk tx) then Some (s, Inl ErrRowNotFound)
     else if \<not> comparePK (PKIndices sch) pk xs then Some (s, Inl ErrPrimaryKeyUpdate)
     else write_row kv None sch (Some xs) FlagNormal pk tx s)"
proof -
  obtain r where "findVisibleRow kv None sch pk tx s = Some r" "visible_row m sch pk tx = map_sum id fst r"
    using find_visible [OF assms(1-3,5)] by blast
  then show ?thesis
    using monotonic [OF assms(1-3,5), of tx] assms(4) by (cases r) (auto simp: table_Update_def)
qed

lemma delete_spec:
  assumes "rep n s m" "rows_only schemas m" "sch \<in> set schemas" "plain_pk sch pk"
  shows "table_Delete kv None sch tx pk s =
    (if tx = 0 then Some (s, Inl ErrInvalidTx)
     else if \<exists>v \<in> version_set m sch pk. tx \<le> v then Some (s, Inl ErrTxConflict)
     else if isl (visible_row m sch pk tx) then Some (s, Inl ErrRowNotFound)
     else write_row kv None sch None FlagTombstone pk tx s)"
proof -
  obtain r where "findVisibleRow kv None sch pk tx s = Some r" "visible_row m sch pk tx = map_sum id fst r"
    using find_visible [OF assms(1-4)] by blast
  then show ?thesis
    using monotonic [OF assms(1-4), of tx] by (cases r) (auto simp: table_Delete_def)
qed

lemma delete_all_ok:
  "rep n s m \<Longrightarrow> \<exists>s'. delete_all kv None ks s = Some s' \<and> rep n s' (m |` (- set ks))"
proof (induction ks arbitrary: s m)
  case (Cons k ks)
  obtain s1 where s1: "kvs_Delete kv None k s = Some (s1, Inr ())" "rep n s1 (m(k := None))" using delete_law [OF Cons.prems] by blast
  have e: "m(k := None) |` (- set ks) = m |` (- set (k # ks))" by (auto simp: restrict_map_def)
  obtain s' where "delete_all kv None ks s1 = Some s'" "rep n s' (m |` (- set (k # ks)))"
    using Cons.IH [OF s1(2)] unfolding e by blast
  then show ?case using s1(1) by auto
qed (simp add: restrict_map_def)

end

end
