(* ===== verification/Heap_Scan.thy ===== *)
theory Heap_Scan
  imports Heap_Mvcc
begin

text \<open>
  \<open>Scan\<close> and \<open>Vacuum\<close>: the rows of a scan are exactly the visible rows of the table in key order, and
  the versions a vacuum deletes are those no reader from its bound on can see.
\<close>

section \<open>The versions of a table\<close>

lemma scanned_table:
  assumes m: "rows_only schemas m" "sch \<in> set schemas"
    and e: "PrefixEnd (TablePrefix (TableID sch)) = Some e"
    and es: "\<forall>k v. (k, v) \<in> set es \<longleftrightarrow> m k = Some v \<and> TablePrefix (TableID sch) \<le> k \<and> (e = [] \<or> k < e)"
  shows "set (entry_versions sch es) = {(v, row_key sch pk v, d) | pk v d. plain_pk sch pk \<and> m (row_key sch pk v) = Some d}"
proof -
  have ne: "e \<noteq> []" using prefix_in_range [OF e, of "[]"] by auto
  have mem: "(k, d) \<in> set es \<longleftrightarrow> (\<exists>pk v. plain_pk sch pk \<and> k = row_key sch pk v \<and> m k = Some d)" for k d
  proof
    assume "(k, d) \<in> set es"
    then have k: "m k = Some d" "TablePrefix (TableID sch) \<le> k" "k < e" using es ne by auto
    then obtain sch' pk v where r: "sch' \<in> set schemas" "plain_pk sch' pk" "v \<noteq> 0" "k = row_key sch' pk v"
      using m(1) unfolding rows_only_def by blast
    then have "TableID sch' = TableID sch" using table_range [OF r(2,3) e] k by simp
    then have "sch' = sch" using same_table [OF m(1) r(1) m(2)] by simp
    then show "\<exists>pk v. plain_pk sch pk \<and> k = row_key sch pk v \<and> m k = Some d" using r k by blast
  next
    assume "\<exists>pk v. plain_pk sch pk \<and> k = row_key sch pk v \<and> m k = Some d"
    then show "(k, d) \<in> set es"
      using es prefix_in_range [OF e] by (auto simp: row_key_def row_prefix_def TablePrefix_eq)
  qed
  then have "\<forall>(k, d) \<in> set es. \<exists>pk v. plain_pk sch pk \<and> k = row_key sch pk v" by blast
  note ev = entry_versions_map [OF this]
  show ?thesis
  proof (intro set_eqI iffI)
    fix x assume "x \<in> set (entry_versions sch es)"
    then obtain k d where x: "(k, d) \<in> set es" "x = (get_be (drop (length k - 8) k), k, d)" using ev by auto
    then obtain pk v where "plain_pk sch pk" "k = row_key sch pk v" "m k = Some d" using mem by blast
    then show "x \<in> {(v, row_key sch pk v, d) | pk v d. plain_pk sch pk \<and> m (row_key sch pk v) = Some d}"
      using x(2) version_of_key by auto
  next
    fix x assume "x \<in> {(v, row_key sch pk v, d) | pk v d. plain_pk sch pk \<and> m (row_key sch pk v) = Some d}"
    then obtain pk v d where x: "x = (v, row_key sch pk v, d)" "plain_pk sch pk" "m (row_key sch pk v) = Some d" by blast
    then have "(row_key sch pk v, d) \<in> set es" using mem by blast
    then show "x \<in> set (entry_versions sch es)" unfolding ev x(1) by (force simp: version_of_key)
  qed
qed

text \<open>The primary key of a row key is its prefix.\<close>

lemma extractPKPrefix_row_key [simp]: "extractPKPrefix (row_key sch pk v) = row_prefix sch pk"
proof -
  have "row_prefix sch pk \<noteq> []" by (simp add: row_prefix_def)
  then show ?thesis by (simp add: extractPKPrefix_def row_key_def)
qed

definition table_versions :: "(bytes \<rightharpoonup> bytes) \<Rightarrow> Schema \<Rightarrow> (u64 \<times> bytes \<times> bytes) list \<Rightarrow> bool" where
  "table_versions m sch xs \<longleftrightarrow>
     set xs = {(v, row_key sch pk v, d) | pk v d. plain_pk sch pk \<and> m (row_key sch pk v) = Some d}"

lemma row_prefix_inject: "plain_pk sch pk \<Longrightarrow> plain_pk sch pk' \<Longrightarrow> row_prefix sch pk = row_prefix sch pk' \<longleftrightarrow> pk = pk'"
  using row_prefix_cancel [of sch pk sch pk' "[]" "[]"] by auto

lemma versions_with_prefix:
  assumes "table_versions m sch xs" "plain_pk sch pk"
  shows "set (filter (\<lambda>(v, k, d). extractPKPrefix k = row_prefix sch pk) xs)
    = {(v, row_key sch pk v, d) | v d. m (row_key sch pk v) = Some d}"
  using assms row_prefix_inject [OF _ assms(2)] by (auto simp: table_versions_def)

context kv_store
begin

lemma scan_table:
  assumes "rep n s m" "rows_only schemas m" "sch \<in> set schemas"
  obtains es where "kvs_Scan kv None (fst (table_bounds sch)) (snd (table_bounds sch)) s = Some (Inr es)"
    "table_versions m sch (entry_versions sch es)"
proof -
  obtain e where e: "PrefixEnd (TablePrefix (TableID sch)) = Some e" using table_prefix_end by blast
  obtain es where "kvs_Scan kv None (TablePrefix (TableID sch)) e s = Some (Inr es)"
    "\<forall>k v. (k, v) \<in> set es \<longleftrightarrow> m k = Some v \<and> TablePrefix (TableID sch) \<le> k \<and> (e = [] \<or> k < e)"
    using scan_law [OF assms(1)] by blast
  then show ?thesis using that scanned_table [OF assms(2,3) e] e by (simp add: table_bounds_def table_versions_def)
qed

end

section \<open>Scan\<close>

text \<open>The map of groups holds, for every primary key, the newest version.\<close>

definition newest_of :: "(u64 \<times> bytes \<times> bytes) list \<Rightarrow> bytes \<Rightarrow> (u64 \<times> bytes) option" where
  "newest_of xs p = map_option (\<lambda>(v, k, d). (v, d)) (latest (filter (\<lambda>(v, k, d). extractPKPrefix k = p) xs))"

definition newer :: "(u64 \<times> bytes) option \<Rightarrow> (u64 \<times> bytes) option \<Rightarrow> (u64 \<times> bytes) option" where
  "newer a b = (case a of None \<Rightarrow> b | Some (v, d) \<Rightarrow> (case b of None \<Rightarrow> a | Some (v', d') \<Rightarrow> if v' > v then b else a))"

lemma newer_assoc: "newer (newer a b) c = newer a (newer b c)"
  by (auto simp: newer_def split: option.splits)

lemma newest_of_Cons:
  "newest_of ((v, k, d) # xs) p = (if extractPKPrefix k = p then newer (Some (v, d)) (newest_of xs p) else newest_of xs p)"
  by (auto simp: newest_of_def newer_def split: option.splits)

lemma scan_groups_map: "map_of (scan_groups xs gs) p = newer (map_of gs p) (newest_of xs p)"
proof (induction xs gs rule: scan_groups.induct)
  case (1 gs)
  then show ?case by (auto simp: newest_of_def newer_def split: option.splits)
next
  case (2 v k d xs gs)
  show ?case
  proof (cases "map_of gs (extractPKPrefix k)")
    case None
    then show ?thesis using "2.IH"(1) [OF None] by (auto simp: newest_of_Cons update_conv newer_def)
  next
    case (Some x)
    obtain w c where x: "x = (w, c)" by (cases x)
    have "map_of (scan_groups ((v, k, d) # xs) gs) p
      = newer (map_of (if v > w then AList.update (extractPKPrefix k) (v, d) gs else gs) p) (newest_of xs p)"
      using Some x "2.IH"(2) [OF Some x [symmetric]] by simp
    also have "map_of (if v > w then AList.update (extractPKPrefix k) (v, d) gs else gs) p
      = (if extractPKPrefix k = p then newer (map_of gs p) (Some (v, d)) else map_of gs p)"
      using Some x by (auto simp: update_conv newer_def)
    finally show ?thesis by (simp add: newest_of_Cons newer_assoc)
  qed
qed

lemma scan_groups_distinct: "distinct (map fst gs) \<Longrightarrow> distinct (map fst (scan_groups xs gs))"
  by (induction xs gs rule: scan_groups.induct) (auto simp: distinct_update split: option.splits)

lemma decoded_tombstone: "decodeEnterpriseValue sch d = Inr (ws, b) \<Longrightarrow> b \<longleftrightarrow> d \<noteq> [] \<and> d ! 0 = FlagTombstone"
  by (auto simp: decodeEnterpriseValue_def Let_def Suc_le_eq split: if_splits sum.splits)

lemma row_of_Inr:
  "row_of sch d = Inr r \<longleftrightarrow> \<not> (d \<noteq> [] \<and> d ! 0 = FlagTombstone)
    \<and> (\<exists>ws b. decodeEnterpriseValue sch d = Inr (ws, b) \<and> r = (case ws of None \<Rightarrow> [] | Some ws \<Rightarrow> ws))"
proof (cases "decodeEnterpriseValue sch d")
  case (Inr x)
  obtain ws b where "x = (ws, b)" by (cases x)
  then show ?thesis using Inr decoded_tombstone [of sch d ws b] by (cases b) (auto simp: row_of_def)
qed (simp add: row_of_def)

lemma visible_rows_Cons:
  "visible_rows sch ((p, v, d) # gs) = (case row_of sch d of Inl _ \<Rightarrow> visible_rows sch gs | Inr r \<Rightarrow> (p, r) # visible_rows sch gs)"
proof (cases "row_of sch d")
  case (Inl e)
  then have "\<nexists>r. row_of sch d = Inr r" by simp
  then show ?thesis using Inl unfolding row_of_Inr by (auto split: sum.splits)
next
  case (Inr r)
  then show ?thesis using row_of_Inr [of sch d r] by (auto split: sum.splits)
qed

lemma visible_rows_keys: "map fst (visible_rows sch gs) = map fst (filter (\<lambda>(p, v, d). \<not> isl (row_of sch d)) gs)"
proof (induction gs)
  case (Cons g gs)
  then show ?case by (cases g) (simp add: visible_rows_Cons del: visible_rows.simps(2) split: sum.split)
qed simp

lemma visible_rows_set: "set (visible_rows sch gs) = {(p, r) | p v d r. (p, v, d) \<in> set gs \<and> row_of sch d = Inr r}"
proof (induction gs)
  case (Cons g gs)
  then show ?case by (cases g) (auto simp: visible_rows_Cons simp del: visible_rows.simps(2) split: sum.splits)
qed simp

lemma newest_visible:
  assumes "table_versions m sch xs" "plain_pk sch pk"
  shows "newest_of (filter (\<lambda>(v, _). \<not> v > tx) xs) (row_prefix sch pk) = map_option (\<lambda>v. (v, the (m (row_key sch pk v)))) (visible_version m sch pk tx)"
proof -
  have "filter (\<lambda>(v, k, d). extractPKPrefix k = row_prefix sch pk) (filter (\<lambda>(v, _). \<not> v > tx) xs)
    = filter (\<lambda>(v, _). v \<le> tx) (filter (\<lambda>(v, k, d). extractPKPrefix k = row_prefix sch pk) xs)"
    by (auto simp: not_less intro: filter_cong)
  then show ?thesis
    using latest_visible [OF versions_with_prefix [OF assms], of tx] by (auto simp: newest_of_def split: option.splits)
qed

lemma newest_other:
  assumes "table_versions m sch xs" "\<And>pk. plain_pk sch pk \<Longrightarrow> p \<noteq> row_prefix sch pk"
  shows "newest_of (filter P xs) p = None"
proof -
  have "filter (\<lambda>(v, k, d). extractPKPrefix k = p) (filter P xs) = []"
    using assms by (fastforce simp: filter_empty_conv table_versions_def)
  then show ?thesis by (simp add: newest_of_def)
qed

context kv_store
begin

lemma scan_rows:
  assumes "rep n s m" "rows_only schemas m" "sch \<in> set schemas"
  shows "\<exists>r. table_Scan kv None sch tx s = Some (Inr r) \<and> er_idx r = 0 \<and> er_curVals r = None \<and> sorted_wrt (<) (map fst (er_rows r))
    \<and> set (er_rows r) = {(row_prefix sch pk, row) | pk row. plain_pk sch pk \<and> visible_row m sch pk tx = Inr row}"
proof -
  obtain es where es: "kvs_Scan kv None (fst (table_bounds sch)) (snd (table_bounds sch)) s = Some (Inr es)"
    and tv: "table_versions m sch (entry_versions sch es)" using scan_table [OF assms] .
  let ?gs = "scan_groups (filter (\<lambda>(v, _). \<not> v > tx) (entry_versions sch es)) []"
  have d: "distinct (map fst ?gs)" by (rule scan_groups_distinct) simp
  then have "(p, v, b) \<in> set ?gs \<longleftrightarrow> map_of ?gs p = Some (v, b)" for p v b by (rule map_of_eq_Some_iff [symmetric])
  then have g: "(p, v, b) \<in> set ?gs \<longleftrightarrow> newest_of (filter (\<lambda>(v, _). \<not> v > tx) (entry_versions sch es)) p = Some (v, b)" for p v b
    by (simp add: scan_groups_map newer_def)
  have "(p, row) \<in> set (visible_rows sch ?gs) \<longleftrightarrow> (\<exists>pk. p = row_prefix sch pk \<and> plain_pk sch pk \<and> visible_row m sch pk tx = Inr row)" for p row
  proof (cases "\<exists>pk. plain_pk sch pk \<and> p = row_prefix sch pk")
    case True
    then obtain pk where pk: "plain_pk sch pk" "p = row_prefix sch pk" by blast
    have "(p, row) \<in> set (visible_rows sch ?gs) \<longleftrightarrow> visible_row m sch pk tx = Inr row"
      using newest_visible [OF tv pk(1), of tx] unfolding visible_rows_set g pk(2)
      by (auto simp: visible_row_def split: option.splits)
    then show ?thesis using row_prefix_inject pk by metis
  next
    case False
    then have "newest_of (filter (\<lambda>(v, _). \<not> v > tx) (entry_versions sch es)) p = None" by (intro newest_other [OF tv]) blast
    then show ?thesis using False unfolding visible_rows_set g by auto
  qed
  then have "set (visible_rows sch ?gs) = {(row_prefix sch pk, row) | pk row. plain_pk sch pk \<and> visible_row m sch pk tx = Inr row}"
    by auto
  moreover have "sorted_wrt (<) (map fst (sort_key fst (visible_rows sch ?gs)))"
  proof -
    have "distinct (map fst (visible_rows sch ?gs))" unfolding visible_rows_keys using d by (rule distinct_map_filter)
    then have "distinct (map fst (sort_key fst (visible_rows sch ?gs)))" by (simp add: distinct_map)
    then show ?thesis using sorted_sort_key strict_sorted_iff by blast
  qed
  ultimately show ?thesis
    using es by (auto simp: table_Scan_def Let_def split: prod.splits)
qed

end

section \<open>Vacuum\<close>

definition is_tomb :: "bytes \<Rightarrow> bool" where
  "is_tomb d \<longleftrightarrow> d \<noteq> [] \<and> d ! 0 = FlagTombstone"

text \<open>The versions of a row that are removed.\<close>

definition vacuumed :: "(bytes \<rightharpoonup> bytes) \<Rightarrow> Schema \<Rightarrow> any list \<Rightarrow> u64 \<Rightarrow> u64 set" where
  "vacuumed m sch pk olderThan = (case visible_version m sch pk olderThan of None \<Rightarrow> {} | Some v0 \<Rightarrow>
     {v \<in> version_set m sch pk. v \<le> olderThan \<and>
        (if is_tomb (the (m (row_key sch pk v0))) then \<forall>w \<in> version_set m sch pk. w \<le> olderThan else v < v0)})"

definition vacuum_map :: "(bytes \<rightharpoonup> bytes) \<Rightarrow> Schema \<Rightarrow> u64 \<Rightarrow> (bytes \<rightharpoonup> bytes)" where
  "vacuum_map m sch olderThan = m |` (- {row_key sch pk v | pk v. plain_pk sch pk \<and> v \<in> vacuumed m sch pk olderThan})"

definition joined :: "'a list option \<Rightarrow> 'a list \<Rightarrow> 'a list option" where
  "joined a ys = (case a of None \<Rightarrow> if ys = [] then None else Some ys | Some xs \<Rightarrow> Some (xs @ ys))"

lemma vacuum_groups_map:
  "map_of (vacuum_groups xs gs) p = joined (map_of gs p) (filter (\<lambda>(v, k, d). extractPKPrefix k = p) xs)"
proof (induction xs gs rule: vacuum_groups.induct)
  case (1 gs)
  then show ?case by (simp add: joined_def split: option.splits)
next
  case (2 v k d xs gs)
  then show ?case by (auto simp: update_conv joined_def split: option.splits)
qed

lemma vacuum_groups_distinct: "distinct (map fst gs) \<Longrightarrow> distinct (map fst (vacuum_groups xs gs))"
  by (induction xs gs rule: vacuum_groups.induct) (auto simp: distinct_update)

lemma find_first:
  assumes "sorted_wrt (\<lambda>x y. fst y \<le> fst x) ys" "find (\<lambda>(v, _). v \<le> (b :: u64)) ys = Some e"
  shows "e \<in> set ys \<and> fst e \<le> b \<and> (\<forall>x \<in> set ys. fst x \<le> b \<longrightarrow> fst x \<le> fst e)"
  using assms
proof (induction ys)
  case (Cons y ys)
  then show ?case by (cases "fst y \<le> b") (auto simp: case_prod_beta)
qed simp

lemma visible_version_eq:
  "v \<in> version_set m sch pk \<Longrightarrow> v \<le> tx \<Longrightarrow> (\<And>w. w \<in> version_set m sch pk \<Longrightarrow> w \<le> tx \<Longrightarrow> w \<le> v) \<Longrightarrow>
   visible_version m sch pk tx = Some v"
  by (auto simp: visible_version_def intro!: Max_eqI)

lemma visible_version_Some:
  assumes "visible_version m sch pk tx = Some v"
  shows "v \<in> version_set m sch pk \<and> v \<le> tx \<and> (\<forall>w \<in> version_set m sch pk. w \<le> tx \<longrightarrow> w \<le> v)"
proof -
  let ?V = "{v \<in> version_set m sch pk. v \<le> tx}"
  have "?V \<noteq> {}" "v = Max ?V" using assms by (auto simp: visible_version_def split: if_splits)
  then show ?thesis using Max_in [of ?V] Max_ge [of ?V] by auto
qed

lemma visible_version_None:
  "visible_version m sch pk tx = None \<longleftrightarrow> (\<forall>w \<in> version_set m sch pk. \<not> w \<le> tx)"
  by (auto simp: visible_version_def)

lemma filtered_keys:
  assumes "set xs = {(v, row_key sch pk v, d) | v d. m (row_key sch pk v) = Some d}" "set ys = set xs"
  shows "set (map (\<lambda>(v, k, _). k) (filter (\<lambda>(v, _). P v) ys)) = {row_key sch pk v | v. v \<in> version_set m sch pk \<and> P v}"
proof (intro set_eqI iffI)
  fix k assume "k \<in> set (map (\<lambda>(v, k, _). k) (filter (\<lambda>(v, _). P v) ys))"
  then obtain v d where "(v, k, d) \<in> set xs" "P v" using assms(2) by auto
  then show "k \<in> {row_key sch pk v | v. v \<in> version_set m sch pk \<and> P v}" using assms(1) by (auto simp: version_set_def)
next
  fix k assume "k \<in> {row_key sch pk v | v. v \<in> version_set m sch pk \<and> P v}"
  then obtain v d where "k = row_key sch pk v" "(v, row_key sch pk v, d) \<in> set ys" "P v" using assms by (auto simp: version_set_def)
  then show "k \<in> set (map (\<lambda>(v, k, _). k) (filter (\<lambda>(v, _). P v) ys))" by force
qed

lemma victims_set:
  assumes "set xs = {(v, row_key sch pk v, d) | v d. m (row_key sch pk v) = Some d}"
  shows "set (vacuum_victims olderThan xs) = row_key sch pk ` vacuumed m sch pk olderThan"
proof -
  let ?ys = "rev (sort_key fst xs)"
  have V: "version_set m sch pk = fst ` set ?ys" using assms by (force simp: version_set_def image_iff)
  have s: "sorted_wrt (\<lambda>x y. fst y \<le> fst x) ?ys"
    using sorted_sort_key [of fst xs] by (simp add: sorted_wrt_rev sorted_map)
  show ?thesis
  proof (cases "find (\<lambda>(v, _). v \<le> olderThan) ?ys")
    case None
    then have "\<forall>x \<in> set ?ys. \<not> fst x \<le> olderThan" unfolding find_None_iff by force
    then have "visible_version m sch pk olderThan = None" unfolding visible_version_None V by blast
    then show ?thesis using None by (simp add: vacuum_victims_def vacuumed_def)
  next
    case (Some e)
    note f = find_first [OF s Some]
    then obtain v0 d0 where e: "e = (v0, row_key sch pk v0, d0)" "m (row_key sch pk v0) = Some d0" using assms by auto
    have vv: "visible_version m sch pk olderThan = Some v0"
    proof (rule visible_version_eq)
      show "v0 \<in> version_set m sch pk" using e(2) by (auto simp: version_set_def)
      show "v0 \<le> olderThan" using f e(1) by simp
      show "w \<le> v0" if "w \<in> version_set m sch pk" "w \<le> olderThan" for w using that f e(1) V by auto
    qed
    have newer: "list_ex (\<lambda>(v, _). v > olderThan) ?ys \<longleftrightarrow> \<not> (\<forall>w \<in> version_set m sch pk. w \<le> olderThan)"
      unfolding V by (auto simp: list_ex_iff case_prod_beta not_le)
    have "set (vacuum_victims olderThan xs) = {row_key sch pk v | v. v \<in> version_set m sch pk \<and> v \<le> olderThan \<and>
      (is_tomb d0 \<and> (\<forall>w \<in> version_set m sch pk. w \<le> olderThan) \<or> \<not> is_tomb d0 \<and> v < v0)}"
      unfolding vacuum_victims_def Let_def Some e(1) option.case prod.case newer is_tomb_def [symmetric]
      by (subst filtered_keys [OF assms]) (auto simp: not_less)
    then show ?thesis using vv e(2) by (auto simp: vacuumed_def)
  qed
qed

context kv_store
begin

lemma vacuum_removes:
  assumes "rep n s m" "rows_only schemas m" "sch \<in> set schemas"
  shows "\<exists>s'. table_Vacuum kv None sch olderThan s = Some (s', Inr ()) \<and> rep n s' (vacuum_map m sch olderThan)"
proof -
  obtain es where es: "kvs_Scan kv None (fst (table_bounds sch)) (snd (table_bounds sch)) s = Some (Inr es)"
    and tv: "table_versions m sch (entry_versions sch es)" using scan_table [OF assms] .
  let ?xs = "entry_versions sch es" and ?gs = "vacuum_groups (entry_versions sch es) []"
  let ?ks = "concat (map (\<lambda>(_, versions). vacuum_victims olderThan versions) ?gs)"
  have "distinct (map fst ?gs)" by (rule vacuum_groups_distinct) simp
  then have g: "(p, ys) \<in> set ?gs \<longleftrightarrow> ys \<noteq> [] \<and> ys = filter (\<lambda>(v, k, d). extractPKPrefix k = p) ?xs" for p ys
    by (subst map_of_eq_Some_iff [symmetric]) (auto simp: vacuum_groups_map joined_def)
  have "set ?ks = {row_key sch pk v | pk v. plain_pk sch pk \<and> v \<in> vacuumed m sch pk olderThan}" (is "_ = ?R")
  proof (intro set_eqI iffI)
    fix k assume "k \<in> set ?ks"
    then obtain p ys where y: "(p, ys) \<in> set ?gs" "k \<in> set (vacuum_victims olderThan ys)" by auto
    then obtain x where "x \<in> set ys" using g [of p ys] by (cases ys) auto
    then have x: "x \<in> set ?xs" "extractPKPrefix (fst (snd x)) = p" using y g [of p ys] by auto
    then obtain pk where "plain_pk sch pk" "p = row_prefix sch pk" using tv by (auto simp: table_versions_def)
    then show "k \<in> ?R" using y g [of p ys] victims_set [OF versions_with_prefix [OF tv]] by auto
  next
    fix k assume "k \<in> ?R"
    then obtain pk v where k: "k = row_key sch pk v" "plain_pk sch pk" "v \<in> vacuumed m sch pk olderThan" by blast
    let ?ys = "filter (\<lambda>(v, k, d). extractPKPrefix k = row_prefix sch pk) ?xs"
    have v: "k \<in> set (vacuum_victims olderThan ?ys)" using k victims_set [OF versions_with_prefix [OF tv k(2)]] by auto
    then have "?ys \<noteq> []" by (auto simp: vacuum_victims_def)
    then have "(row_prefix sch pk, ?ys) \<in> set ?gs" using g by blast
    then show "k \<in> set ?ks" using v by force
  qed
  then show ?thesis
    using delete_all_ok [OF assms(1), of ?ks] es by (auto simp: table_Vacuum_def vacuum_map_def Let_def split: prod.splits)
qed

end

text \<open>Readers from the bound on see the same rows.\<close>

lemma visible_row_cong:
  "(\<And>v. m' (row_key sch pk v) = m (row_key sch pk v)) \<Longrightarrow> visible_row m' sch pk tx = visible_row m sch pk tx"
proof -
  assume a: "\<And>v. m' (row_key sch pk v) = m (row_key sch pk v)"
  then have "version_set m' sch pk = version_set m sch pk" by (simp add: version_set_def dom_def)
  then have "visible_version m' sch pk tx = visible_version m sch pk tx" by (simp only: visible_version_def)
  then show ?thesis by (simp add: visible_row_def a split: option.split)
qed

lemma rows_only_at:
  assumes "rows_only schemas m" "sch \<in> set schemas" "plain_pk sch pk" "m (row_key sch pk v) = Some d"
  shows "v \<noteq> 0 \<and> (\<exists>r. stored sch r d)"
proof -
  obtain sch' pk' v' r where r: "sch' \<in> set schemas" "plain_pk sch' pk'" "v' \<noteq> 0" "row_key sch pk v = row_key sch' pk' v'" "stored sch' r d"
    using assms(1,4) unfolding rows_only_def by blast
  have "sch = sch' \<and> v = v'"
    using iffD1 [OF row_key_inject [OF assms(3) r(2) same_table [OF assms(1,2) r(1)]] r(4)] by blast
  then show ?thesis using r(3,5) by blast
qed

lemma tombstone_not_found: "stored sch r d \<Longrightarrow> is_tomb d \<Longrightarrow> row_of sch d = Inl ErrRowNotFound"
  using decoded_tombstone stored_Some row_of_stored by (cases r) (fastforce simp: is_tomb_def)+

lemma vacuum_map_at:
  assumes "rows_only schemas m" "sch \<in> set schemas" "sch' \<in> set schemas" "plain_pk sch' pk"
  shows "vacuum_map m sch b (row_key sch' pk v) = (if sch' = sch \<and> v \<in> vacuumed m sch pk b then None else m (row_key sch' pk v))"
proof -
  have "row_key sch' pk v \<in> {row_key sch pk v | pk v. plain_pk sch pk \<and> v \<in> vacuumed m sch pk b}
    \<longleftrightarrow> sch' = sch \<and> v \<in> vacuumed m sch pk b"
    unfolding mem_Collect_eq using row_key_inject [OF assms(4)] same_table [OF assms(1,3,2)] assms(4) by metis
  then show ?thesis by (simp add: vacuum_map_def restrict_map_def del: mem_Collect_eq)
qed

lemma vacuum_visible:
  assumes "rows_only schemas m" "sch \<in> set schemas" "sch' \<in> set schemas" "plain_pk sch' pk" "olderThan \<le> tx"
  shows "visible_row (vacuum_map m sch olderThan) sch' pk tx = visible_row m sch' pk tx"
proof (cases "sch' = sch")
  case False
  then show ?thesis using vacuum_map_at [OF assms(1-4)] by (intro visible_row_cong) simp
next
  case True
  let ?m = "vacuum_map m sch olderThan" and ?R = "vacuumed m sch pk olderThan"
  have at: "?m (row_key sch pk v) = (if v \<in> ?R then None else m (row_key sch pk v))" for v
    using vacuum_map_at [OF assms(1-4)] True by simp
  then have V: "version_set ?m sch pk = version_set m sch pk - ?R" by (auto simp: version_set_def split: if_splits)
  show ?thesis
  proof (cases "visible_version m sch pk tx")
    case None
    then have "visible_version ?m sch pk tx = None" using V by (auto simp: visible_version_None)
    then show ?thesis using None True by (simp add: visible_row_def)
  next
    case (Some v1)
    note v1 = visible_version_Some [OF Some]
    show ?thesis
    proof (cases "v1 \<in> ?R")
      case False
      then have "visible_version ?m sch pk tx = Some v1" using v1 V by (intro visible_version_eq) auto
      then show ?thesis using Some True at False by (simp add: visible_row_def)
    next
      case R: True
      then obtain v0 where v0: "visible_version m sch pk olderThan = Some v0" "v1 \<le> olderThan"
        by (auto simp: vacuumed_def split: option.splits)
      have "v0 = v1" using visible_version_Some [OF v0(1)] v1 v0(2) assms(5) by (meson order.antisym order_trans)
      then have t: "is_tomb (the (m (row_key sch pk v1)))" "\<forall>w \<in> version_set m sch pk. w \<le> olderThan"
        using R v0 by (auto simp: vacuumed_def split: if_splits)
      then have "?R = version_set m sch pk" using v0 \<open>v0 = v1\<close> by (auto simp: vacuumed_def)
      then have "visible_version ?m sch pk tx = None" using V by (simp add: visible_version_None)
      moreover obtain d where d: "m (row_key sch pk v1) = Some d" using v1 by (auto simp: version_set_def)
      moreover obtain r where "stored sch r d" using rows_only_at [OF assms(1,2) _ d] True assms(4) by blast
      ultimately show ?thesis using Some True t(1) tombstone_not_found by (simp add: visible_row_def)
    qed
  qed
qed

end
