(* ===== verification/Heap_Refine.thy ===== *)
theory Heap_Refine
  imports Heap_Scan
begin

text \<open>
  The tables refine a multi-version specification: for every table and primary key a list of
  versions, newest first, each holding a row or a tombstone.  Reads return the first version that is
  not above the transaction.  The properties of the heap are stated on tables that share a tree
  store.
\<close>

section \<open>Specification\<close>

datatype table_op =
    TInsert Schema u64 "any list"
  | TUpdate Schema u64 "any list" "any list"
  | TDelete Schema u64 "any list"
  | TGet Schema u64 "any list"
  | TVacuum Schema u64

datatype table_resp = TDone "heap_err + unit" | TRow "heap_err + any list"

type_synonym versions = "(u64 \<times> any list option) list"
type_synonym history = "Schema \<Rightarrow> any list \<Rightarrow> versions"

definition seen :: "u64 \<Rightarrow> versions \<Rightarrow> any list option" where
  "seen tx vers = (case filter (\<lambda>(v, _). v \<le> tx) vers of [] \<Rightarrow> None | (_, r) # _ \<Rightarrow> r)"

definition conflict :: "u64 \<Rightarrow> versions \<Rightarrow> bool" where
  "conflict tx vers \<longleftrightarrow> vers \<noteq> [] \<and> tx \<le> fst (hd vers)"

definition put_version :: "Schema \<Rightarrow> any list \<Rightarrow> u64 \<Rightarrow> any list option \<Rightarrow> history \<Rightarrow> history" where
  "put_version sch pk tx r h = h(sch := (h sch)(pk := (tx, r) # h sch pk))"

definition vacuum_versions :: "u64 \<Rightarrow> versions \<Rightarrow> versions" where
  "vacuum_versions b vers = (let new = filter (\<lambda>(v, _). \<not> v \<le> b) vers in
     case filter (\<lambda>(v, _). v \<le> b) vers of
       [] \<Rightarrow> new
     | (v, Some xs) # _ \<Rightarrow> new @ [(v, Some xs)]
     | (v, None) # _ \<Rightarrow> if new = [] then [] else vers)"

definition pk_of :: "Schema \<Rightarrow> any list \<Rightarrow> any list" where
  "pk_of sch xs = map (\<lambda>idx. xs ! nat idx) (PKIndices sch)"

fun table_spec :: "table_op \<Rightarrow> history \<Rightarrow> history \<times> table_resp" where
  "table_spec (TInsert sch tx xs) h =
     (if length xs \<noteq> length (Columns sch) then (h, TDone (Inl ErrColumnCountMismatch))
      else if tx = 0 then (h, TDone (Inl ErrInvalidTx))
      else if conflict tx (h sch (pk_of sch xs)) then (h, TDone (Inl ErrTxConflict))
      else if seen tx (h sch (pk_of sch xs)) \<noteq> None then (h, TDone (Inl ErrDuplicateKey))
      else (put_version sch (pk_of sch xs) tx (Some xs) h, TDone (Inr ())))"
| "table_spec (TUpdate sch tx pk xs) h =
     (if length xs \<noteq> length (Columns sch) then (h, TDone (Inl ErrColumnCountMismatch))
      else if tx = 0 then (h, TDone (Inl ErrInvalidTx))
      else if conflict tx (h sch pk) then (h, TDone (Inl ErrTxConflict))
      else if seen tx (h sch pk) = None then (h, TDone (Inl ErrRowNotFound))
      else if pk_of sch xs \<noteq> pk then (h, TDone (Inl ErrPrimaryKeyUpdate))
      else (put_version sch pk tx (Some xs) h, TDone (Inr ())))"
| "table_spec (TDelete sch tx pk) h =
     (if tx = 0 then (h, TDone (Inl ErrInvalidTx))
      else if conflict tx (h sch pk) then (h, TDone (Inl ErrTxConflict))
      else if seen tx (h sch pk) = None then (h, TDone (Inl ErrRowNotFound))
      else (put_version sch pk tx None h, TDone (Inr ())))"
| "table_spec (TGet sch tx pk) h =
     (h, TRow (case seen tx (h sch pk) of None \<Rightarrow> Inl ErrRowNotFound | Some xs \<Rightarrow> Inr xs))"
| "table_spec (TVacuum sch b) h = (h(sch := vacuum_versions b \<circ> h sch), TDone (Inr ()))"

text \<open>The same operations on the code.\<close>

fun table_exec :: "table_op \<Rightarrow> btreeStore \<Rightarrow> (btreeStore \<times> table_resp) option" where
  "table_exec (TInsert sch tx xs) s = map_option (\<lambda>(s, r). (s, TDone r)) (table_Insert btreeKV None sch tx xs s)"
| "table_exec (TUpdate sch tx pk xs) s = map_option (\<lambda>(s, r). (s, TDone r)) (table_Update btreeKV None sch tx pk xs s)"
| "table_exec (TDelete sch tx pk) s = map_option (\<lambda>(s, r). (s, TDone r)) (table_Delete btreeKV None sch tx pk s)"
| "table_exec (TGet sch tx pk) s = map_option (\<lambda>r. (s, TRow r)) (table_Get btreeKV None sch tx pk s)"
| "table_exec (TVacuum sch b) s = map_option (\<lambda>(s, r). (s, TDone r)) (table_Vacuum btreeKV None sch b s)"

text \<open>Operations on the given tables, with number or string primary keys of at most 46 bytes and rows
  that encode to at most 512 bytes.\<close>

definition pk_fits :: "Schema \<Rightarrow> any list \<Rightarrow> bool" where
  "pk_fits sch pk \<longleftrightarrow> plain_pk sch pk \<and> length (concat (map pk_bytes pk)) \<le> 46"

definition row_fits :: "Schema \<Rightarrow> any list \<Rightarrow> bool" where
  "row_fits sch xs \<longleftrightarrow> (case encodeEnterpriseValue sch (Some xs) FlagNormal of Inl _ \<Rightarrow> False | Inr d \<Rightarrow> length d \<le> 512)
     \<and> list_all (\<lambda>x. length (any_raw x) < 2 ^ 32) xs"

fun table_admissible :: "Schema list \<Rightarrow> table_op \<Rightarrow> bool" where
  "table_admissible schemas (TInsert sch tx xs) \<longleftrightarrow> sch \<in> set schemas
     \<and> (length xs = length (Columns sch) \<longrightarrow> pk_fits sch (pk_of sch xs) \<and> row_fits sch xs)"
| "table_admissible schemas (TUpdate sch tx pk xs) \<longleftrightarrow> sch \<in> set schemas
     \<and> (length xs = length (Columns sch) \<longrightarrow> pk_fits sch pk \<and> row_fits sch xs)"
| "table_admissible schemas (TDelete sch tx pk) \<longleftrightarrow> sch \<in> set schemas \<and> pk_fits sch pk \<and> length (Columns sch) \<le> 4000"
| "table_admissible schemas (TGet sch tx pk) \<longleftrightarrow> sch \<in> set schemas \<and> plain_pk sch pk"
| "table_admissible schemas (TVacuum sch b) \<longleftrightarrow> sch \<in> set schemas"

section \<open>The abstraction\<close>

definition mv_rel :: "Schema list \<Rightarrow> (bytes \<rightharpoonup> bytes) \<Rightarrow> history \<Rightarrow> bool" where
  "mv_rel schemas m h \<longleftrightarrow> distinct (map TableID schemas)
     \<and> (\<forall>sch pk. h sch pk \<noteq> [] \<longrightarrow> sch \<in> set schemas \<and> plain_pk sch pk)
     \<and> (\<forall>sch pk. sorted_wrt (\<lambda>x y. fst y < fst x) (h sch pk) \<and> 0 \<notin> fst ` set (h sch pk))
     \<and> (\<forall>sch pk v r. (v, r) \<in> set (h sch pk) \<longrightarrow> (\<exists>d. m (row_key sch pk v) = Some d \<and> stored sch r d))
     \<and> (\<forall>k \<in> dom m. \<exists>sch pk v r. (v, r) \<in> set (h sch pk) \<and> k = row_key sch pk v)"

lemma mv_in:
  assumes "mv_rel schemas m h" "(v, r) \<in> set (h sch pk)"
  shows "sch \<in> set schemas" "plain_pk sch pk" "v \<noteq> 0" "\<exists>d. m (row_key sch pk v) = Some d \<and> stored sch r d"
proof -
  have "h sch pk \<noteq> []" using assms(2) by auto
  then show "sch \<in> set schemas" "plain_pk sch pk" using assms(1) unfolding mv_rel_def by blast+
  show "v \<noteq> 0" using assms unfolding mv_rel_def by (metis fst_conv image_eqI)
  show "\<exists>d. m (row_key sch pk v) = Some d \<and> stored sch r d" using assms unfolding mv_rel_def by blast
qed

lemma mv_rows: "mv_rel schemas m h \<Longrightarrow> rows_only schemas m"
  unfolding rows_only_def
proof (intro conjI allI impI)
  fix k d assume a: "mv_rel schemas m h" "m k = Some d"
  then obtain sch pk v r where k: "(v, r) \<in> set (h sch pk)" "k = row_key sch pk v" unfolding mv_rel_def by blast
  then have "sch \<in> set schemas" "plain_pk sch pk" "v \<noteq> 0" "stored sch r d" using mv_in [OF a(1) k(1)] a(2) by auto
  then show "\<exists>sch \<in> set schemas. \<exists>pk v r. plain_pk sch pk \<and> v \<noteq> 0 \<and> k = row_key sch pk v \<and> stored sch r d" using k by blast
qed (simp add: mv_rel_def)

lemma mv_at:
  assumes "mv_rel schemas m h" "sch \<in> set schemas" "plain_pk sch pk" "m (row_key sch pk v) = Some d"
  shows "\<exists>r. (v, r) \<in> set (h sch pk) \<and> stored sch r d"
proof -
  obtain sch' pk' v' r where k: "(v', r) \<in> set (h sch' pk')" "row_key sch pk v = row_key sch' pk' v'"
    using assms(1,4) unfolding mv_rel_def by blast
  then have p: "sch' \<in> set schemas" "plain_pk sch' pk'" using mv_in [OF assms(1) k(1)] by blast+
  have "sch = sch' \<and> pk = pk' \<and> v = v'"
    using iffD1 [OF row_key_inject [OF assms(3) p(2) same_table [OF mv_rows [OF assms(1)] assms(2) p(1)]] k(2)] .
  moreover obtain d' where "m (row_key sch' pk' v') = Some d'" "stored sch' r d'" using assms(1) k(1) unfolding mv_rel_def by blast
  ultimately show ?thesis using k assms(4) by auto
qed

lemma mv_versions: "mv_rel schemas m h \<Longrightarrow> sch \<in> set schemas \<Longrightarrow> plain_pk sch pk \<Longrightarrow> version_set m sch pk = fst ` set (h sch pk)"
proof (intro set_eqI iffI)
  fix v assume "mv_rel schemas m h" "sch \<in> set schemas" "plain_pk sch pk" "v \<in> version_set m sch pk"
  then show "v \<in> fst ` set (h sch pk)" using mv_at [of schemas m h sch pk v] by (force simp: version_set_def)
next
  fix v assume "mv_rel schemas m h" "v \<in> fst ` set (h sch pk)"
  then show "v \<in> version_set m sch pk" unfolding mv_rel_def version_set_def by fastforce
qed

lemma mv_visible_version:
  assumes "mv_rel schemas m h" "sch \<in> set schemas" "plain_pk sch pk"
  shows "visible_version m sch pk tx = (case filter (\<lambda>(v, _). v \<le> tx) (h sch pk) of [] \<Rightarrow> None | (v, _) # _ \<Rightarrow> Some v)"
proof -
  let ?f = "filter (\<lambda>(v, _). v \<le> tx) (h sch pk)"
  have V: "version_set m sch pk = fst ` set (h sch pk)" using mv_versions [OF assms] .
  have "sorted_wrt (\<lambda>x y. fst y < fst x) ?f" using assms(1) by (auto simp: mv_rel_def intro: sorted_wrt_filter)
  moreover have F: "set ?f = {x \<in> set (h sch pk). fst x \<le> tx}" by auto
  ultimately show ?thesis
  proof (cases ?f)
    case Nil
    then have "\<forall>w \<in> version_set m sch pk. \<not> w \<le> tx" using V F by auto
    then show ?thesis using Nil visible_version_None [of m sch pk tx] by simp
  next
    case (Cons x xs)
    have x: "x \<in> set (h sch pk)" "fst x \<le> tx" using Cons F by auto
    have "visible_version m sch pk tx = Some (fst x)"
    proof (rule visible_version_eq)
      show "fst x \<in> version_set m sch pk" using x V by blast
      show "w \<le> fst x" if w: "w \<in> version_set m sch pk" "w \<le> tx" for w
      proof -
        obtain y where y: "y \<in> set (h sch pk)" "w = fst y" using w(1) V by blast
        then have "y \<in> set ?f" using F w(2) by blast
        then show ?thesis using \<open>sorted_wrt _ ?f\<close> Cons y(2) by auto
      qed
    qed (use x in simp)
    then show ?thesis using Cons by (cases x) simp
  qed
qed

lemma mv_visible:
  assumes "mv_rel schemas m h" "sch \<in> set schemas" "plain_pk sch pk"
  shows "visible_row m sch pk tx = (case seen tx (h sch pk) of None \<Rightarrow> Inl ErrRowNotFound | Some xs \<Rightarrow> Inr xs)"
proof (cases "filter (\<lambda>(v, _). v \<le> tx) (h sch pk)")
  case Nil
  then show ?thesis using mv_visible_version [OF assms, of tx] by (simp add: visible_row_def seen_def)
next
  case (Cons x xs)
  obtain v r where x: "x = (v, r)" by (cases x)
  have "x \<in> set (h sch pk)" using Cons by (metis filter_is_subset list.set_intros(1) subsetD)
  then obtain d where "m (row_key sch pk v) = Some d" "stored sch r d" using assms(1) x unfolding mv_rel_def by blast
  then show ?thesis using mv_visible_version [OF assms, of tx] Cons x row_of_stored [of sch r d] by (simp add: visible_row_def seen_def)
qed

lemma mv_conflict:
  assumes "mv_rel schemas m h" "sch \<in> set schemas" "plain_pk sch pk"
  shows "(\<exists>v \<in> version_set m sch pk. tx \<le> v) \<longleftrightarrow> conflict tx (h sch pk)"
proof (cases "h sch pk")
  case Nil
  then show ?thesis using mv_versions [OF assms] by (simp add: conflict_def)
next
  case (Cons x xs)
  moreover have "sorted_wrt (\<lambda>x y. fst y < fst x) (h sch pk)" using assms(1) by (simp add: mv_rel_def)
  ultimately have "\<forall>y \<in> set xs. fst y < fst x" by simp
  then show ?thesis using mv_versions [OF assms] Cons by (force simp: conflict_def)
qed

lemma mv_put:
  assumes "mv_rel schemas m h" "sch \<in> set schemas" "plain_pk sch pk" "tx \<noteq> 0" "\<not> conflict tx (h sch pk)" "stored sch r d"
  shows "mv_rel schemas (m(row_key sch pk tx \<mapsto> d)) (put_version sch pk tx r h)"
proof -
  let ?m = "m(row_key sch pk tx \<mapsto> d)" and ?h = "put_version sch pk tx r h"
  have h: "?h sch' pk' = (if sch' = sch \<and> pk' = pk then (tx, r) # h sch pk else h sch' pk')" for sch' pk'
    by (simp add: put_version_def)
  have new: "\<forall>x \<in> set (h sch pk). fst x < tx"
    using mv_conflict [OF assms(1-3), of tx] mv_versions [OF assms(1-3)] assms(5) by force
  have other: "row_key sch' pk' v \<noteq> row_key sch pk tx" if "(v, r') \<in> set (h sch' pk')" for sch' pk' v r'
  proof
    assume e: "row_key sch' pk' v = row_key sch pk tx"
    have p: "sch' \<in> set schemas" "plain_pk sch' pk'" using mv_in [OF assms(1) that] by blast+
    have "sch' = sch \<and> pk' = pk \<and> v = tx"
      using iffD1 [OF row_key_inject [OF p(2) assms(3) same_table [OF mv_rows [OF assms(1)] p(1) assms(2)]] e] .
    then show False using new that by force
  qed
  show ?thesis
    unfolding mv_rel_def
  proof (intro conjI allI impI ballI)
    show "distinct (map TableID schemas)" using assms(1) by (simp add: mv_rel_def)
  next
    fix sch' pk' assume "?h sch' pk' \<noteq> []"
    then show "sch' \<in> set schemas" "plain_pk sch' pk'" using assms(1-3) unfolding h mv_rel_def by (auto split: if_splits)
  next
    fix sch' pk'
    have o: "sorted_wrt (\<lambda>x y. fst y < fst x) (h sch' pk')" "0 \<notin> fst ` set (h sch' pk')" using assms(1) by (auto simp: mv_rel_def)
    show "sorted_wrt (\<lambda>x y. fst y < fst x) (?h sch' pk')" using o(1) new unfolding h by auto
    show "0 \<notin> fst ` set (?h sch' pk')" using o(2) assms(4) unfolding h by auto
  next
    fix sch' pk' v r' assume "(v, r') \<in> set (?h sch' pk')"
    then consider "(v, r') \<in> set (h sch' pk')" | "v = tx" "r' = r" "sch' = sch" "pk' = pk" unfolding h by (auto split: if_splits)
    then show "\<exists>d'. ?m (row_key sch' pk' v) = Some d' \<and> stored sch' r' d'"
    proof cases
      case 1
      then show ?thesis using other [OF 1] assms(1) unfolding mv_rel_def by fastforce
    qed (use assms(6) in simp)
  next
    fix k assume "k \<in> dom ?m"
    then consider "k = row_key sch pk tx" | "k \<in> dom m" by auto
    then show "\<exists>sch' pk' v r'. (v, r') \<in> set (?h sch' pk') \<and> k = row_key sch' pk' v"
    proof cases
      case 1
      then show ?thesis by (intro exI [of _ sch] exI [of _ pk] exI [of _ tx] exI [of _ r]) (simp add: h)
    next
      case 2
      then obtain sch' pk' v r' where "(v, r') \<in> set (h sch' pk')" "k = row_key sch' pk' v" using assms(1) unfolding mv_rel_def by blast
      then show ?thesis by (intro exI [of _ sch'] exI [of _ pk'] exI [of _ v] exI [of _ r']) (auto simp: h)
    qed
  qed
qed

lemma kept_versions:
  assumes "sorted_wrt (\<lambda>x y. fst y < fst x) vers" "filter (\<lambda>(v, _). v \<le> b) vers = (v0, r0) # old"
  shows "set (vacuum_versions b vers) = {(v, r) \<in> set vers. \<not> (v \<le> b \<and> (if r0 = None then \<forall>x \<in> set vers. fst x \<le> b else v < v0))}"
proof -
  have "sorted_wrt (\<lambda>x y. fst y < fst x) ((v0, r0) # old)" using assms sorted_wrt_filter by metis
  then have o: "\<forall>x \<in> set old. fst x < v0" by simp
  have S: "{x \<in> set vers. fst x \<le> b} = insert (v0, r0) (set old)"
    using arg_cong [OF assms(2), of set] by (auto simp: case_prod_beta)
  have "filter (\<lambda>(v, _). \<not> v \<le> b) vers = [] \<longleftrightarrow> (\<forall>x \<in> set vers. fst x \<le> b)" by (auto simp: filter_empty_conv)
  then show ?thesis
  proof (cases r0)
    case None
    then show ?thesis using assms(2) \<open>_ \<longleftrightarrow> _\<close> by (auto simp: vacuum_versions_def Let_def)
  next
    case (Some xs)
    then have "set (vacuum_versions b vers) = {x \<in> set vers. \<not> fst x \<le> b} \<union> {(v0, r0)}"
      using assms(2) by (auto simp: vacuum_versions_def Let_def)
    also have "\<dots> = {x \<in> set vers. \<not> (fst x \<le> b \<and> fst x < v0)}" using S o by auto
    also have "\<dots> = {(v, r) \<in> set vers. \<not> (v \<le> b \<and> v < v0)}" by auto
    finally show ?thesis using Some by simp
  qed
qed

lemma vacuum_versions_sorted:
  assumes "sorted_wrt (\<lambda>x y. fst y < fst x) vers"
  shows "sorted_wrt (\<lambda>x y. fst y < fst x) (vacuum_versions b vers)"
proof -
  have "sorted_wrt (\<lambda>x y. fst y < fst x) (filter (\<lambda>(v, _). \<not> v \<le> b) vers)" using assms sorted_wrt_filter by blast
  moreover have "v0 < fst x" if "filter (\<lambda>(v, _). v \<le> b) vers = (v0, r0) # old" "x \<in> set vers" "\<not> fst x \<le> b" for v0 r0 old x
  proof -
    have "(v0, r0) \<in> set (filter (\<lambda>(v, _). v \<le> b) vers)" using that(1) by simp
    then have "v0 \<le> b" by simp
    then show ?thesis using that(3) by simp
  qed
  ultimately show ?thesis
    using assms by (auto simp: vacuum_versions_def Let_def sorted_wrt_append split: list.splits option.splits)
qed

lemma mv_vacuumed:
  assumes "mv_rel schemas m h" "sch \<in> set schemas" "plain_pk sch pk"
  shows "set (vacuum_versions b (h sch pk)) = {(v, r) \<in> set (h sch pk). v \<notin> vacuumed m sch pk b}"
proof (cases "filter (\<lambda>(v, _). v \<le> b) (h sch pk)")
  case Nil
  then have "\<forall>x \<in> set (h sch pk). \<not> fst x \<le> b" by (auto simp: filter_empty_conv)
  then show ?thesis
    using Nil mv_visible_version [OF assms, of b] by (auto simp: vacuumed_def vacuum_versions_def Let_def)
next
  case (Cons x old)
  obtain v0 r0 where x: "x = (v0, r0)" by (cases x)
  have "x \<in> set (filter (\<lambda>(v, _). v \<le> b) (h sch pk))" using Cons by simp
  then have "(v0, r0) \<in> set (h sch pk)" using x by simp
  then obtain d0 where d0: "m (row_key sch pk v0) = Some d0" "stored sch r0 d0" using mv_in(4) [OF assms(1)] by blast
  then have "is_tomb d0 \<longleftrightarrow> r0 = None"
    using decoded_tombstone [of sch d0] stored_Some [of sch _ d0] stored_None [of sch d0] by (cases r0) (auto simp: is_tomb_def)
  moreover have "sorted_wrt (\<lambda>x y. fst y < fst x) (h sch pk)" using assms(1) by (simp add: mv_rel_def)
  ultimately show ?thesis
    using kept_versions [OF _ Cons [unfolded x]] mv_visible_version [OF assms, of b] mv_versions [OF assms] Cons x d0(1)
    by (auto simp: vacuumed_def image_iff split: if_splits)
qed

lemma mv_vacuum:
  assumes r: "mv_rel schemas m h" and s: "sch \<in> set schemas"
  shows "mv_rel schemas (vacuum_map m sch b) (h(sch := vacuum_versions b \<circ> h sch))"
proof -
  let ?h = "h(sch := vacuum_versions b \<circ> h sch)"
  have h: "(v, x) \<in> set (?h sch' pk) \<longleftrightarrow> (v, x) \<in> set (h sch' pk) \<and> \<not> (sch' = sch \<and> v \<in> vacuumed m sch pk b)"
    if "sch' \<in> set schemas" "plain_pk sch' pk" for sch' pk v x
    using mv_vacuumed [OF r s, of pk b] that by auto
  have nil: "h sch' pk = [] \<Longrightarrow> ?h sch' pk = []" for sch' pk
    by (cases "sch' = sch") (simp_all add: vacuum_versions_def)
  have sub: "set (?h sch' pk) \<subseteq> set (h sch' pk)" for sch' pk
  proof (cases "h sch' pk = []")
    case False
    then have p: "sch' \<in> set schemas" "plain_pk sch' pk" using r unfolding mv_rel_def by blast+
    show ?thesis using h [OF p] by (intro subrelI) blast
  qed (use nil in auto)
  show ?thesis
    unfolding mv_rel_def
  proof (intro conjI allI impI ballI)
    show "distinct (map TableID schemas)" using r by (simp add: mv_rel_def)
  next
    fix sch' pk assume "?h sch' pk \<noteq> []"
    then have "h sch' pk \<noteq> []" using nil by blast
    then show "sch' \<in> set schemas" "plain_pk sch' pk" using r unfolding mv_rel_def by blast+
  next
    fix sch' pk
    have o: "sorted_wrt (\<lambda>x y. fst y < fst x) (h sch' pk)" "0 \<notin> fst ` set (h sch' pk)" using r by (auto simp: mv_rel_def)
    show "sorted_wrt (\<lambda>x y. fst y < fst x) (?h sch' pk)" using o(1) vacuum_versions_sorted by auto
    show "0 \<notin> fst ` set (?h sch' pk)" using o(2) sub by blast
  next
    fix sch' pk v x assume a: "(v, x) \<in> set (?h sch' pk)"
    then have i: "(v, x) \<in> set (h sch' pk)" using sub by blast
    note i' = mv_in [OF r i]
    then show "\<exists>d. vacuum_map m sch b (row_key sch' pk v) = Some d \<and> stored sch' x d"
      using vacuum_map_at [OF mv_rows [OF r] s i'(1,2), of b v] h [OF i'(1,2)] a by auto
  next
    fix k assume "k \<in> dom (vacuum_map m sch b)"
    then have k: "k \<in> dom m" "vacuum_map m sch b k \<noteq> None" by (auto simp: vacuum_map_def restrict_map_def split: if_splits)
    then obtain sch' pk v x where x: "(v, x) \<in> set (h sch' pk)" "k = row_key sch' pk v" using r unfolding mv_rel_def by blast
    note i' = mv_in [OF r x(1)]
    have "(v, x) \<in> set (?h sch' pk)"
      using vacuum_map_at [OF mv_rows [OF r] s i'(1,2), of b v] h [OF i'(1,2)] x k(2) by (auto split: if_splits)
    then show "\<exists>sch' pk v x. (v, x) \<in> set (?h sch' pk) \<and> k = row_key sch' pk v" using x(2) by blast
  qed
qed

section \<open>Refinement\<close>

lemma valueEqual_refl: "pk_col kind v \<Longrightarrow> valueEqual v w \<longleftrightarrow> v = w"
  by (cases v; cases w) (auto simp: valueEqual_def pk_col_def)

lemma comparePK_iff:
  assumes "list_all2 pk_col kinds pk" "length idxs = length pk" "\<forall>idx \<in> set idxs. nat idx < length xs"
  shows "comparePK idxs pk xs \<longleftrightarrow> pk = map (\<lambda>idx. xs ! nat idx) idxs"
  using assms
proof (induction kinds pk arbitrary: idxs rule: list_all2_induct)
  case (Cons kind kinds v pk)
  then obtain idx js where i: "idxs = idx # js" by (cases idxs) auto
  then have "\<not> idx \<ge> int (length xs)" using Cons.prems(2) by auto
  then show ?case using Cons.IH [of js] Cons.prems i valueEqual_refl [OF Cons.hyps(1)] by auto
qed simp

lemma row_fits_stored:
  assumes "row_fits sch xs"
  obtains d where "stored sch (Some xs) d" "encodeEnterpriseValue sch (Some xs) FlagNormal = Inr d" "length d \<le> 512"
  using assms by (auto simp: row_fits_def stored_def list_all_iff split: sum.splits)

lemma tombstone_stored:
  assumes "length (Columns sch) \<le> 4000"
  obtains d where "stored sch None d" "encodeEnterpriseValue sch None FlagTombstone = Inr d" "length d \<le> 512"
  using encode_tombstone [of sch] assms by (auto simp: stored_def bitmaskLen_def)

lemma pk_fits_key: "pk_fits sch pk \<Longrightarrow> plain_pk sch pk \<and> length (row_key sch pk v) \<le> 63"
  by (auto simp: pk_fits_def row_key_def row_prefix_def)

definition tables_rel :: "Schema list \<Rightarrow> nat \<Rightarrow> btreeStore \<Rightarrow> history \<Rightarrow> bool" where
  "tables_rel schemas n s h \<longleftrightarrow> (\<exists>m. tree_holds n s m \<and> mv_rel schemas m h) \<and> (\<forall>sch \<in> set schemas. OpenTable sch = Inr sch)"

lemma tables_next: "tables_rel schemas (Suc n) s h \<Longrightarrow> tables_rel schemas n s h"
  unfolding tables_rel_def using btkv.budget_law by blast

lemma tables_write:
  assumes "tables_rel schemas (Suc n) s h" "sch \<in> set schemas" "pk_fits sch pk" "tx \<noteq> 0" "\<not> conflict tx (h sch pk)"
    and "stored sch r d" "encodeEnterpriseValue sch r flags = Inr d" "length d \<le> 512"
  shows "\<exists>s'. write_row btreeKV None sch r flags pk tx s = Some (s', Inr ()) \<and> tables_rel schemas n s' (put_version sch pk tx r h)"
proof -
  obtain m where m: "tree_holds (Suc n) s m" "mv_rel schemas m h" using assms(1) by (auto simp: tables_rel_def)
  have k: "plain_pk sch pk" "length (row_key sch pk tx) \<le> 63" using pk_fits_key [OF assms(3)] by blast+
  have "leaf_fits (row_key sch pk tx) d" using k(2) assms(8) by (simp add: leaf_fits_def)
  then obtain s' where "write_row btreeKV None sch r flags pk tx s = Some (s', Inr ())" "tree_holds n s' (m(row_key sch pk tx \<mapsto> d))"
    using btkv.write_row_ok [OF m(1) k(1) assms(7)] by blast
  then show ?thesis
    using mv_put [OF m(2) assms(2) k(1) assms(4-6)] assms(1) unfolding tables_rel_def by blast
qed

lemma tables_sim:
  assumes r: "tables_rel schemas (Suc n) s h" and a: "table_admissible schemas x"
  shows "\<exists>s'. table_exec x s = Some (s', snd (table_spec x h)) \<and> tables_rel schemas n s' (fst (table_spec x h))"
proof -
  obtain m where m: "tree_holds (Suc n) s m" "mv_rel schemas m h" using r by (auto simp: tables_rel_def)
  note keep = tables_next [OF r] and ro = mv_rows [OF m(2)]
  show ?thesis
  proof (cases x)
    case (TInsert sch tx xs)
    show ?thesis
    proof (cases "length xs = length (Columns sch)")
      case True
      let ?pk = "pk_of sch xs"
      have s: "sch \<in> set schemas" "pk_fits sch ?pk" "row_fits sch xs" using a TInsert True by auto
      have pk: "plain_pk sch ?pk" using pk_fits_key [OF s(2)] by blast
      obtain d where d: "stored sch (Some xs) d" "encodeEnterpriseValue sch (Some xs) FlagNormal = Inr d" "length d \<le> 512"
        using row_fits_stored [OF s(3)] .
      show ?thesis
        using btkv.insert_spec [OF m(1) ro s(1) True, of ?pk tx] pk mv_conflict [OF m(2) s(1) pk, of tx]
          mv_visible [OF m(2) s(1) pk, of tx] tables_write [OF r s(1,2) _ _ d, of tx] True TInsert keep
        by (auto simp: pk_of_def [symmetric] split: option.splits)
    qed (use TInsert keep in \<open>simp add: table_Insert_def\<close>)
  next
    case (TUpdate sch tx pk xs)
    show ?thesis
    proof (cases "length xs = length (Columns sch)")
      case True
      have s: "sch \<in> set schemas" "pk_fits sch pk" "row_fits sch xs" using a TUpdate True by auto
      have pk: "plain_pk sch pk" using pk_fits_key [OF s(2)] by blast
      obtain d where d: "stored sch (Some xs) d" "encodeEnterpriseValue sch (Some xs) FlagNormal = Inr d" "length d \<le> 512"
        using row_fits_stored [OF s(3)] .
      have "OpenTable sch = Inr sch" using r s(1) by (simp add: tables_rel_def)
      then have "\<forall>idx \<in> set (PKIndices sch). nat idx < length xs"
        using True by (auto simp: OpenTable_def list_all_iff split: if_splits)
      moreover have "list_all2 pk_col (pkKinds sch) pk" using pk by (simp add: plain_pk_def)
      ultimately have c: "comparePK (PKIndices sch) pk xs \<longleftrightarrow> pk_of sch xs = pk"
        using comparePK_iff [of "pkKinds sch" pk "PKIndices sch" xs] by (auto simp: pk_of_def pkKinds_length dest: list_all2_lengthD)
      show ?thesis
        using btkv.update_spec [OF m(1) ro s(1) True pk, of tx] mv_conflict [OF m(2) s(1) pk, of tx]
          mv_visible [OF m(2) s(1) pk, of tx] tables_write [OF r s(1,2) _ _ d, of tx] True TUpdate keep c
        by (auto split: option.splits)
    qed (use TUpdate keep in \<open>simp add: table_Update_def\<close>)
  next
    case (TDelete sch tx pk)
    then have s: "sch \<in> set schemas" "pk_fits sch pk" "length (Columns sch) \<le> 4000" using a by auto
    have pk: "plain_pk sch pk" using pk_fits_key [OF s(2)] by blast
    obtain d where d: "stored sch None d" "encodeEnterpriseValue sch None FlagTombstone = Inr d" "length d \<le> 512"
      using tombstone_stored [OF s(3)] .
    show ?thesis
      using btkv.delete_spec [OF m(1) ro s(1) pk, of tx] mv_conflict [OF m(2) s(1) pk, of tx]
        mv_visible [OF m(2) s(1) pk, of tx] tables_write [OF r s(1,2) _ _ d, of tx] TDelete keep
      by (auto split: option.splits)
  next
    case (TGet sch tx pk)
    then have s: "sch \<in> set schemas" "plain_pk sch pk" using a by auto
    show ?thesis
      using btkv.get_visible [OF m(1) ro s, of tx] mv_visible [OF m(2) s, of tx] TGet keep by simp
  next
    case (TVacuum sch b)
    then have s: "sch \<in> set schemas" using a by auto
    have "tree_holds n s m" using m(1) btkv.budget_law by blast
    from btkv.vacuum_removes [OF this ro s, of b] mv_vacuum [OF m(2) s, of b] show ?thesis
      using r TVacuum by (auto simp: tables_rel_def)
  qed
qed

interpretation tabsim: simulation "tables_rel schemas" table_exec table_spec "table_admissible schemas" for schemas
  by unfold_locales (rule tables_sim)

lemma fresh_tables:
  assumes "distinct (map TableID schemas)" "\<forall>sch \<in> set schemas. OpenTable sch = Inr sch" "n \<le> 33554432"
  shows "tables_rel schemas n freshStore (\<lambda>_ _. [])"
proof -
  have "tree_holds n freshStore Map.empty" using fresh_rel [OF assms(3)] by (auto simp: tree_holds_def)
  then show ?thesis using assms(1,2) by (auto simp: tables_rel_def mv_rel_def)
qed

section \<open>Properties\<close>


definition demo_table :: Schema where
  "demo_table = \<lparr>TableID = 7, Columns = [\<lparr>ColName = [97], ColKind = KindUint64\<rparr>, \<lparr>ColName = [98], ColKind = KindString\<rparr>], PKIndices = [0]\<rparr>"

definition demo_ops :: "table_op list" where
  "demo_ops = [TInsert demo_table 5 [AUint64 1, AString [65]], TUpdate demo_table 8 [AUint64 1] [AUint64 1, ANil],
     TGet demo_table 7 [AUint64 1], TInsert demo_table 8 [AUint64 1, ANil], TDelete demo_table 9 [AUint64 1],
     TGet demo_table 8 [AUint64 1], TGet demo_table 9 [AUint64 1], TGet demo_table 4 [AUint64 1],
     TVacuum demo_table 9, TGet demo_table 7 [AUint64 1]]"

lemma demo_rows:
  "encodeEnterpriseValue demo_table (Some [AUint64 1, AString [65]]) FlagNormal
     = Inr [0, 0, 0, 0, 0, 8, 0, 0, 0, 0, 0, 0, 0, 1, 0, 0, 0, 1, 65]"
  "encodeEnterpriseValue demo_table (Some [AUint64 1, ANil]) FlagNormal
     = Inr [0, 2, 0, 0, 0, 8, 0, 0, 0, 0, 0, 0, 0, 1]"
  by code_simp+

lemma demo_fits:
  "row_fits demo_table [AUint64 1, AString [65]]" "row_fits demo_table [AUint64 1, ANil]" "pk_fits demo_table [AUint64 1]"
  "pk_of demo_table [AUint64 1, x] = [AUint64 1]" "length (Columns demo_table) = 2"
  unfolding row_fits_def demo_rows
  by (simp_all add: pk_fits_def plain_pk_def pkKinds_def pk_col_def pk_of_def demo_table_def)



lemma demo_store: "\<exists>s m. tree_holds 2 s m \<and> rows_only [demo_table] m
    \<and> visible_row m demo_table [AUint64 1] 9 = Inr [AUint64 1, AString [65]]"
proof -
  let ?x = "TInsert demo_table 5 [AUint64 1, AString [65]]" and ?pk = "[AUint64 1]"
  have o: "OpenTable demo_table = Inr demo_table" "plain_pk demo_table ?pk"
    by (code_simp, use pk_fits_key demo_fits(3) in blast)
  have "tables_rel [demo_table] 3 freshStore (\<lambda>_ _. [])" using fresh_tables [of "[demo_table]" 3] o(1) by simp
  moreover have "table_admissible [demo_table] ?x" by (simp add: demo_fits)
  ultimately obtain s where "tables_rel [demo_table] 2 s (fst (table_spec ?x (\<lambda>_ _. [])))"
    using tables_sim [of "[demo_table]" 2 freshStore "\<lambda>_ _. []" ?x] by auto
  then obtain m where m: "tree_holds 2 s m" "mv_rel [demo_table] m (fst (table_spec ?x (\<lambda>_ _. [])))" by (auto simp: tables_rel_def)
  have "seen 9 (fst (table_spec ?x (\<lambda>_ _. [])) demo_table ?pk) = Some [AUint64 1, AString [65]]" by code_simp
  then show ?thesis using m mv_rows [OF m(2)] mv_visible [OF m(2) _ o(2), of 9] by auto
qed




end
