(* ===== verification/Float64.thy ===== *)
theory Float64
  imports Prelude
begin

text \<open>
  The part of Go's numbers that the planner uses: \<open>float64\<close> values as their IEEE bit patterns, with
  comparison, addition, conversion from \<open>int64\<close> and the formats \<open>%d\<close> and \<open>%f\<close>.  Every finite
  \<open>float64\<close> is an integer multiple of 2^-1074, so the exact value is an integer, and an operation is
  that of the integers followed by rounding to the nearest, ties to even.
\<close>

section \<open>Values\<close>

definition f_neg :: "u64 \<Rightarrow> bool" where
  "f_neg x \<longleftrightarrow> bit x 63"

definition f_exp :: "u64 \<Rightarrow> nat" where
  "f_exp x = unat (drop_bit 52 x AND 0x7FF)"

definition f_frac :: "u64 \<Rightarrow> int" where
  "f_frac x = uint (x AND 0xFFFFFFFFFFFFF)"

definition f_nan :: "u64 \<Rightarrow> bool" where
  "f_nan x \<longleftrightarrow> f_exp x = 2047 \<and> f_frac x \<noteq> 0"

definition f_inf :: "u64 \<Rightarrow> bool" where
  "f_inf x \<longleftrightarrow> f_exp x = 2047 \<and> f_frac x = 0"

text \<open>The magnitude in units of 2^-1074; an infinity counts as 2^2098 units.\<close>

definition f_mag :: "u64 \<Rightarrow> int" where
  "f_mag x = (if f_exp x = 0 then f_frac x else (2 ^ 52 + f_frac x) * 2 ^ (f_exp x - 1))"

definition f_val :: "u64 \<Rightarrow> int" where
  "f_val x = (if f_neg x then - f_mag x else f_mag x)"

definition f_eq :: "u64 \<Rightarrow> u64 \<Rightarrow> bool" where
  "f_eq x y \<longleftrightarrow> \<not> f_nan x \<and> \<not> f_nan y \<and> f_val x = f_val y"

definition f_less :: "u64 \<Rightarrow> u64 \<Rightarrow> bool" where
  "f_less x y \<longleftrightarrow> \<not> f_nan x \<and> \<not> f_nan y \<and> f_val x < f_val y"

section \<open>Rounding\<close>

text \<open>Division rounded to the nearest integer, ties to even.\<close>

definition round_div :: "int \<Rightarrow> int \<Rightarrow> int" where
  "round_div n d = (let q = n div d; r = n mod d in
     if 2 * r > d \<or> 2 * r = d \<and> odd q then q + 1 else q)"

function bit_length :: "int \<Rightarrow> nat" where
  "bit_length n = (if n \<le> 0 then 0 else Suc (bit_length (n div 2)))"
  by auto
termination
  by (relation "measure nat") auto

declare bit_length.simps [simp del]

definition f_make :: "bool \<Rightarrow> nat \<Rightarrow> int \<Rightarrow> u64" where
  "f_make neg ex frac = (if neg then push_bit 63 1 else 0) OR push_bit 52 (word_of_nat ex) OR word_of_int frac"

definition f_round :: "bool \<Rightarrow> int \<Rightarrow> u64" where
  "f_round neg n =
     (if n < 2 ^ 52 then f_make neg 0 n
      else (let sh = bit_length n - 53; q = round_div n (2 ^ sh) in
        case (if q = 2 ^ 53 then (2 ^ 52, sh + 1) else (q, sh)) of (q, sh) \<Rightarrow>
        if sh + 1 \<ge> 2047 then f_make neg 2047 0 else f_make neg (sh + 1) (q - 2 ^ 52)))"

definition f_add :: "u64 \<Rightarrow> u64 \<Rightarrow> u64" where
  "f_add x y =
     (if f_nan x then x else if f_nan y then y
      else if f_inf x then (if f_inf y \<and> f_neg x \<noteq> f_neg y then f_make False 2047 1 else x)
      else if f_inf y then y
      else (let v = f_val x + f_val y in
        if v = 0 then f_round (f_neg x \<and> f_neg y) 0 else f_round (v < 0) \<bar>v\<bar>))"

definition f_of_int64 :: "u64 \<Rightarrow> u64" where
  "f_of_int64 x = f_round (sint x < 0) (\<bar>sint x\<bar> * 2 ^ 1074)"

section \<open>Formats\<close>

text \<open>The digits of a number that is not negative.\<close>

function dec_digits :: "int \<Rightarrow> bytes" where
  "dec_digits n = (if n < 10 then [48 + word_of_int n] else dec_digits (n div 10) @ [48 + word_of_int (n mod 10)])"
  by auto
termination
  by (relation "measure nat") auto

declare dec_digits.simps [simp del]

definition dec_int :: "int \<Rightarrow> bytes" where
  "dec_int i = (if i < 0 then 45 # dec_digits (- i) else dec_digits i)"

text \<open>\<open>%f\<close>: six digits after the point.\<close>

definition f_format :: "u64 \<Rightarrow> bytes" where
  "f_format x =
     (if f_nan x then [78, 97, 78]
      else if f_inf x then (if f_neg x then 45 else 43) # [73, 110, 102]
      else (let q = round_div (f_mag x * 1000000) (2 ^ 1074) in
        (if f_neg x then [45] else []) @ dec_digits (q div 1000000) @ [46] @ tl (dec_digits (1000000 + q mod 1000000))))"

end
