(* ===== verification/Planner_Expr.thy ===== *)
theory Planner_Expr
  imports Key Float64
begin

text \<open>
  Values, rows and schemas of \<open>engine/engine.go\<close> and the expression evaluator of
  \<open>sql/planner/binder.go\<close>.  A Go interface value holding one of the types allowed in a \<open>Datum\<close> is a
  \<open>gval\<close>; a \<open>float64\<close> is its 64-bit pattern.  A type assertion on a value of another type panics;
  panics and errors, the end of a stream included, are values of \<open>plan_err\<close>.
\<close>

section \<open>Data\<close>

datatype Type = TypeNull | TypeInt64 | TypeUint64 | TypeFloat64 | TypeBool | TypeString | TypeBytes

datatype gval = GNil | GInt64 i64 | GUint64 u64 | GFloat64 u64 | GBool bool | GString bytes | GBytes bytes

record Datum =
  DType :: Type
  DValue :: gval

record Row =
  Datums :: "Datum list"
  RowID :: u64

record EColumn =
  CName :: bytes
  CType :: Type
  CNotNull :: bool
  CDefault :: "Datum option"

type_synonym ESchema = "EColumn list"

definition no_row :: Row where
  "no_row = \<lparr>Datums = [], RowID = 0\<rparr>"

datatype plan_err =
    EOF | ErrPanic | ErrUnsupportedFeature | ErrTableHeapNotFound | ErrAmbiguousColumn | ErrColumnNotFound
  | ErrUnsupportedJoinKey | ErrColumnIndex | ErrUnsupportedOp | ErrNeedsBool | ErrHeap nat

section \<open>Row identifiers\<close>

datatype rowid_err = ErrMissingRowID | ErrRowIDOffsetOverflow | ErrRowIDGenerationOverflow

definition EncodeRowID :: "u64 \<Rightarrow> u64 \<Rightarrow> rowid_err + u64" where
  "EncodeRowID generation physicalOffset =
     (if generation > 0xFFFFFFFF then Inl ErrRowIDGenerationOverflow
      else if physicalOffset > 0xFFFFFFFF - 1 then Inl ErrRowIDOffsetOverflow
      else Inr (push_bit 32 generation OR (physicalOffset + 1)))"

definition DecodeRowID :: "u64 \<Rightarrow> rowid_err + u64 \<times> u64" where
  "DecodeRowID rowID =
     (let low = rowID AND 0xFFFFFFFF in
      if low = 0 then Inl ErrMissingRowID else Inr (drop_bit 32 rowID, low - 1))"

section \<open>Comparing values\<close>

definition datumEqual :: "Datum \<Rightarrow> Datum \<Rightarrow> plan_err + bool" where
  "datumEqual a b =
     (if DType a \<noteq> DType b then Inr False
      else (case DType a of
          TypeNull \<Rightarrow> Inr False
        | TypeInt64 \<Rightarrow> (case (DValue a, DValue b) of (GInt64 x, GInt64 y) \<Rightarrow> Inr (x = y) | _ \<Rightarrow> Inl ErrPanic)
        | TypeUint64 \<Rightarrow> (case (DValue a, DValue b) of (GUint64 x, GUint64 y) \<Rightarrow> Inr (x = y) | _ \<Rightarrow> Inl ErrPanic)
        | TypeFloat64 \<Rightarrow> (case (DValue a, DValue b) of (GFloat64 x, GFloat64 y) \<Rightarrow> Inr (f_eq x y) | _ \<Rightarrow> Inl ErrPanic)
        | TypeBool \<Rightarrow> (case (DValue a, DValue b) of (GBool x, GBool y) \<Rightarrow> Inr (x = y) | _ \<Rightarrow> Inl ErrPanic)
        | TypeString \<Rightarrow> (case (DValue a, DValue b) of (GString x, GString y) \<Rightarrow> Inr (x = y) | _ \<Rightarrow> Inl ErrPanic)
        | TypeBytes \<Rightarrow> (case (DValue a, DValue b) of (GBytes x, GBytes y) \<Rightarrow> Inr (x = y) | _ \<Rightarrow> Inl ErrPanic)))"

definition datumLess :: "Datum \<Rightarrow> Datum \<Rightarrow> plan_err + bool" where
  "datumLess a b =
     (case DType a of
        TypeInt64 \<Rightarrow> (case (DValue a, DValue b) of (GInt64 x, GInt64 y) \<Rightarrow> Inr (sint x < sint y) | _ \<Rightarrow> Inl ErrPanic)
      | TypeUint64 \<Rightarrow> (case (DValue a, DValue b) of (GUint64 x, GUint64 y) \<Rightarrow> Inr (x < y) | _ \<Rightarrow> Inl ErrPanic)
      | TypeFloat64 \<Rightarrow> (case (DValue a, DValue b) of (GFloat64 x, GFloat64 y) \<Rightarrow> Inr (f_less x y) | _ \<Rightarrow> Inl ErrPanic)
      | TypeString \<Rightarrow> (case (DValue a, DValue b) of (GString x, GString y) \<Rightarrow> Inr (x < y) | _ \<Rightarrow> Inl ErrPanic)
      | _ \<Rightarrow> Inr False)"

section \<open>Expressions\<close>

datatype BoundExpr =
    colRef nat Type
  | literalExpr Datum
  | cmpExpr BoundExpr BoundExpr string
  | boolExpr BoundExpr BoundExpr string
  | InPredicate nat "Datum list"
  | BetweenPredicate nat Datum Datum

definition bool_datum :: "bool \<Rightarrow> Datum" where
  "bool_datum b = \<lparr>DType = TypeBool, DValue = GBool b\<rparr>"

text \<open>\<open>b, ok := d.Value.(bool); ok && b\<close>\<close>

definition is_true :: "Datum \<Rightarrow> bool" where
  "is_true d \<longleftrightarrow> DValue d = GBool True"

fun in_values :: "Datum \<Rightarrow> Datum list \<Rightarrow> plan_err + bool" where
  "in_values val [] = Inr False"
| "in_values val (v # ws) = (case datumEqual val v of Inl e \<Rightarrow> Inl e | Inr True \<Rightarrow> Inr True | Inr False \<Rightarrow> in_values val ws)"

text \<open>\<open>a || b\<close> and \<open>a && b\<close> of operands that may panic.\<close>

definition or_else :: "plan_err + bool \<Rightarrow> plan_err + bool \<Rightarrow> plan_err + bool" where
  "or_else a b = (case a of Inl e \<Rightarrow> Inl e | Inr True \<Rightarrow> Inr True | Inr False \<Rightarrow> b)"

fun Eval :: "BoundExpr \<Rightarrow> Row \<Rightarrow> plan_err + Datum" where
  "Eval (colRef idx typ) row = (if idx \<ge> length (Datums row) then Inl ErrColumnIndex else Inr (Datums row ! idx))"
| "Eval (literalExpr d) row = Inr d"
| "Eval (cmpExpr left right op) row =
     (case Eval left row of Inl e \<Rightarrow> Inl e | Inr l \<Rightarrow>
      case Eval right row of Inl e \<Rightarrow> Inl e | Inr r \<Rightarrow>
      case datumEqual l r of Inl e \<Rightarrow> Inl e | Inr eq \<Rightarrow>
      if op = ''='' then Inr (bool_datum eq)
      else if op = ''<'' then map_sum id bool_datum (datumLess l r)
      else if op = ''>'' then map_sum id bool_datum (datumLess r l)
      else Inl ErrUnsupportedOp)"
| "Eval (boolExpr left right op) row =
     (case Eval left row of Inl e \<Rightarrow> Inl e | Inr l \<Rightarrow>
      case DValue l of GBool lb \<Rightarrow>
        (if op = ''and'' \<and> \<not> lb then Inr (bool_datum False)
         else if op = ''or'' \<and> lb then Inr (bool_datum True)
         else (case Eval right row of Inl e \<Rightarrow> Inl e | Inr r \<Rightarrow>
           case DValue r of GBool rb \<Rightarrow> Inr (bool_datum (if op = ''and'' then lb \<and> rb else lb \<or> rb))
           | _ \<Rightarrow> Inl ErrNeedsBool))
      | _ \<Rightarrow> Inl ErrNeedsBool)"
| "Eval (InPredicate colIdx values) row =
     (if colIdx \<ge> length (Datums row) then Inl ErrColumnIndex
      else map_sum id bool_datum (in_values (Datums row ! colIdx) values))"
| "Eval (BetweenPredicate colIdx lo hi) row =
     (if colIdx \<ge> length (Datums row) then Inl ErrColumnIndex
      else (let val = Datums row ! colIdx in
        case or_else (datumEqual val lo) (datumLess lo val) of Inl e \<Rightarrow> Inl e | Inr geLo \<Rightarrow>
        case or_else (datumEqual val hi) (datumLess val hi) of Inl e \<Rightarrow> Inl e | Inr leHi \<Rightarrow>
        Inr (bool_datum (geLo \<and> leHi))))"

end
