(* ===== verification/Planner_Ops.thy ===== *)
theory Planner_Ops
  imports Planner_Expr "HOL-Library.AList"
begin

text \<open>
  The operators of \<open>sql/planner\<close>: sequential scan (\<open>plan.go\<close>), filter and projection
  (\<open>translate.go\<close>), nested loop join (\<open>join.go\<close>), hash join (\<open>hash_join.go\<close>), aggregation
  (\<open>agg.go\<close>), sorting (\<open>sort.go\<close>) and limit (\<open>limit.go\<close>).  \<open>Operator\<close> is an interface value: a record
  of its methods over some state, in which \<open>None\<close> is not returning.  Every node is such a record
  built from those of its children; its fixed fields are parameters, its mutable fields and the
  states of its children are its state.  Row counters and times, which are only logged, are left out.
\<close>

record 's Operator =
  o_Open :: "'s \<Rightarrow> ('s \<times> (plan_err + unit)) option"
  o_Next :: "'s \<Rightarrow> ('s \<times> (plan_err + Row)) option"
  o_Close :: "'s \<Rightarrow> 's \<times> (plan_err + unit)"
  o_Schema :: ESchema

section \<open>Sequential scan\<close>

text \<open>What \<open>TableHeap.Scan\<close> returns: an error, or an iterator, given by the results of its \<open>Next\<close>
  before the end; and what the iterator's \<open>Close\<close> returns.\<close>

record TableHeap =
  th_Scan :: "plan_err + (plan_err + bytes \<times> u64) list"
  th_Close :: "plan_err + unit"

type_synonym iter = "(plan_err + bytes \<times> u64) list option"
type_synonym RowDecoder = "bytes \<Rightarrow> ESchema \<Rightarrow> plan_err + Row"

definition scan_Open :: "TableHeap \<Rightarrow> iter \<Rightarrow> iter \<times> (plan_err + unit)" where
  "scan_Open heap it = (case th_Scan heap of Inl e \<Rightarrow> (it, Inl e) | Inr items \<Rightarrow> (Some items, Inr ()))"

fun scan_Next :: "RowDecoder \<Rightarrow> ESchema \<Rightarrow> iter \<Rightarrow> iter \<times> (plan_err + Row)" where
  "scan_Next decoder schema None = (None, Inl EOF)"
| "scan_Next decoder schema (Some []) = (Some [], Inl EOF)"
| "scan_Next decoder schema (Some (Inl e # items)) = (Some items, Inl e)"
| "scan_Next decoder schema (Some (Inr (encoded, rowID) # items)) =
     (case decoder encoded schema of
        Inl e \<Rightarrow> (Some items, Inl e)
      | Inr row \<Rightarrow> (Some items, Inr (row\<lparr>RowID := rowID\<rparr>)))"

definition scan_Close :: "TableHeap \<Rightarrow> iter \<Rightarrow> iter \<times> (plan_err + unit)" where
  "scan_Close heap it = (case it of None \<Rightarrow> (None, Inr ()) | Some _ \<Rightarrow> (None, th_Close heap))"

definition SeqScanNode :: "TableHeap \<Rightarrow> RowDecoder \<Rightarrow> ESchema \<Rightarrow> iter Operator" where
  "SeqScanNode heap decoder schema =
     \<lparr>o_Open = \<lambda>it. Some (scan_Open heap it), o_Next = \<lambda>it. Some (scan_Next decoder schema it),
      o_Close = scan_Close heap, o_Schema = schema\<rparr>"

section \<open>Filter and projection\<close>

partial_function (option) filter_Next :: "'c Operator \<Rightarrow> BoundExpr \<Rightarrow> 'c \<Rightarrow> ('c \<times> (plan_err + Row)) option" where
  [code]: "filter_Next child pred c =
     (case o_Next child c of None \<Rightarrow> None | Some (c, res) \<Rightarrow>
      (case res of
         Inl e \<Rightarrow> Some (c, Inl e)
       | Inr row \<Rightarrow>
         (case Eval pred row of
            Inl e \<Rightarrow> Some (c, Inl e)
          | Inr d \<Rightarrow> if is_true d then Some (c, Inr row) else filter_Next child pred c)))"

definition FilterNode :: "'c Operator \<Rightarrow> BoundExpr \<Rightarrow> 'c Operator" where
  "FilterNode child pred = child\<lparr>o_Next := filter_Next child pred\<rparr>"

fun eval_all :: "BoundExpr list \<Rightarrow> Row \<Rightarrow> plan_err + Datum list" where
  "eval_all [] row = Inr []"
| "eval_all (e # es) row = (case Eval e row of Inl err \<Rightarrow> Inl err | Inr d \<Rightarrow>
     (case eval_all es row of Inl err \<Rightarrow> Inl err | Inr ds \<Rightarrow> Inr (d # ds)))"

definition project_Next :: "'c Operator \<Rightarrow> BoundExpr list \<Rightarrow> 'c \<Rightarrow> ('c \<times> (plan_err + Row)) option" where
  "project_Next child exprs c =
     (case o_Next child c of None \<Rightarrow> None | Some (c, res) \<Rightarrow>
      (case res of
         Inl e \<Rightarrow> Some (c, Inl e)
       | Inr row \<Rightarrow> Some (c, map_sum id (\<lambda>ds. \<lparr>Datums = ds, RowID = 0\<rparr>) (eval_all exprs row))))"

definition ProjectNode :: "'c Operator \<Rightarrow> BoundExpr list \<Rightarrow> ESchema \<Rightarrow> 'c Operator" where
  "ProjectNode child exprs outSchema = child\<lparr>o_Next := project_Next child exprs, o_Schema := outSchema\<rparr>"

section \<open>Limit\<close>

record LimitState =
  li_skipped :: int
  li_emitted :: int

definition limit_Open :: "'c Operator \<Rightarrow> 'c \<times> LimitState \<Rightarrow> (('c \<times> LimitState) \<times> (plan_err + unit)) option" where
  "limit_Open child s = (case s of (c, n) \<Rightarrow> case o_Open child c of None \<Rightarrow> None | Some (c, r) \<Rightarrow>
     Some ((c, n\<lparr>li_skipped := 0, li_emitted := 0\<rparr>), r))"

partial_function (option) limit_Next :: "'c Operator \<Rightarrow> int \<Rightarrow> int \<Rightarrow> 'c \<times> LimitState
    \<Rightarrow> (('c \<times> LimitState) \<times> (plan_err + Row)) option" where
  [code]: "limit_Next child lim offset s =
     (case o_Next child (fst s) of None \<Rightarrow> None | Some (c, res) \<Rightarrow>
      (case res of
         Inl e \<Rightarrow> Some ((c, snd s), Inl e)
       | Inr row \<Rightarrow>
         if li_skipped (snd s) < offset
         then limit_Next child lim offset (c, (snd s)\<lparr>li_skipped := li_skipped (snd s) + 1\<rparr>)
         else (let n = (snd s)\<lparr>li_emitted := li_emitted (snd s) + 1\<rparr> in
           if lim > 0 \<and> li_emitted n > lim then Some ((c, n), Inl EOF) else Some ((c, n), Inr row))))"

definition limit_Close :: "'c Operator \<Rightarrow> 'c \<times> LimitState \<Rightarrow> ('c \<times> LimitState) \<times> (plan_err + unit)" where
  "limit_Close child s = (case s of (c, n) \<Rightarrow> case o_Close child c of (c, r) \<Rightarrow> ((c, n), r))"

definition LimitNode :: "'c Operator \<Rightarrow> int \<Rightarrow> int \<Rightarrow> ('c \<times> LimitState) Operator" where
  "LimitNode child lim offset =
     \<lparr>o_Open = limit_Open child, o_Next = limit_Next child lim offset,
      o_Close = limit_Close child, o_Schema = o_Schema child\<rparr>"

section \<open>Loops over a child\<close>

text \<open>\<open>for { row, err := child.Next(ctx); if err == io.EOF { break }; ... }\<close>, the build loops of
  \<open>SortNode\<close>, \<open>HashJoinNode\<close> and \<open>HashAggNode\<close>: every row updates an accumulator.\<close>

partial_function (option) fold_next :: "'c Operator \<Rightarrow> (Row \<Rightarrow> 'a \<Rightarrow> plan_err + 'a) \<Rightarrow> 'c \<Rightarrow> 'a
    \<Rightarrow> ('c \<times> (plan_err + 'a)) option" where
  [code]: "fold_next child step c acc =
     (case o_Next child c of None \<Rightarrow> None | Some (c, res) \<Rightarrow>
      (case res of
         Inl e \<Rightarrow> if e = EOF then Some (c, Inr acc) else Some (c, Inl e)
       | Inr row \<Rightarrow> (case step row acc of Inl e \<Rightarrow> Some (c, Inl e) | Inr acc \<Rightarrow> fold_next child step c acc)))"

section \<open>Sorting\<close>

record SortKey =
  sk_ColIdx :: nat
  sk_Desc :: bool

text \<open>The comparison of \<open>SortNode.Open\<close>.\<close>

fun sort_less :: "SortKey list \<Rightarrow> Row \<Rightarrow> Row \<Rightarrow> plan_err + bool" where
  "sort_less [] r1 r2 = Inr False"
| "sort_less (k # ks) r1 r2 =
     (if sk_ColIdx k \<ge> length (Datums r1) \<or> sk_ColIdx k \<ge> length (Datums r2) then Inl ErrPanic
      else (let d1 = Datums r1 ! sk_ColIdx k; d2 = Datums r2 ! sk_ColIdx k in
        case datumEqual d1 d2 of
          Inl e \<Rightarrow> Inl e
        | Inr True \<Rightarrow> sort_less ks r1 r2
        | Inr False \<Rightarrow>
          (let n1 = (DValue d1 = GNil); n2 = (DValue d2 = GNil) in
           if n1 \<noteq> n2 then Inr (if sk_Desc k then n2 else n1)
           else (case datumLess d1 d2 of Inl e \<Rightarrow> Inl e | Inr lt \<Rightarrow> Inr (if sk_Desc k then \<not> lt else lt)))))"

text \<open>\<open>sort.SliceStable\<close>, by insertion from the end of the sorted part (the result is the same for
  every stable algorithm when the comparison is a strict weak order).  The list is reversed: its head is
  the largest element so far.\<close>

fun insert_row :: "('a \<Rightarrow> 'a \<Rightarrow> plan_err + bool) \<Rightarrow> 'a \<Rightarrow> 'a list \<Rightarrow> plan_err + 'a list" where
  "insert_row lt x [] = Inr [x]"
| "insert_row lt x (y # ys) = (case lt x y of Inl e \<Rightarrow> Inl e | Inr False \<Rightarrow> Inr (x # y # ys)
     | Inr True \<Rightarrow> (case insert_row lt x ys of Inl e \<Rightarrow> Inl e | Inr zs \<Rightarrow> Inr (y # zs)))"

fun insert_rows :: "('a \<Rightarrow> 'a \<Rightarrow> plan_err + bool) \<Rightarrow> 'a list \<Rightarrow> 'a list \<Rightarrow> plan_err + 'a list" where
  "insert_rows lt [] acc = Inr acc"
| "insert_rows lt (x # xs) acc = (case insert_row lt x acc of Inl e \<Rightarrow> Inl e | Inr acc \<Rightarrow> insert_rows lt xs acc)"

definition SliceStable :: "('a \<Rightarrow> 'a \<Rightarrow> plan_err + bool) \<Rightarrow> 'a list \<Rightarrow> plan_err + 'a list" where
  "SliceStable lt xs = map_sum id rev (insert_rows lt xs [])"

record SortState =
  so_rows :: "Row list"
  so_rowIdx :: nat
  so_opened :: bool

definition sort_Open :: "'c Operator \<Rightarrow> SortKey list \<Rightarrow> 'c \<times> SortState \<Rightarrow> (('c \<times> SortState) \<times> (plan_err + unit)) option" where
  "sort_Open child keys s = (case s of (c, n) \<Rightarrow>
     case o_Open child c of
       None \<Rightarrow> None
     | Some (c, Inl e) \<Rightarrow> Some ((c, n), Inl e)
     | Some (c, Inr _) \<Rightarrow>
       (case fold_next child (\<lambda>r rows. Inr (rows @ [r])) c [] of
          None \<Rightarrow> None
        | Some (c, Inl e) \<Rightarrow> Some ((c, n), Inl e)
        | Some (c, Inr rows) \<Rightarrow>
          (case SliceStable (sort_less keys) rows of
             Inl e \<Rightarrow> Some ((c, n), Inl e)
           | Inr rows \<Rightarrow> Some ((c, \<lparr>so_rows = rows, so_rowIdx = 0, so_opened = True\<rparr>), Inr ()))))"

definition sort_Next :: "'c \<times> SortState \<Rightarrow> (('c \<times> SortState) \<times> (plan_err + Row)) option" where
  "sort_Next s = (case s of (c, n) \<Rightarrow>
     if \<not> so_opened n \<or> so_rowIdx n \<ge> length (so_rows n) then Some ((c, n), Inl EOF)
     else Some ((c, n\<lparr>so_rowIdx := so_rowIdx n + 1\<rparr>), Inr (so_rows n ! so_rowIdx n)))"

definition sort_Close :: "'c Operator \<Rightarrow> 'c \<times> SortState \<Rightarrow> ('c \<times> SortState) \<times> (plan_err + unit)" where
  "sort_Close child s = (case s of (c, n) \<Rightarrow> case o_Close child c of (c, r) \<Rightarrow>
     ((c, n\<lparr>so_rows := [], so_opened := False\<rparr>), r))"

definition SortNode :: "'c Operator \<Rightarrow> SortKey list \<Rightarrow> ('c \<times> SortState) Operator" where
  "SortNode child keys = \<lparr>o_Open = sort_Open child keys, o_Next = sort_Next, o_Close = sort_Close child, o_Schema = o_Schema child\<rparr>"

section \<open>Joins\<close>

definition combineRows :: "Row \<Rightarrow> Row \<Rightarrow> Row" where
  "combineRows left right = \<lparr>Datums = Datums left @ Datums right, RowID = 0\<rparr>"

definition nullPadRight :: "Row \<Rightarrow> ESchema \<Rightarrow> Row" where
  "nullPadRight left rightSchema =
     \<lparr>Datums = Datums left @ map (\<lambda>col. \<lparr>DType = CType col, DValue = GNil\<rparr>) rightSchema, RowID = 0\<rparr>"

record NljState =
  nl_leftRow :: Row
  nl_leftMatched :: bool

definition nlj_Open :: "'l Operator \<Rightarrow> 'r Operator \<Rightarrow> 'l \<times> 'r \<times> NljState
    \<Rightarrow> (('l \<times> 'r \<times> NljState) \<times> (plan_err + unit)) option" where
  "nlj_Open left right s = (case s of (l, r, n) \<Rightarrow>
     case o_Open left l of None \<Rightarrow> None | Some (l, Inl e) \<Rightarrow> Some ((l, r, n), Inl e) | Some (l, Inr _) \<Rightarrow>
     case o_Open right r of None \<Rightarrow> None
       | Some (r, Inl e) \<Rightarrow> Some ((fst (o_Close left l), r, n), Inl e)
       | Some (r, Inr _) \<Rightarrow>
     case o_Next left l of None \<Rightarrow> None
       | Some (l, Inl e) \<Rightarrow>
         if e = EOF then Some ((l, r, n\<lparr>nl_leftRow := no_row\<rparr>), Inr ())
         else Some ((fst (o_Close left l), fst (o_Close right r), n), Inl e)
       | Some (l, Inr lr) \<Rightarrow> Some ((l, r, n\<lparr>nl_leftRow := lr, nl_leftMatched := False\<rparr>), Inr ()))"

partial_function (option) nlj_Next :: "'l Operator \<Rightarrow> 'r Operator \<Rightarrow> BoundExpr option \<Rightarrow> bool \<Rightarrow> 'l \<times> 'r \<times> NljState
    \<Rightarrow> (('l \<times> 'r \<times> NljState) \<times> (plan_err + Row)) option" where
  [code]: "nlj_Next left right cond isLeftJoin s = (case s of (l, r, n) \<Rightarrow>
     if Datums (nl_leftRow n) = [] then Some ((l, r, n), Inl EOF)
     else (case o_Next right r of None \<Rightarrow> None | Some (r, res) \<Rightarrow>
       (case res of
          Inl e \<Rightarrow>
            if e = EOF then
              (if isLeftJoin \<and> \<not> nl_leftMatched n then
                 (let padded = nullPadRight (nl_leftRow n) (o_Schema right) in
                  case o_Open right (fst (o_Close right r)) of None \<Rightarrow> None
                  | Some (r, Inl e) \<Rightarrow> Some ((l, r, n), Inl e)
                  | Some (r, Inr _) \<Rightarrow>
                    (case o_Next left l of None \<Rightarrow> None
                     | Some (l, Inl e) \<Rightarrow>
                       Some ((l, r, n\<lparr>nl_leftRow := no_row\<rparr>), if e = EOF then Inr padded else Inl e)
                     | Some (l, Inr lr) \<Rightarrow>
                       Some ((l, r, n\<lparr>nl_leftRow := lr, nl_leftMatched := False\<rparr>), Inr padded)))
               else
                 (case o_Close right r of
                    (r, Inl e) \<Rightarrow> Some ((l, r, n), Inl e)
                  | (r, Inr _) \<Rightarrow>
                    (case o_Open right r of None \<Rightarrow> None
                     | Some (r, Inl e) \<Rightarrow> Some ((l, r, n), Inl e)
                     | Some (r, Inr _) \<Rightarrow>
                       (case o_Next left l of None \<Rightarrow> None
                        | Some (l, res) \<Rightarrow>
                          (case res of
                             Inl e \<Rightarrow> Some ((l, r, n\<lparr>nl_leftRow := no_row\<rparr>), Inl e)
                           | Inr lr \<Rightarrow> nlj_Next left right cond isLeftJoin
                               (l, r, n\<lparr>nl_leftRow := lr, nl_leftMatched := False\<rparr>))))))
            else Some ((l, r, n), Inl e)
        | Inr rr \<Rightarrow>
          (let joinedRow = combineRows (nl_leftRow n) rr in
           case cond of
             None \<Rightarrow> Some ((l, r, n\<lparr>nl_leftMatched := True\<rparr>), Inr joinedRow)
           | Some c \<Rightarrow>
             (case Eval c joinedRow of
                Inl e \<Rightarrow> Some ((l, r, n), Inl e)
              | Inr d \<Rightarrow>
                if is_true d then Some ((l, r, n\<lparr>nl_leftMatched := True\<rparr>), Inr joinedRow)
                else nlj_Next left right cond isLeftJoin (l, r, n))))))"

definition close_both :: "'l Operator \<Rightarrow> 'r Operator \<Rightarrow> 'l \<times> 'r \<Rightarrow> ('l \<times> 'r) \<times> (plan_err + unit)" where
  "close_both left right s = (case s of (l, r) \<Rightarrow>
     case o_Close left l of (l, errL) \<Rightarrow> case o_Close right r of (r, errR) \<Rightarrow>
     ((l, r), if isl errL then errL else errR))"

definition nlj_Close :: "'l Operator \<Rightarrow> 'r Operator \<Rightarrow> 'l \<times> 'r \<times> NljState \<Rightarrow> ('l \<times> 'r \<times> NljState) \<times> (plan_err + unit)" where
  "nlj_Close left right s = (case s of (l, r, n) \<Rightarrow>
     case close_both left right (l, r) of ((l, r), res) \<Rightarrow> ((l, r, n\<lparr>nl_leftRow := no_row\<rparr>), res))"

definition NestedLoopJoinNode :: "'l Operator \<Rightarrow> 'r Operator \<Rightarrow> BoundExpr option \<Rightarrow> bool \<Rightarrow> ('l \<times> 'r \<times> NljState) Operator" where
  "NestedLoopJoinNode left right cond isLeftJoin =
     \<lparr>o_Open = nlj_Open left right, o_Next = nlj_Next left right cond isLeftJoin,
      o_Close = nlj_Close left right, o_Schema = o_Schema left @ o_Schema right\<rparr>"

definition encodeHashKey :: "Datum \<Rightarrow> plan_err + bytes" where
  "encodeHashKey d =
     (if DValue d = GNil then Inr []
      else (case DType d of
          TypeInt64 \<Rightarrow> (case DValue d of GInt64 x \<Rightarrow> Inr ([105, 58] @ dec_int (sint x)) | _ \<Rightarrow> Inl ErrPanic)
        | TypeUint64 \<Rightarrow> (case DValue d of GUint64 x \<Rightarrow> Inr ([117, 58] @ dec_int (uint x)) | _ \<Rightarrow> Inl ErrPanic)
        | TypeFloat64 \<Rightarrow> (case DValue d of GFloat64 x \<Rightarrow> Inr ([102, 58] @ f_format x) | _ \<Rightarrow> Inl ErrPanic)
        | TypeBool \<Rightarrow> (case DValue d of
              GBool b \<Rightarrow> Inr ([98, 58] @ (if b then [116, 114, 117, 101] else [102, 97, 108, 115, 101]))
            | _ \<Rightarrow> Inl ErrPanic)
        | TypeString \<Rightarrow> (case DValue d of GString s \<Rightarrow> Inr ([115, 58] @ s) | _ \<Rightarrow> Inl ErrPanic)
        | _ \<Rightarrow> Inl ErrUnsupportedJoinKey))"

definition row_hash_key :: "nat \<Rightarrow> Row \<Rightarrow> plan_err + bytes" where
  "row_hash_key k row = (if k \<ge> length (Datums row) then Inl ErrPanic else encodeHashKey (Datums row ! k))"

record HashState =
  hj_hashTable :: "(bytes \<times> Row list) list"
  hj_rightClosed :: bool
  hj_activeProbe :: Row
  hj_activeMatches :: "Row list"
  hj_matchIdx :: nat
  hj_matchedAny :: bool

definition hash_lookup :: "bytes \<Rightarrow> (bytes \<times> Row list) list \<Rightarrow> Row list" where
  "hash_lookup key table = (case map_of table key of None \<Rightarrow> [] | Some rows \<Rightarrow> rows)"

text \<open>The body of the build loop.\<close>

definition hash_build :: "nat \<Rightarrow> Row \<Rightarrow> (bytes \<times> Row list) list \<Rightarrow> plan_err + (bytes \<times> Row list) list" where
  "hash_build rightKey row table =
     (case row_hash_key rightKey row of
        Inl e \<Rightarrow> Inl e
      | Inr key \<Rightarrow> Inr (if key = [] then table else AList.update key (hash_lookup key table @ [row]) table))"

definition hash_Open :: "'l Operator \<Rightarrow> 'r Operator \<Rightarrow> nat \<Rightarrow> 'l \<times> 'r \<times> HashState
    \<Rightarrow> (('l \<times> 'r \<times> HashState) \<times> (plan_err + unit)) option" where
  "hash_Open left right rightKey s = (case s of (l, r, n) \<Rightarrow>
     case o_Open left l of None \<Rightarrow> None | Some (l, Inl e) \<Rightarrow> Some ((l, r, n), Inl e) | Some (l, Inr _) \<Rightarrow>
     case o_Open right r of None \<Rightarrow> None
       | Some (r, Inl e) \<Rightarrow> Some ((fst (o_Close left l), r, n\<lparr>hj_rightClosed := False\<rparr>), Inl e)
       | Some (r, Inr _) \<Rightarrow>
     (let n = \<lparr>hj_hashTable = [], hj_rightClosed = False, hj_activeProbe = no_row, hj_activeMatches = [],
               hj_matchIdx = 0, hj_matchedAny = False\<rparr> in
      case fold_next right (hash_build rightKey) r [] of None \<Rightarrow> None
        | Some (r, Inl e) \<Rightarrow> Some ((fst (o_Close left l), fst (o_Close right r), n\<lparr>hj_rightClosed := True\<rparr>), Inl e)
        | Some (r, Inr table) \<Rightarrow>
          Some ((l, fst (o_Close right r), n\<lparr>hj_hashTable := table, hj_rightClosed := True\<rparr>), Inr ())))"

partial_function (option) hash_Next :: "'l Operator \<Rightarrow> 'r Operator \<Rightarrow> nat \<Rightarrow> bool \<Rightarrow> BoundExpr option
    \<Rightarrow> 'l \<times> 'r \<times> HashState \<Rightarrow> (('l \<times> 'r \<times> HashState) \<times> (plan_err + Row)) option" where
  [code]: "hash_Next left right leftKey isLeftJoin residual s = (case s of (l, r, n) \<Rightarrow>
     if hj_matchIdx n < length (hj_activeMatches n) then
       (let combined = combineRows (hj_activeProbe n) (hj_activeMatches n ! hj_matchIdx n);
            n = n\<lparr>hj_matchIdx := hj_matchIdx n + 1\<rparr> in
        case residual of
          None \<Rightarrow> Some ((l, r, n\<lparr>hj_matchedAny := True\<rparr>), Inr combined)
        | Some c \<Rightarrow>
          (case Eval c combined of
             Inl e \<Rightarrow> Some ((l, r, n), Inl e)
           | Inr d \<Rightarrow>
             if is_true d then Some ((l, r, n\<lparr>hj_matchedAny := True\<rparr>), Inr combined)
             else hash_Next left right leftKey isLeftJoin residual (l, r, n)))
     else if isLeftJoin \<and> Datums (hj_activeProbe n) \<noteq> [] \<and> \<not> hj_matchedAny n then
       Some ((l, r, n\<lparr>hj_activeProbe := no_row\<rparr>), Inr (nullPadRight (hj_activeProbe n) (o_Schema right)))
     else
       (case o_Next left l of None \<Rightarrow> None | Some (l, res) \<Rightarrow>
        (case res of
           Inl e \<Rightarrow> Some ((l, r, n), Inl e)
         | Inr pr \<Rightarrow>
           (let n = n\<lparr>hj_activeProbe := pr, hj_matchedAny := False\<rparr> in
            case row_hash_key leftKey pr of
              Inl e \<Rightarrow> Some ((l, r, n), Inl e)
            | Inr key \<Rightarrow> hash_Next left right leftKey isLeftJoin residual
                (l, r, n\<lparr>hj_activeMatches := if key = [] then [] else hash_lookup key (hj_hashTable n), hj_matchIdx := 0\<rparr>)))))"

definition hash_Close :: "'l Operator \<Rightarrow> 'r Operator \<Rightarrow> 'l \<times> 'r \<times> HashState \<Rightarrow> ('l \<times> 'r \<times> HashState) \<times> (plan_err + unit)" where
  "hash_Close left right s = (case s of (l, r, n) \<Rightarrow>
     let m = n\<lparr>hj_hashTable := [], hj_activeProbe := no_row, hj_activeMatches := [], hj_rightClosed := True\<rparr> in
     if hj_rightClosed n then (case o_Close left l of (l, errL) \<Rightarrow> ((l, r, m), errL))
     else (case close_both left right (l, r) of ((l, r), res) \<Rightarrow> ((l, r, m), res)))"

definition HashJoinNode :: "'l Operator \<Rightarrow> 'r Operator \<Rightarrow> nat \<Rightarrow> nat \<Rightarrow> bool \<Rightarrow> BoundExpr option
    \<Rightarrow> ('l \<times> 'r \<times> HashState) Operator" where
  "HashJoinNode left right leftKey rightKey isLeftJoin residual =
     \<lparr>o_Open = hash_Open left right rightKey, o_Next = hash_Next left right leftKey isLeftJoin residual,
      o_Close = hash_Close left right, o_Schema = o_Schema left @ o_Schema right\<rparr>"

section \<open>Aggregation\<close>

datatype AggOp = AggCount | AggSum | AggMin | AggMax

record AggRequest =
  ag_Op :: AggOp
  ag_ColIdx :: int

record aggAccumulator =
  acc_op :: AggOp
  acc_count :: i64
  acc_sum :: Datum
  acc_min :: Datum
  acc_max :: Datum
  acc_hasVal :: bool

definition null_datum :: Datum where
  "null_datum = \<lparr>DType = TypeNull, DValue = GNil\<rparr>"

definition new_acc :: "AggOp \<Rightarrow> aggAccumulator" where
  "new_acc op = \<lparr>acc_op = op, acc_count = 0, acc_sum = null_datum, acc_min = null_datum, acc_max = null_datum, acc_hasVal = False\<rparr>"

definition addDatums :: "Datum \<Rightarrow> Datum \<Rightarrow> plan_err + Datum" where
  "addDatums a b =
     (case DType a of
        TypeInt64 \<Rightarrow> (case DValue a of
            GInt64 av \<Rightarrow> Inr (case DValue b of
                GFloat64 fb \<Rightarrow> \<lparr>DType = TypeFloat64, DValue = GFloat64 (f_add (f_of_int64 av) fb)\<rparr>
              | GInt64 ib \<Rightarrow> \<lparr>DType = TypeInt64, DValue = GInt64 (av + ib)\<rparr>
              | _ \<Rightarrow> \<lparr>DType = TypeInt64, DValue = GInt64 (av + 0)\<rparr>)
          | _ \<Rightarrow> Inl ErrPanic)
      | TypeFloat64 \<Rightarrow> (case DValue a of
            GFloat64 av \<Rightarrow> Inr \<lparr>DType = TypeFloat64, DValue = GFloat64 (f_add av (case DValue b of
                GInt64 ib \<Rightarrow> f_of_int64 ib | GFloat64 fb \<Rightarrow> fb | _ \<Rightarrow> 0))\<rparr>
          | _ \<Rightarrow> Inl ErrPanic)
      | _ \<Rightarrow> Inr a)"

definition accumulate :: "Datum \<Rightarrow> aggAccumulator \<Rightarrow> plan_err + aggAccumulator" where
  "accumulate val acc =
     (if acc_op acc = AggCount then Inr (acc\<lparr>acc_count := acc_count acc + 1\<rparr>)
      else if DValue val = GNil then Inr acc
      else if \<not> acc_hasVal acc then Inr (acc\<lparr>acc_sum := val, acc_min := val, acc_max := val, acc_hasVal := True\<rparr>)
      else (case acc_op acc of
          AggSum \<Rightarrow> map_sum id (\<lambda>d. acc\<lparr>acc_sum := d\<rparr>) (addDatums (acc_sum acc) val)
        | AggMin \<Rightarrow> map_sum id (\<lambda>lt. if lt then acc\<lparr>acc_min := val\<rparr> else acc) (datumLess val (acc_min acc))
        | AggMax \<Rightarrow> map_sum id (\<lambda>lt. if lt then acc\<lparr>acc_max := val\<rparr> else acc) (datumLess (acc_max acc) val)
        | AggCount \<Rightarrow> Inr acc))"

definition acc_result :: "aggAccumulator \<Rightarrow> Datum" where
  "acc_result acc =
     (if acc_op acc = AggCount then \<lparr>DType = TypeInt64, DValue = GInt64 (acc_count acc)\<rparr>
      else if \<not> acc_hasVal acc then null_datum
      else (case acc_op acc of AggSum \<Rightarrow> acc_sum acc | AggMin \<Rightarrow> acc_min acc | AggMax \<Rightarrow> acc_max acc | AggCount \<Rightarrow> null_datum))"

definition serializeDatum :: "Datum \<Rightarrow> plan_err + bytes" where
  "serializeDatum d =
     (if DValue d = GNil then Inr [78]
      else (case DType d of
          TypeInt64 \<Rightarrow> (case DValue d of GInt64 x \<Rightarrow> Inr (73 # dec_int (sint x)) | _ \<Rightarrow> Inl ErrPanic)
        | TypeUint64 \<Rightarrow> (case DValue d of GUint64 x \<Rightarrow> Inr (85 # dec_int (uint x)) | _ \<Rightarrow> Inl ErrPanic)
        | TypeFloat64 \<Rightarrow> (case DValue d of GFloat64 x \<Rightarrow> Inr (70 # f_format x) | _ \<Rightarrow> Inl ErrPanic)
        | TypeBool \<Rightarrow> (case DValue d of GBool b \<Rightarrow> Inr (if b then [66, 84] else [66, 70]) | _ \<Rightarrow> Inl ErrPanic)
        | TypeString \<Rightarrow> (case DValue d of GString s \<Rightarrow> Inr (83 # s) | _ \<Rightarrow> Inl ErrPanic)
        | TypeBytes \<Rightarrow> (case DValue d of GBytes b \<Rightarrow> Inr (66 # dec_int (int (length b)) @ 58 # b) | _ \<Rightarrow> Inl ErrPanic)
        | TypeNull \<Rightarrow> Inr [63]))"

text \<open>\<open>strings.Join\<close> with a zero byte of the serialized values.\<close>

fun group_key :: "Datum list \<Rightarrow> plan_err + bytes" where
  "group_key [] = Inr []"
| "group_key [d] = serializeDatum d"
| "group_key (d # ds) = (case serializeDatum d of Inl e \<Rightarrow> Inl e | Inr k \<Rightarrow>
     (case group_key ds of Inl e \<Rightarrow> Inl e | Inr ks \<Rightarrow> Inr (k @ 0 # ks)))"

text \<open>The column values of a row; an index out of range panics.\<close>

fun pick :: "nat list \<Rightarrow> Row \<Rightarrow> plan_err + Datum list" where
  "pick [] row = Inr []"
| "pick (i # is) row = (if i \<ge> length (Datums row) then Inl ErrPanic
     else (case pick is row of Inl e \<Rightarrow> Inl e | Inr ds \<Rightarrow> Inr (Datums row ! i # ds)))"

fun accumulate_all :: "AggRequest list \<Rightarrow> Row \<Rightarrow> aggAccumulator list \<Rightarrow> plan_err + aggAccumulator list" where
  "accumulate_all (a # as) row (acc # accs) =
     (if ag_ColIdx a \<ge> int (length (Datums row)) then Inl ErrPanic
      else (case accumulate (if ag_ColIdx a \<ge> 0 then Datums row ! nat (ag_ColIdx a) else null_datum) acc of
          Inl e \<Rightarrow> Inl e
        | Inr acc \<Rightarrow> (case accumulate_all as row accs of Inl e \<Rightarrow> Inl e | Inr accs \<Rightarrow> Inr (acc # accs))))"
| "accumulate_all _ row accs = Inr accs"

type_synonym agg_groups = "(bytes \<times> aggAccumulator list) list \<times> Row list"

definition agg_row :: "nat list \<Rightarrow> AggRequest list \<Rightarrow> Row \<Rightarrow> agg_groups \<Rightarrow> plan_err + agg_groups" where
  "agg_row groupKeys aggs row g = (case g of (groupMap, groupRows) \<Rightarrow>
     case pick groupKeys row of Inl e \<Rightarrow> Inl e | Inr ds \<Rightarrow>
     case group_key ds of Inl e \<Rightarrow> Inl e | Inr keyStr \<Rightarrow>
     (let accums = (case map_of groupMap keyStr of Some accs \<Rightarrow> accs | None \<Rightarrow> map (\<lambda>a. new_acc (ag_Op a)) aggs);
          groupRows = (case map_of groupMap keyStr of Some _ \<Rightarrow> groupRows | None \<Rightarrow> groupRows @ [\<lparr>Datums = ds, RowID = 0\<rparr>]) in
      case accumulate_all aggs row accums of
        Inl e \<Rightarrow> Inl e
      | Inr accums \<Rightarrow> Inr (AList.update keyStr accums groupMap, groupRows)))"

definition agg_result :: "(bytes \<times> aggAccumulator list) list \<Rightarrow> Row \<Rightarrow> Row" where
  "agg_result groupMap gr =
     \<lparr>Datums = map acc_result (case group_key (Datums gr) of Inl _ \<Rightarrow> [] | Inr k \<Rightarrow>
        (case map_of groupMap k of None \<Rightarrow> [] | Some accs \<Rightarrow> accs)), RowID = 0\<rparr>"

record AggState =
  ha_groups :: "Row list"
  ha_aggResults :: "Row list"
  ha_outputIdx :: nat
  ha_opened :: bool

definition agg_Open :: "'c Operator \<Rightarrow> nat list \<Rightarrow> AggRequest list \<Rightarrow> 'c \<times> AggState
    \<Rightarrow> (('c \<times> AggState) \<times> (plan_err + unit)) option" where
  "agg_Open child groupKeys aggs s = (case s of (c, n) \<Rightarrow>
     case o_Open child c of None \<Rightarrow> None | Some (c, Inl e) \<Rightarrow> Some ((c, n), Inl e) | Some (c, Inr _) \<Rightarrow>
     (let n = n\<lparr>ha_groups := [], ha_aggResults := [], ha_outputIdx := 0\<rparr> in
      case fold_next child (agg_row groupKeys aggs) c ([], []) of None \<Rightarrow> None
        | Some (c, Inl e) \<Rightarrow> Some ((fst (o_Close child c), n), Inl e)
        | Some (c, Inr (groupMap, groupRows)) \<Rightarrow>
          Some ((c, n\<lparr>ha_groups := groupRows, ha_aggResults := map (agg_result groupMap) groupRows, ha_opened := True\<rparr>), Inr ())))"

definition agg_Next :: "nat list \<Rightarrow> AggRequest list \<Rightarrow> 'c \<times> AggState \<Rightarrow> (('c \<times> AggState) \<times> (plan_err + Row)) option" where
  "agg_Next groupKeys aggs s = (case s of (c, n) \<Rightarrow>
     if \<not> ha_opened n then Some ((c, n), Inl EOF)
     else if groupKeys = [] \<and> ha_groups n = [] then
       Some ((c, n\<lparr>ha_outputIdx := 1\<rparr>), Inr \<lparr>Datums = map (\<lambda>a. acc_result (new_acc (ag_Op a))) aggs, RowID = 0\<rparr>)
     else if ha_outputIdx n \<ge> length (ha_groups n) then Some ((c, n), Inl EOF)
     else Some ((c, n\<lparr>ha_outputIdx := ha_outputIdx n + 1\<rparr>),
       Inr (combineRows (ha_groups n ! ha_outputIdx n) (ha_aggResults n ! ha_outputIdx n))))"

definition agg_Close :: "'c Operator \<Rightarrow> 'c \<times> AggState \<Rightarrow> ('c \<times> AggState) \<times> (plan_err + unit)" where
  "agg_Close child s = (case s of (c, n) \<Rightarrow> case o_Close child c of (c, r) \<Rightarrow>
     ((c, n\<lparr>ha_groups := [], ha_aggResults := [], ha_opened := False\<rparr>), r))"

definition aggName :: "AggRequest \<Rightarrow> bytes" where
  "aggName a = (case ag_Op a of AggCount \<Rightarrow> [99, 111, 117, 110, 116] | AggSum \<Rightarrow> [115, 117, 109]
     | AggMin \<Rightarrow> [109, 105, 110] | AggMax \<Rightarrow> [109, 97, 120])"

definition aggResultType :: "AggRequest \<Rightarrow> ESchema \<Rightarrow> Type" where
  "aggResultType a schema =
     (if ag_Op a = AggCount then TypeInt64
      else if ag_ColIdx a \<ge> 0 \<and> ag_ColIdx a < int (length schema) then CType (schema ! nat (ag_ColIdx a))
      else TypeNull)"

definition HashAggNode :: "'c Operator \<Rightarrow> nat list \<Rightarrow> AggRequest list \<Rightarrow> ('c \<times> AggState) Operator" where
  "HashAggNode child groupKeys aggs =
     \<lparr>o_Open = agg_Open child groupKeys aggs, o_Next = agg_Next groupKeys aggs, o_Close = agg_Close child,
      o_Schema = map (\<lambda>k. o_Schema child ! k) groupKeys
        @ map (\<lambda>a. \<lparr>CName = aggName a, CType = aggResultType a (o_Schema child), CNotNull = False, CDefault = None\<rparr>) aggs\<rparr>"

section \<open>Plan templates\<close>

record PlanTemplate =
  pt_TableID :: u64
  pt_InputSchema :: ESchema
  pt_OutputSchema :: ESchema
  pt_WhereExpr :: "BoundExpr option"
  pt_Projections :: "BoundExpr list option"

definition Build :: "PlanTemplate \<Rightarrow> TableHeap \<Rightarrow> RowDecoder \<Rightarrow> iter Operator" where
  "Build t heap decoder =
     (let op = SeqScanNode heap decoder (pt_InputSchema t);
          op = (case pt_WhereExpr t of None \<Rightarrow> op | Some e \<Rightarrow> FilterNode op e) in
      case pt_Projections t of None \<Rightarrow> op | Some es \<Rightarrow> ProjectNode op es (pt_OutputSchema t))"

end
