(* ===== verification/Planner_Rows.thy ===== *)
theory Planner_Rows
  imports Planner_Ops
begin

text \<open>
  What the operators compute, as functions on lists of rows, and the proof that the iterators
  compute it.  The contract of the interface \<open>Operator\<close> is the locale \<open>operator\<close>: from any state,
  \<open>Open\<close> succeeds and \<open>Next\<close> then returns the rows one by one and the end of the stream after the
  last.  Every node keeps the contract of its children.
\<close>

section \<open>The contract\<close>

lemma map_sum_Inr [simp]: "map_sum f g x = Inr y \<longleftrightarrow> (\<exists>a. x = Inr a \<and> y = g a)"
  by (cases x) auto

locale operator =
  fixes ops :: "'s Operator"
    and inv :: "'s \<Rightarrow> bool"
    and at :: "'s \<Rightarrow> Row list \<Rightarrow> bool"
    and rows :: "Row list"
  assumes open_law: "inv s \<Longrightarrow> \<exists>s'. o_Open ops s = Some (s', Inr ()) \<and> at s' rows"
    and next_row: "at s (r # rs) \<Longrightarrow> \<exists>s'. o_Next ops s = Some (s', Inr r) \<and> at s' rs"
    and next_eof: "at s [] \<Longrightarrow> \<exists>s'. o_Next ops s = Some (s', Inl EOF) \<and> at s' []"
    and close_law: "inv s \<Longrightarrow> \<exists>s'. o_Close ops s = (s', Inr ()) \<and> inv s'"
    and at_inv: "at s rs \<Longrightarrow> inv s"

definition implements :: "'s Operator \<Rightarrow> 's \<Rightarrow> Row list \<Rightarrow> bool" where
  "implements ops s rows \<longleftrightarrow> (\<exists>inv at. operator ops inv at rows \<and> inv s)"

text \<open>Reading a whole stream, the loop of every consumer.\<close>

definition collect :: "'s Operator \<Rightarrow> 's \<Rightarrow> ('s \<times> (plan_err + Row list)) option" where
  "collect ops s = fold_next ops (\<lambda>r rows. Inr (rows @ [r])) s []"

fun fold_rows :: "(Row \<Rightarrow> 'a \<Rightarrow> plan_err + 'a) \<Rightarrow> Row list \<Rightarrow> 'a \<Rightarrow> plan_err + 'a" where
  "fold_rows step [] a = Inr a"
| "fold_rows step (r # rs) a = (case step r a of Inl e \<Rightarrow> Inl e | Inr a \<Rightarrow> fold_rows step rs a)"

lemma fold_rows_append: "fold_rows (\<lambda>r rows. Inr (rows @ [r])) rs acc = Inr (acc @ rs)"
  by (induction rs arbitrary: acc) auto

context operator
begin

lemma fold_ok: "at s rs \<Longrightarrow> fold_rows step rs a = Inr b \<Longrightarrow> \<exists>s'. fold_next ops step s a = Some (s', Inr b) \<and> at s' []"
proof (induction rs arbitrary: s a)
  case Nil
  then show ?case using next_eof [OF Nil(1)] by (subst fold_next.simps) auto
next
  case (Cons r rs)
  obtain s' where s': "o_Next ops s = Some (s', Inr r)" "at s' rs" using next_row [OF Cons.prems(1)] by blast
  obtain a' where a': "step r a = Inr a'" "fold_rows step rs a' = Inr b" using Cons.prems(2) by (auto split: sum.splits)
  show ?case using Cons.IH [OF s'(2) a'(2)] s'(1) a'(1) by (simp add: fold_next.simps [of ops step s a])
qed

lemma collect_ok: "inv s \<Longrightarrow> \<exists>s' s''. o_Open ops s = Some (s', Inr ()) \<and> collect ops s' = Some (s'', Inr rows)"
proof -
  assume "inv s"
  then obtain s' where s': "o_Open ops s = Some (s', Inr ())" "at s' rows" using open_law by blast
  have "\<exists>s''. fold_next ops (\<lambda>r rows. Inr (rows @ [r])) s' [] = Some (s'', Inr rows) \<and> at s'' []"
    by (rule fold_ok [OF s'(2)]) (simp add: fold_rows_append)
  then show ?thesis using s'(1) by (auto simp: collect_def)
qed

end

section \<open>Lists of rows\<close>

fun bind_rows :: "(Row \<Rightarrow> plan_err + Row list) \<Rightarrow> Row list \<Rightarrow> plan_err + Row list" where
  "bind_rows f [] = Inr []"
| "bind_rows f (r # rs) = (case f r of Inl e \<Rightarrow> Inl e | Inr xs \<Rightarrow>
     (case bind_rows f rs of Inl e \<Rightarrow> Inl e | Inr ys \<Rightarrow> Inr (xs @ ys)))"

definition select_row :: "BoundExpr \<Rightarrow> Row \<Rightarrow> plan_err + Row list" where
  "select_row pred row = map_sum id (\<lambda>d. if is_true d then [row] else []) (Eval pred row)"

definition filter_rows :: "BoundExpr \<Rightarrow> Row list \<Rightarrow> plan_err + Row list" where
  "filter_rows pred = bind_rows (select_row pred)"

definition project_rows :: "BoundExpr list \<Rightarrow> Row list \<Rightarrow> plan_err + Row list" where
  "project_rows exprs = bind_rows (\<lambda>row. map_sum id (\<lambda>ds. [\<lparr>Datums = ds, RowID = 0\<rparr>]) (eval_all exprs row))"

definition limit_rows :: "int \<Rightarrow> int \<Rightarrow> Row list \<Rightarrow> Row list" where
  "limit_rows lim offset rows = (if lim > 0 then take (nat lim) (drop (nat offset) rows) else drop (nat offset) rows)"

definition sort_rows :: "SortKey list \<Rightarrow> Row list \<Rightarrow> plan_err + Row list" where
  "sort_rows keys rows = SliceStable (sort_less keys) rows"

text \<open>The rows a join makes of one row of the left input.\<close>

definition join_matches :: "BoundExpr option \<Rightarrow> Row \<Rightarrow> Row list \<Rightarrow> plan_err + Row list" where
  "join_matches cond l rights =
     (case cond of None \<Rightarrow> Inr (map (combineRows l) rights) | Some c \<Rightarrow> filter_rows c (map (combineRows l) rights))"

definition join_row :: "bool \<Rightarrow> ESchema \<Rightarrow> BoundExpr option \<Rightarrow> Row list \<Rightarrow> Row \<Rightarrow> plan_err + Row list" where
  "join_row isLeft schema cond rights l =
     map_sum id (\<lambda>ms. if ms = [] \<and> isLeft then [nullPadRight l schema] else ms) (join_matches cond l rights)"

definition nested_rows :: "bool \<Rightarrow> ESchema \<Rightarrow> BoundExpr option \<Rightarrow> Row list \<Rightarrow> Row list \<Rightarrow> plan_err + Row list" where
  "nested_rows isLeft schema cond lefts rights = bind_rows (join_row isLeft schema cond rights) lefts"

text \<open>The rows of the right input with a given key, and the hash join.\<close>

fun keyed_rows :: "nat \<Rightarrow> Row list \<Rightarrow> plan_err + (bytes \<times> Row) list" where
  "keyed_rows k [] = Inr []"
| "keyed_rows k (r # rs) = (case row_hash_key k r of Inl e \<Rightarrow> Inl e | Inr key \<Rightarrow>
     (case keyed_rows k rs of Inl e \<Rightarrow> Inl e | Inr krs \<Rightarrow> Inr ((key, r) # krs)))"

definition bucket :: "bytes \<Rightarrow> (bytes \<times> Row) list \<Rightarrow> Row list" where
  "bucket key krs = (if key = [] then [] else map snd (filter (\<lambda>(k, r). k = key) krs))"

definition hash_rows :: "nat \<Rightarrow> nat \<Rightarrow> bool \<Rightarrow> ESchema \<Rightarrow> BoundExpr option \<Rightarrow> Row list \<Rightarrow> Row list \<Rightarrow> plan_err + Row list" where
  "hash_rows leftKey rightKey isLeft schema residual lefts rights =
     (case keyed_rows rightKey rights of Inl e \<Rightarrow> Inl e | Inr krs \<Rightarrow>
      bind_rows (\<lambda>l. case row_hash_key leftKey l of Inl e \<Rightarrow> Inl e | Inr key \<Rightarrow> join_row isLeft schema residual (bucket key krs) l) lefts)"

section \<open>Scan, filter, projection, limit, sort\<close>

definition scan_item :: "RowDecoder \<Rightarrow> ESchema \<Rightarrow> plan_err + bytes \<times> u64 \<Rightarrow> plan_err + Row" where
  "scan_item decoder schema item = (case item of Inl e \<Rightarrow> Inl e | Inr (encoded, rowID) \<Rightarrow>
     map_sum id (\<lambda>row. row\<lparr>RowID := rowID\<rparr>) (decoder encoded schema))"

definition scan_at :: "TableHeap \<Rightarrow> RowDecoder \<Rightarrow> ESchema \<Rightarrow> Row list \<Rightarrow> iter \<Rightarrow> Row list \<Rightarrow> bool" where
  "scan_at heap decoder schema rows it rs \<longleftrightarrow>
     (\<exists>items. th_Scan heap = Inr items \<and> map (scan_item decoder schema) items = map Inr rows) \<and> th_Close heap = Inr ()
     \<and> (\<exists>items. it = Some items \<and> map (scan_item decoder schema) items = map Inr rs)"

definition scan_inv :: "TableHeap \<Rightarrow> RowDecoder \<Rightarrow> ESchema \<Rightarrow> Row list \<Rightarrow> iter \<Rightarrow> bool" where
  "scan_inv heap decoder schema rows it \<longleftrightarrow>
     (\<exists>items. th_Scan heap = Inr items \<and> map (scan_item decoder schema) items = map Inr rows) \<and> th_Close heap = Inr ()"

interpretation seq_scan: operator "SeqScanNode heap decoder schema" "scan_inv heap decoder schema rows"
    "scan_at heap decoder schema rows" rows for heap decoder schema rows
proof
  fix s r rs assume a: "scan_at heap decoder schema rows s (r # rs)"
  then obtain i items where "s = Some (i # items)" "scan_item decoder schema i = Inr r" "map (scan_item decoder schema) items = map Inr rs"
    by (auto simp: scan_at_def map_eq_Cons_conv)
  then show "\<exists>s'. o_Next (SeqScanNode heap decoder schema) s = Some (s', Inr r) \<and> scan_at heap decoder schema rows s' rs"
    using a by (auto simp: SeqScanNode_def scan_item_def scan_at_def split: sum.splits)
qed (auto simp: SeqScanNode_def scan_Open_def scan_Close_def scan_at_def scan_inv_def split: option.splits)

definition limit_left :: "int \<Rightarrow> int \<Rightarrow> LimitState \<Rightarrow> Row list \<Rightarrow> Row list" where
  "limit_left lim offset n cs = (let ds = drop (nat (offset - li_skipped n)) cs in
     if lim > 0 then take (nat (lim - li_emitted n)) ds else ds)"

lemma limit_left_skip:
  assumes "li_skipped n < offset"
  shows "limit_left lim offset (n\<lparr>li_skipped := li_skipped n + 1\<rparr>) cs = limit_left lim offset n (x # cs)"
proof -
  have "nat (offset - li_skipped n) = Suc (nat (offset - (li_skipped n + 1)))" using assms by simp
  then show ?thesis by (simp add: limit_left_def Let_def)
qed

context operator
begin

lemma filter_next:
  "at s cs \<Longrightarrow> filter_rows pred cs = Inr (r # rs) \<Longrightarrow>
   \<exists>s'. filter_Next ops pred s = Some (s', Inr r) \<and> (\<exists>cs. at s' cs \<and> filter_rows pred cs = Inr rs)"
proof (induction cs arbitrary: s)
  case (Cons c cs)
  obtain s' where s': "o_Next ops s = Some (s', Inr c)" "at s' cs" using next_row [OF Cons.prems(1)] by blast
  obtain d ys where d: "Eval pred c = Inr d" "filter_rows pred cs = Inr ys" "r # rs = (if is_true d then [c] else []) @ ys"
    using Cons.prems(2) by (auto simp: filter_rows_def select_row_def split: sum.splits)
  show ?case using Cons.IH [OF s'(2)] s' d by (subst filter_Next.simps) (auto split: if_splits)
qed (simp add: filter_rows_def)

lemma filter_eof:
  "at s cs \<Longrightarrow> filter_rows pred cs = Inr [] \<Longrightarrow> \<exists>s'. filter_Next ops pred s = Some (s', Inl EOF) \<and> at s' []"
proof (induction cs arbitrary: s)
  case Nil
  then show ?case using next_eof [OF Nil(1)] by (subst filter_Next.simps) auto
next
  case (Cons c cs)
  obtain s' where s': "o_Next ops s = Some (s', Inr c)" "at s' cs" using next_row [OF Cons.prems(1)] by blast
  obtain d where d: "Eval pred c = Inr d" "filter_rows pred cs = Inr []" "\<not> is_true d"
    using Cons.prems(2) by (auto simp: filter_rows_def select_row_def split: sum.splits if_splits)
  show ?case using Cons.IH [OF s'(2)] s' d by (subst filter_Next.simps) auto
qed

lemma filter_contract:
  assumes "filter_rows pred rows = Inr out"
  shows "operator (FilterNode ops pred) inv (\<lambda>s rs. \<exists>cs. at s cs \<and> filter_rows pred cs = Inr rs) out"
proof
  show "\<exists>s'. o_Next (FilterNode ops pred) s = Some (s', Inl EOF) \<and> (\<exists>cs. at s' cs \<and> filter_rows pred cs = Inr [])"
    if "\<exists>cs. at s cs \<and> filter_rows pred cs = Inr []" for s
    using that filter_eof [of s _ pred] by (fastforce simp: FilterNode_def filter_rows_def)
qed (use assms open_law close_law at_inv filter_next in \<open>fastforce simp: FilterNode_def\<close>)+

lemma project_contract:
  assumes "project_rows exprs rows = Inr out"
  shows "operator (ProjectNode ops exprs schema) inv (\<lambda>s rs. \<exists>cs. at s cs \<and> project_rows exprs cs = Inr rs) out"
proof
  fix s r rs assume "\<exists>cs. at s cs \<and> project_rows exprs cs = Inr (r # rs)"
  then obtain c cs where c: "at s (c # cs)" "project_rows exprs (c # cs) = Inr (r # rs)"
    by (metis bind_rows.simps(1) list.exhaust list.simps(3) project_rows_def sum.inject(2))
  then obtain s' where "o_Next ops s = Some (s', Inr c)" "at s' cs" using next_row by blast
  then show "\<exists>s'. o_Next (ProjectNode ops exprs schema) s = Some (s', Inr r) \<and> (\<exists>cs. at s' cs \<and> project_rows exprs cs = Inr rs)"
    using c(2) by (auto simp: ProjectNode_def project_Next_def project_rows_def split: sum.splits)
next
  fix s assume "\<exists>cs. at s cs \<and> project_rows exprs cs = Inr []"
  then obtain cs where c: "at s cs" "project_rows exprs cs = Inr []" by blast
  then have "cs = []" by (cases cs) (auto simp: project_rows_def split: sum.splits)
  then show "\<exists>s'. o_Next (ProjectNode ops exprs schema) s = Some (s', Inl EOF) \<and> (\<exists>cs. at s' cs \<and> project_rows exprs cs = Inr [])"
    using c next_eof [of s] by (fastforce simp: ProjectNode_def project_Next_def project_rows_def)
qed (use assms open_law close_law at_inv in \<open>fastforce simp: ProjectNode_def\<close>)+

text \<open>What is left of a limit; one that is used up stays so.\<close>

lemma limit_next:
  "at c cs \<Longrightarrow> limit_left lim offset n cs = r # rs \<Longrightarrow>
   \<exists>c' n'. limit_Next ops lim offset (c, n) = Some ((c', n'), Inr r) \<and> (\<exists>cs. at c' cs \<and> limit_left lim offset n' cs = rs)"
proof (induction cs arbitrary: c n)
  case (Cons x cs)
  obtain c' where c': "o_Next ops c = Some (c', Inr x)" "at c' cs" using next_row [OF Cons.prems(1)] by blast
  show ?case
  proof (cases "li_skipped n < offset")
    case True
    then have "limit_left lim offset (n\<lparr>li_skipped := li_skipped n + 1\<rparr>) cs = r # rs"
      using Cons.prems(2) limit_left_skip by simp
    from Cons.IH [OF c'(2) this] show ?thesis using True c' by (subst limit_Next.simps) auto
  next
    case False
    then have x: "x = r" "\<not> (lim > 0 \<and> li_emitted n + 1 > lim)"
      using Cons.prems(2) by (auto simp: limit_left_def Let_def take_Cons' split: if_splits)
    have "nat (lim - (li_emitted n + 1)) = nat (lim - li_emitted n) - Suc 0" by arith
    then have "limit_left lim offset (n\<lparr>li_emitted := li_emitted n + 1\<rparr>) cs = rs"
      using Cons.prems(2) False by (auto simp: limit_left_def Let_def take_Cons' split: if_splits)
    then show ?thesis using False c' x by (subst limit_Next.simps) (auto simp: Let_def)
  qed
qed (simp add: limit_left_def Let_def split: if_splits)

lemma limit_eof:
  "at c cs \<Longrightarrow> limit_left lim offset n cs = [] \<Longrightarrow>
   \<exists>c' n'. limit_Next ops lim offset (c, n) = Some ((c', n'), Inl EOF) \<and> (\<exists>cs. at c' cs \<and> limit_left lim offset n' cs = [])"
proof (induction cs arbitrary: c n)
  case Nil
  then show ?case using next_eof [OF Nil(1)] by (subst limit_Next.simps) (force simp: limit_left_def)
next
  case (Cons x cs)
  obtain c' where c': "o_Next ops c = Some (c', Inr x)" "at c' cs" using next_row [OF Cons.prems(1)] by blast
  show ?case
  proof (cases "li_skipped n < offset")
    case True
    then have "limit_left lim offset (n\<lparr>li_skipped := li_skipped n + 1\<rparr>) cs = []"
      using Cons.prems(2) limit_left_skip by simp
    from Cons.IH [OF c'(2) this] show ?thesis using True c' by (subst limit_Next.simps) auto
  next
    case False
    then have l: "lim > 0" "li_emitted n + 1 > lim" using Cons.prems(2) by (auto simp: limit_left_def Let_def take_Cons' split: if_splits)
    then have "limit_left lim offset (n\<lparr>li_emitted := li_emitted n + 1\<rparr>) cs = []" by (simp add: limit_left_def)
    then show ?thesis using False c' l by (subst limit_Next.simps) (auto simp: Let_def)
  qed
qed

lemma limit_contract:
  "operator (LimitNode ops lim offset) (\<lambda>s. inv (fst s))
     (\<lambda>s rs. \<exists>cs. at (fst s) cs \<and> limit_left lim offset (snd s) cs = rs) (limit_rows lim offset rows)"
proof
  show "\<exists>s'. o_Open (LimitNode ops lim offset) s = Some (s', Inr ())
      \<and> (\<exists>cs. at (fst s') cs \<and> limit_left lim offset (snd s') cs = limit_rows lim offset rows)" if "inv (fst s)" for s
    using open_law [OF that] by (cases s) (fastforce simp: LimitNode_def limit_Open_def limit_left_def limit_rows_def Let_def)
next
  fix s r rs assume "\<exists>cs. at (fst s) cs \<and> limit_left lim offset (snd s) cs = r # rs"
  then show "\<exists>s'. o_Next (LimitNode ops lim offset) s = Some (s', Inr r) \<and> (\<exists>cs. at (fst s') cs \<and> limit_left lim offset (snd s') cs = rs)"
    using limit_next [of "fst s" _ lim offset "snd s" r rs] by (fastforce simp: LimitNode_def)
next
  fix s assume "\<exists>cs. at (fst s) cs \<and> limit_left lim offset (snd s) cs = []"
  then show "\<exists>s'. o_Next (LimitNode ops lim offset) s = Some (s', Inl EOF) \<and> (\<exists>cs. at (fst s') cs \<and> limit_left lim offset (snd s') cs = [])"
    using limit_eof [of "fst s" _ lim offset "snd s"] by (fastforce simp: LimitNode_def)
next
  show "\<exists>s'. o_Close (LimitNode ops lim offset) s = (s', Inr ()) \<and> inv (fst s')" if "inv (fst s)" for s
    using close_law [OF that] by (cases s) (auto simp: LimitNode_def limit_Close_def)
qed (use at_inv in blast)

lemma sort_contract:
  assumes "sort_rows keys rows = Inr out"
  shows "operator (SortNode ops keys) (\<lambda>s. inv (fst s))
     (\<lambda>s rs. inv (fst s) \<and> so_opened (snd s) \<and> rs = drop (so_rowIdx (snd s)) (so_rows (snd s))) out"
proof
  fix s :: "'s \<times> SortState" assume "inv (fst s)"
  then obtain c where c: "o_Open ops (fst s) = Some (c, Inr ())" "at c rows" using open_law by blast
  have "\<exists>c'. fold_next ops (\<lambda>r rows. Inr (rows @ [r])) c [] = Some (c', Inr rows) \<and> at c' []"
    by (rule fold_ok [OF c(2)]) (simp add: fold_rows_append)
  then show "\<exists>s'. o_Open (SortNode ops keys) s = Some (s', Inr ()) \<and> inv (fst s') \<and> so_opened (snd s')
      \<and> out = drop (so_rowIdx (snd s')) (so_rows (snd s'))"
    using c(1) assms at_inv by (cases s) (auto simp: SortNode_def sort_Open_def sort_rows_def)
next
  fix s :: "'s \<times> SortState" and r rs
  assume a: "inv (fst s) \<and> so_opened (snd s) \<and> r # rs = drop (so_rowIdx (snd s)) (so_rows (snd s))"
  then have "so_rowIdx (snd s) < length (so_rows (snd s))" by (metis drop_all list.simps(3) not_le)
  moreover from this have "r = so_rows (snd s) ! so_rowIdx (snd s)" "rs = drop (Suc (so_rowIdx (snd s))) (so_rows (snd s))"
    using a by (metis Cons_nth_drop_Suc list.inject)+
  ultimately show "\<exists>s'. o_Next (SortNode ops keys) s = Some (s', Inr r) \<and> inv (fst s') \<and> so_opened (snd s')
      \<and> rs = drop (so_rowIdx (snd s')) (so_rows (snd s'))"
    using a by (cases s) (auto simp: SortNode_def sort_Next_def)
next
  show "\<exists>s'. o_Close (SortNode ops keys) s = (s', Inr ()) \<and> inv (fst s')" if "inv (fst s)" for s
    using close_law [OF that] by (cases s) (auto simp: SortNode_def sort_Close_def)
qed (auto simp: SortNode_def sort_Next_def)

end

end
