(* ===== verification/Planner_Join.thy ===== *)
theory Planner_Join
  imports Planner_Rows
begin

text \<open>
  The joins.  The contract of two operators gives the contract of both join nodes over them, for the
  join functions on lists of rows; on them, the hash join and the nested loop join with the same
  condition give the same rows in the same order.
\<close>

section \<open>The nested loop join\<close>

definition cond_holds :: "BoundExpr option \<Rightarrow> Row \<Rightarrow> plan_err + bool" where
  "cond_holds cond row = (case cond of None \<Rightarrow> Inr True | Some c \<Rightarrow> map_sum id is_true (Eval c row))"

lemma join_matches_Nil [simp]: "join_matches cond l [] = Inr []"
  by (simp add: join_matches_def filter_rows_def split: option.split)

lemma join_matches_Cons:
  "join_matches cond l (x # xs) = Inr ms \<longleftrightarrow> (\<exists>b ms'. cond_holds cond (combineRows l x) = Inr b
     \<and> join_matches cond l xs = Inr ms' \<and> ms = (if b then [combineRows l x] else []) @ ms')"
proof (cases cond)
  case (Some c)
  show ?thesis
  proof (cases "Eval c (combineRows l x)")
    case e: (Inr d)
    then show ?thesis
      using Some by (cases "filter_rows c (map (combineRows l) xs)")
        (auto simp: join_matches_def cond_holds_def filter_rows_def select_row_def)
  qed (simp add: Some join_matches_def cond_holds_def filter_rows_def select_row_def)
qed (auto simp: join_matches_def cond_holds_def)

text \<open>The rows still to come: the rest of the current left row, then the following left rows.\<close>

definition nlj_rest :: "ESchema \<Rightarrow> Row list \<Rightarrow> BoundExpr option \<Rightarrow> bool \<Rightarrow> Row \<Rightarrow> bool \<Rightarrow> Row list \<Rightarrow> Row list \<Rightarrow> Row list \<Rightarrow> bool" where
  "nlj_rest schema rights cond isLeft lr matched ls rs out \<longleftrightarrow> (\<exists>ms out'. join_matches cond lr rs = Inr ms
     \<and> nested_rows isLeft schema cond ls rights = Inr out'
     \<and> out = (if ms = [] \<and> isLeft \<and> \<not> matched then [nullPadRight lr schema] else ms) @ out')"

lemma nested_rows_Cons:
  "nested_rows isLeft schema cond (l # ls) rights = Inr out \<longleftrightarrow> nlj_rest schema rights cond isLeft l False ls rights out"
proof (cases "join_matches cond l rights")
  case (Inr ms)
  then show ?thesis
    by (cases "nested_rows isLeft schema cond ls rights") (auto simp: nested_rows_def nlj_rest_def join_row_def)
qed (simp add: nested_rows_def nlj_rest_def join_row_def)

lemma nested_rows_Nil [simp]: "nested_rows isLeft schema cond [] rights = Inr []"
  by (simp add: nested_rows_def)

locale two_operators = lop: operator left linv lat lefts + rop: operator right rinv rat rights
  for left :: "'l Operator" and linv lat lefts and right :: "'r Operator" and rinv rat rights
begin

definition nlj_at :: "BoundExpr option \<Rightarrow> bool \<Rightarrow> 'l \<times> 'r \<times> NljState \<Rightarrow> Row list \<Rightarrow> bool" where
  "nlj_at cond isLeft s out \<longleftrightarrow> (case s of (l, r, n) \<Rightarrow> rinv r \<and>
     (if Datums (nl_leftRow n) = [] then linv l \<and> out = []
      else (\<exists>ls rs. lat l ls \<and> rat r rs \<and> (\<forall>x \<in> set ls. Datums x \<noteq> [])
        \<and> nlj_rest (o_Schema right) rights cond isLeft (nl_leftRow n) (nl_leftMatched n) ls rs out)))"

lemma nlj_atI:
  "lat l ls \<Longrightarrow> rat r rs \<Longrightarrow> Datums (nl_leftRow n) \<noteq> [] \<Longrightarrow> \<forall>x \<in> set ls. Datums x \<noteq> [] \<Longrightarrow>
   nlj_rest (o_Schema right) rights cond isLeft (nl_leftRow n) (nl_leftMatched n) ls rs out \<Longrightarrow> nlj_at cond isLeft (l, r, n) out"
  using rop.at_inv by (auto simp: nlj_at_def)

lemma nlj_at_end: "linv l \<Longrightarrow> rinv r \<Longrightarrow> nlj_at cond isLeft (l, r, n\<lparr>nl_leftRow := no_row\<rparr>) []"
  by (simp add: nlj_at_def no_row_def)

lemma reopen_right:
  assumes "rat r rs"
  obtains r1 r2 where "o_Close right r = (r1, Inr ())" "o_Open right r1 = Some (r2, Inr ())" "rat r2 rights"
  using rop.close_law rop.open_law rop.at_inv assms by metis

text \<open>The result of one call of \<open>Next\<close> when the rows to come are \<open>out\<close>.\<close>

definition nlj_step :: "BoundExpr option \<Rightarrow> bool \<Rightarrow> 'l \<times> 'r \<times> NljState \<Rightarrow> Row list \<Rightarrow> bool" where
  "nlj_step cond isLeft s out \<longleftrightarrow> (\<exists>s'. nlj_Next left right cond isLeft s
       = Some (s', case out of [] \<Rightarrow> Inl EOF | x # _ \<Rightarrow> Inr x) \<and> nlj_at cond isLeft s' (tl out))"

text \<open>The right input is used up.\<close>

lemma nlj_advance:
  assumes "lat l ls" "rat r []" "Datums (nl_leftRow n) \<noteq> []" "\<forall>x \<in> set ls. Datums x \<noteq> []"
    and out: "nlj_rest (o_Schema right) rights cond isLeft (nl_leftRow n) (nl_leftMatched n) ls [] out"
    and IH: "\<And>l1 ls' l' r' n'. ls = l1 # ls' \<Longrightarrow> lat l' ls' \<Longrightarrow> rat r' rights \<Longrightarrow> nl_leftRow n' = l1 \<Longrightarrow> \<not> nl_leftMatched n' \<Longrightarrow>
      nlj_rest (o_Schema right) rights cond isLeft l1 False ls' rights out \<Longrightarrow> nlj_step cond isLeft (l', r', n') out"
  shows "nlj_step cond isLeft (l, r, n) out"
proof -
  obtain r0 where r0: "o_Next right r = Some (r0, Inl EOF)" "rat r0 []" using rop.next_eof [OF assms(2)] by blast
  obtain r1 r2 where r2: "o_Close right r0 = (r1, Inr ())" "o_Open right r1 = Some (r2, Inr ())" "rat r2 rights"
    using reopen_right [OF r0(2)] .
  obtain out' where o: "nested_rows isLeft (o_Schema right) cond ls rights = Inr out'"
    "out = (if isLeft \<and> \<not> nl_leftMatched n then [nullPadRight (nl_leftRow n) (o_Schema right)] else []) @ out'"
    using out by (auto simp: nlj_rest_def)
  show ?thesis
  proof (cases ls)
    case Nil
    then obtain l' where l': "o_Next left l = Some (l', Inl EOF)" "lat l' []" using lop.next_eof assms(1) by blast
    have "nlj_at cond isLeft (l', r2, n\<lparr>nl_leftRow := no_row\<rparr>) []" using nlj_at_end lop.at_inv rop.at_inv l'(2) r2(3) by blast
    then show ?thesis using r0(1) r2(1,2) l'(1) o Nil assms(3) unfolding nlj_step_def by (subst nlj_Next.simps) auto
  next
    case (Cons l1 ls')
    then obtain l' where l': "o_Next left l = Some (l', Inr l1)" "lat l' ls'" using lop.next_row assms(1) by blast
    let ?n = "n\<lparr>nl_leftRow := l1, nl_leftMatched := False\<rparr>"
    have more: "nlj_rest (o_Schema right) rights cond isLeft l1 False ls' rights out'"
      using o(1) Cons nested_rows_Cons by blast
    show ?thesis
    proof (cases "isLeft \<and> \<not> nl_leftMatched n")
      case True
      have "nlj_at cond isLeft (l', r2, ?n) out'" using nlj_atI [OF l'(2) r2(3), of ?n] more assms(4) Cons by simp
      then show ?thesis using True r0(1) r2(1,2) l'(1) o(2) assms(3) unfolding nlj_step_def by (subst nlj_Next.simps) auto
    next
      case False
      then have "nlj_step cond isLeft (l', r2, ?n) out" using IH [OF Cons l'(2) r2(3), of ?n] more o(2) by auto
      then show ?thesis using False r0(1) r2(1,2) l'(1) assms(3) unfolding nlj_step_def
        by (subst nlj_Next.simps) auto
    qed
  qed
qed

lemma nlj_next:
  assumes "lat l ls" "rat r rs" "Datums (nl_leftRow n) \<noteq> []" "\<forall>x \<in> set ls. Datums x \<noteq> []"
    and "nlj_rest (o_Schema right) rights cond isLeft (nl_leftRow n) (nl_leftMatched n) ls rs out"
  shows "nlj_step cond isLeft (l, r, n) out"
  using assms
proof (induction "length ls" arbitrary: l ls r rs n rule: less_induct)
  case less
  note IH = less.hyps
  from less.prems show ?case
  proof (induction rs arbitrary: r n)
    case Nil
    show ?case
    proof (rule nlj_advance [OF Nil.prems])
      fix l1 ls' l' r' and n' :: NljState
      assume a: "ls = l1 # ls'" "lat l' ls'" "rat r' rights" "nl_leftRow n' = l1" "\<not> nl_leftMatched n'"
        "nlj_rest (o_Schema right) rights cond isLeft l1 False ls' rights out"
      show "nlj_step cond isLeft (l', r', n') out"
        by (rule IH [OF _ a(2,3)]) (use a Nil.prems(4) in auto)
    qed
  next
    case (Cons x rs)
    obtain r' where r': "o_Next right r = Some (r', Inr x)" "rat r' rs" using rop.next_row [OF Cons.prems(2)] by blast
    let ?j = "combineRows (nl_leftRow n) x"
    obtain b ms out' where m: "cond_holds cond ?j = Inr b" "join_matches cond (nl_leftRow n) rs = Inr ms"
      "nested_rows isLeft (o_Schema right) cond ls rights = Inr out'"
      "out = (if (if b then [?j] else []) @ ms = [] \<and> isLeft \<and> \<not> nl_leftMatched n then [nullPadRight (nl_leftRow n) (o_Schema right)]
        else (if b then [?j] else []) @ ms) @ out'"
      using Cons.prems(5) unfolding nlj_rest_def join_matches_Cons by blast
    show ?case
    proof (cases b)
      case True
      let ?n = "n\<lparr>nl_leftMatched := True\<rparr>"
      have "nlj_rest (o_Schema right) rights cond isLeft (nl_leftRow n) True ls rs (ms @ out')"
        using m(2,3) by (auto simp: nlj_rest_def)
      then have "nlj_at cond isLeft (l, r', ?n) (ms @ out')" using nlj_atI [OF Cons.prems(1) r'(2), of ?n] Cons.prems(3,4) by simp
      then show ?thesis using True m(1,4) r'(1) Cons.prems(3) unfolding nlj_step_def
        by (subst nlj_Next.simps) (cases cond; auto simp: cond_holds_def Let_def)
    next
      case False
      then have "nlj_rest (o_Schema right) rights cond isLeft (nl_leftRow n) (nl_leftMatched n) ls rs out"
        using m by (auto simp: nlj_rest_def)
      from Cons.IH [OF Cons.prems(1) r'(2) Cons.prems(3,4) this] show ?thesis
        using False m(1) r'(1) Cons.prems(3) unfolding nlj_step_def
        by (subst nlj_Next.simps) (cases cond; auto simp: cond_holds_def Let_def)
    qed
  qed
qed

lemma nlj_at_next: "nlj_at cond isLeft s out \<Longrightarrow> nlj_step cond isLeft s out"
proof -
  assume a: "nlj_at cond isLeft s out"
  obtain l r n where s: "s = (l, r, n)" by (cases s)
  show ?thesis
  proof (cases "Datums (nl_leftRow n) = []")
    case True
    then show ?thesis using a s unfolding nlj_step_def by (subst nlj_Next.simps) (auto simp: nlj_at_def)
  next
    case False
    then show ?thesis using a s nlj_next by (auto simp: nlj_at_def)
  qed
qed

lemma nlj_contract:
  assumes "nested_rows isLeft (o_Schema right) cond lefts rights = Inr out" "\<forall>x \<in> set lefts. Datums x \<noteq> []"
  shows "operator (NestedLoopJoinNode left right cond isLeft) (\<lambda>(l, r, n). linv l \<and> rinv r) (nlj_at cond isLeft) out"
proof
  fix s :: "'l \<times> 'r \<times> NljState" assume a: "case s of (l, r, n) \<Rightarrow> linv l \<and> rinv r"
  obtain l r n where s: "s = (l, r, n)" by (cases s)
  obtain l' r' where o: "o_Open left l = Some (l', Inr ())" "lat l' lefts" "o_Open right r = Some (r', Inr ())" "rat r' rights"
    using a s lop.open_law rop.open_law by fastforce
  show "\<exists>s'. o_Open (NestedLoopJoinNode left right cond isLeft) s = Some (s', Inr ()) \<and> nlj_at cond isLeft s' out"
  proof (cases lefts)
    case Nil
    then obtain l2 where "o_Next left l' = Some (l2, Inl EOF)" "lat l2 []" using lop.next_eof o(2) by blast
    then show ?thesis using o Nil assms(1) s nlj_at_end lop.at_inv rop.at_inv
      by (auto simp: NestedLoopJoinNode_def nlj_Open_def)
  next
    case (Cons l1 ls)
    then obtain l2 where l2: "o_Next left l' = Some (l2, Inr l1)" "lat l2 ls" using lop.next_row o(2) by blast
    let ?n = "n\<lparr>nl_leftRow := l1, nl_leftMatched := False\<rparr>"
    have "nlj_at cond isLeft (l2, r', ?n) out"
      using nlj_atI [OF l2(2) o(4), of ?n] assms Cons nested_rows_Cons by simp
    then show ?thesis using o(1,3) l2(1) s by (auto simp: NestedLoopJoinNode_def nlj_Open_def)
  qed
next
  fix s r rs assume "nlj_at cond isLeft s (r # rs)"
  then show "\<exists>s'. o_Next (NestedLoopJoinNode left right cond isLeft) s = Some (s', Inr r) \<and> nlj_at cond isLeft s' rs"
    using nlj_at_next by (fastforce simp: NestedLoopJoinNode_def nlj_step_def)
next
  fix s assume "nlj_at cond isLeft s []"
  then show "\<exists>s'. o_Next (NestedLoopJoinNode left right cond isLeft) s = Some (s', Inl EOF) \<and> nlj_at cond isLeft s' []"
    using nlj_at_next by (fastforce simp: NestedLoopJoinNode_def nlj_step_def)
next
  fix s :: "'l \<times> 'r \<times> NljState" assume a: "case s of (l, r, n) \<Rightarrow> linv l \<and> rinv r"
  obtain l r n where s: "s = (l, r, n)" by (cases s)
  obtain l' r' where "o_Close left l = (l', Inr ())" "linv l'" "o_Close right r = (r', Inr ())" "rinv r'"
    using a s lop.close_law rop.close_law by fastforce
  then show "\<exists>s'. o_Close (NestedLoopJoinNode left right cond isLeft) s = (s', Inr ()) \<and> (case s' of (l, r, n) \<Rightarrow> linv l \<and> rinv r)"
    using s by (auto simp: NestedLoopJoinNode_def nlj_Close_def close_both_def)
next
  fix s rs assume "nlj_at cond isLeft s rs"
  then show "case s of (l, r, n) \<Rightarrow> linv l \<and> rinv r" using lop.at_inv by (auto simp: nlj_at_def split: if_splits)
qed

section \<open>The hash join\<close>

text \<open>The rows still to come: the matches of the current probe row, then the following left rows.\<close>

definition hash_rest :: "bool \<Rightarrow> BoundExpr option \<Rightarrow> (Row \<Rightarrow> plan_err + Row list) \<Rightarrow> HashState \<Rightarrow> Row list \<Rightarrow> Row list \<Rightarrow> bool" where
  "hash_rest isLeft residual f n ls out \<longleftrightarrow> (\<exists>ms out'. bind_rows f ls = Inr out'
     \<and> join_matches residual (hj_activeProbe n) (drop (hj_matchIdx n) (hj_activeMatches n)) = Inr ms
     \<and> out = (if ms = [] \<and> isLeft \<and> Datums (hj_activeProbe n) \<noteq> [] \<and> \<not> hj_matchedAny n
              then [nullPadRight (hj_activeProbe n) (o_Schema right)] else ms) @ out')"

definition probe_row :: "nat \<Rightarrow> bool \<Rightarrow> BoundExpr option \<Rightarrow> (bytes \<times> Row) list \<Rightarrow> Row \<Rightarrow> plan_err + Row list" where
  "probe_row leftKey isLeft residual krs l = (case row_hash_key leftKey l of Inl e \<Rightarrow> Inl e
     | Inr key \<Rightarrow> join_row isLeft (o_Schema right) residual (bucket key krs) l)"

definition table_of :: "(bytes \<times> Row) list \<Rightarrow> (bytes \<times> Row list) list \<Rightarrow> bool" where
  "table_of krs table \<longleftrightarrow> (\<forall>key. key \<noteq> [] \<longrightarrow> hash_lookup key table = bucket key krs)"

definition hash_at :: "nat \<Rightarrow> bool \<Rightarrow> BoundExpr option \<Rightarrow> (bytes \<times> Row) list \<Rightarrow> 'l \<times> 'r \<times> HashState \<Rightarrow> Row list \<Rightarrow> bool" where
  "hash_at leftKey isLeft residual krs s out \<longleftrightarrow> (case s of (l, r, n) \<Rightarrow> rinv r \<and> table_of krs (hj_hashTable n)
     \<and> (\<exists>ls. lat l ls \<and> hash_rest isLeft residual (probe_row leftKey isLeft residual krs) n ls out))"

lemma build_table:
  assumes "keyed_rows k rs = Inr krs" "table_of krs0 table"
  shows "\<exists>table'. fold_rows (hash_build k) rs table = Inr table' \<and> table_of (krs0 @ krs) table'"
  using assms
proof (induction rs arbitrary: krs krs0 table)
  case (Cons r rs)
  obtain key krs' where k: "row_hash_key k r = Inr key" "keyed_rows k rs = Inr krs'" "krs = (key, r) # krs'"
    using Cons.prems(1) by (auto split: sum.splits)
  let ?t = "if key = [] then table else AList.update key (hash_lookup key table @ [r]) table"
  have "table_of (krs0 @ [(key, r)]) ?t"
    using Cons.prems(2) by (auto simp: table_of_def bucket_def hash_lookup_def update_conv)
  from Cons.IH [OF k(2) this] show ?case using k(1,3) by (simp add: hash_build_def)
qed simp

text \<open>The result of one call of \<open>Next\<close> when the rows to come are \<open>out\<close>.\<close>

definition hash_step :: "nat \<Rightarrow> bool \<Rightarrow> BoundExpr option \<Rightarrow> (bytes \<times> Row) list \<Rightarrow> 'l \<times> 'r \<times> HashState \<Rightarrow> Row list \<Rightarrow> bool" where
  "hash_step leftKey isLeft residual krs s out \<longleftrightarrow> (\<exists>s'. hash_Next left right leftKey isLeft residual s
       = Some (s', case out of [] \<Rightarrow> Inl EOF | x # _ \<Rightarrow> Inr x) \<and> hash_at leftKey isLeft residual krs s' (tl out))"

text \<open>The matches of the probe row are used up.\<close>

lemma hash_advance:
  assumes a: "lat l ls" "rinv r" "table_of krs (hj_hashTable n)" "\<not> hj_matchIdx n < length (hj_activeMatches n)"
    and out: "hash_rest isLeft residual (probe_row leftKey isLeft residual krs) n ls out"
    and IH: "\<And>l1 ls' l' n'. ls = l1 # ls' \<Longrightarrow> lat l' ls' \<Longrightarrow> table_of krs (hj_hashTable n') \<Longrightarrow>
      hash_rest isLeft residual (probe_row leftKey isLeft residual krs) n' ls' out \<Longrightarrow>
      hash_step leftKey isLeft residual krs (l', r, n') out"
  shows "hash_step leftKey isLeft residual krs (l, r, n) out"
proof -
  let ?f = "probe_row leftKey isLeft residual krs" and ?pad = "isLeft \<and> Datums (hj_activeProbe n) \<noteq> [] \<and> \<not> hj_matchedAny n"
  obtain out' where o: "bind_rows ?f ls = Inr out'"
    "out = (if ?pad then [nullPadRight (hj_activeProbe n) (o_Schema right)] else []) @ out'"
    using out a(4) by (auto simp: hash_rest_def)
  show ?thesis
  proof (cases ?pad)
    case True
    have "hash_rest isLeft residual ?f (n\<lparr>hj_activeProbe := no_row\<rparr>) ls out'"
      using o(1) a(4) by (simp add: hash_rest_def no_row_def)
    then have "hash_at leftKey isLeft residual krs (l, r, n\<lparr>hj_activeProbe := no_row\<rparr>) out'"
      using a by (auto simp: hash_at_def)
    then show ?thesis using True a(4) o(2) unfolding hash_step_def by (subst hash_Next.simps) auto
  next
    case False
    show ?thesis
    proof (cases ls)
      case Nil
      then obtain l' where l': "o_Next left l = Some (l', Inl EOF)" "lat l' []" using lop.next_eof a(1) by blast
      have "hash_at leftKey isLeft residual krs (l', r, n) []"
        using False a l'(2) by (auto simp: hash_at_def hash_rest_def intro!: exI [of _ "[]"])
      then show ?thesis using False a(4) o Nil l'(1) unfolding hash_step_def by (subst hash_Next.simps) auto
    next
      case (Cons l1 ls')
      then obtain l' where l': "o_Next left l = Some (l', Inr l1)" "lat l' ls'" using lop.next_row a(1) by blast
      obtain x y where x: "?f l1 = Inr x" "bind_rows ?f ls' = Inr y" "out' = x @ y" using o(1) Cons by (auto split: sum.splits)
      obtain key where key: "row_hash_key leftKey l1 = Inr key" "join_row isLeft (o_Schema right) residual (bucket key krs) l1 = Inr x"
        using x(1) by (auto simp: probe_row_def split: sum.splits)
      have "Datums l1 \<noteq> []" using key(1) by (auto simp: row_hash_key_def split: if_splits)
      let ?n = "n\<lparr>hj_activeProbe := l1, hj_matchedAny := False,
        hj_activeMatches := if key = [] then [] else hash_lookup key (hj_hashTable n), hj_matchIdx := 0\<rparr>"
      have b: "hj_activeMatches ?n = bucket key krs" using a(3) by (auto simp: table_of_def bucket_def)
      obtain ms where "join_matches residual l1 (bucket key krs) = Inr ms"
        "x = (if ms = [] \<and> isLeft then [nullPadRight l1 (o_Schema right)] else ms)" using key(2) by (auto simp: join_row_def)
      moreover have "out = x @ y" using o(2) x(3) False by simp
      ultimately have "hash_rest isLeft residual ?f ?n ls' out"
        using x(2) \<open>Datums l1 \<noteq> []\<close> unfolding hash_rest_def b by (intro exI [of _ ms] exI [of _ y]) simp
      then have "hash_step leftKey isLeft residual krs (l', r, ?n) out" using IH [OF Cons l'(2), of ?n] a(3) by simp
      moreover have "hash_Next left right leftKey isLeft residual (l, r, n) = hash_Next left right leftKey isLeft residual (l', r, ?n)"
        using False a(4) l'(1) key(1) by (subst hash_Next.simps) (auto simp: Let_def)
      ultimately show ?thesis unfolding hash_step_def by simp
    qed
  qed
qed

lemma hash_next:
  assumes "lat l ls" "rinv r" "table_of krs (hj_hashTable n)"
    and "hash_rest isLeft residual (probe_row leftKey isLeft residual krs) n ls out"
  shows "hash_step leftKey isLeft residual krs (l, r, n) out"
  using assms
proof (induction "length ls" arbitrary: l ls n rule: less_induct)
  case less
  note IH = less.hyps
  from less.prems show ?case
  proof (induction "length (hj_activeMatches n) - hj_matchIdx n" arbitrary: n)
    case 0
    show ?case
    proof (rule hash_advance [OF "0.prems"(1-3) _ "0.prems"(4)])
      show "\<not> hj_matchIdx n < length (hj_activeMatches n)" using "0.hyps" by simp
    next
      fix l1 ls' l' and n' :: HashState
      assume a: "ls = l1 # ls'" "lat l' ls'" "table_of krs (hj_hashTable n')"
        "hash_rest isLeft residual (probe_row leftKey isLeft residual krs) n' ls' out"
      show "hash_step leftKey isLeft residual krs (l', r, n') out"
        by (rule IH [OF _ a(2) less.prems(2) a(3,4)]) (use a(1) in simp)
    qed
  next
    case (Suc k)
    let ?f = "probe_row leftKey isLeft residual krs" and ?j = "combineRows (hj_activeProbe n) (hj_activeMatches n ! hj_matchIdx n)"
    let ?n = "n\<lparr>hj_matchIdx := hj_matchIdx n + 1\<rparr>"
    have i: "hj_matchIdx n < length (hj_activeMatches n)" and k: "k = length (hj_activeMatches ?n) - hj_matchIdx ?n"
      using Suc.hyps(2) by simp_all
    have d: "drop (hj_matchIdx n) (hj_activeMatches n) = hj_activeMatches n ! hj_matchIdx n # drop (Suc (hj_matchIdx n)) (hj_activeMatches n)"
      using i by (rule Cons_nth_drop_Suc [symmetric])
    obtain b ms out' where m: "cond_holds residual ?j = Inr b"
      "join_matches residual (hj_activeProbe n) (drop (Suc (hj_matchIdx n)) (hj_activeMatches n)) = Inr ms" "bind_rows ?f ls = Inr out'"
      "out = (if (if b then [?j] else []) @ ms = [] \<and> isLeft \<and> Datums (hj_activeProbe n) \<noteq> [] \<and> \<not> hj_matchedAny n
        then [nullPadRight (hj_activeProbe n) (o_Schema right)] else (if b then [?j] else []) @ ms) @ out'"
      using Suc.prems(4) unfolding hash_rest_def d join_matches_Cons by blast
    show ?case
    proof (cases b)
      case True
      have "hash_at leftKey isLeft residual krs (l, r, ?n\<lparr>hj_matchedAny := True\<rparr>) (ms @ out')"
        using m(2,3) Suc.prems(1-3) by (auto simp: hash_at_def hash_rest_def)
      then show ?thesis using True m(1,4) i unfolding hash_step_def
        by (subst hash_Next.simps) (cases residual; auto simp: cond_holds_def Let_def)
    next
      case False
      then have "hash_rest isLeft residual ?f ?n ls out" using m by (auto simp: hash_rest_def)
      with Suc.hyps(1) [OF k Suc.prems(1,2)] Suc.prems(3) have "hash_step leftKey isLeft residual krs (l, r, ?n) out" by simp
      moreover have "hash_Next left right leftKey isLeft residual (l, r, n) = hash_Next left right leftKey isLeft residual (l, r, ?n)"
        using False m(1) i by (subst hash_Next.simps) (cases residual; auto simp: cond_holds_def Let_def)
      ultimately show ?thesis unfolding hash_step_def by simp
    qed
  qed
qed

lemma hash_contract:
  assumes "hash_rows leftKey rightKey isLeft (o_Schema right) residual lefts rights = Inr out"
    and "keyed_rows rightKey rights = Inr krs"
  shows "operator (HashJoinNode left right leftKey rightKey isLeft residual) (\<lambda>(l, r, n). linv l \<and> rinv r)
    (hash_at leftKey isLeft residual krs) out"
proof
  fix s :: "'l \<times> 'r \<times> HashState" assume a: "case s of (l, r, n) \<Rightarrow> linv l \<and> rinv r"
  obtain l r n where s: "s = (l, r, n)" by (cases s)
  obtain l' r' where o: "o_Open left l = Some (l', Inr ())" "lat l' lefts" "o_Open right r = Some (r', Inr ())" "rat r' rights"
    using a s lop.open_law rop.open_law by fastforce
  have "table_of [] []" by (simp add: table_of_def bucket_def hash_lookup_def)
  then obtain table where t: "fold_rows (hash_build rightKey) rights [] = Inr table" "table_of krs table"
    using build_table [OF assms(2)] by fastforce
  obtain r2 where r2: "fold_next right (hash_build rightKey) r' [] = Some (r2, Inr table)" "rat r2 []"
    using rop.fold_ok [OF o(4) t(1)] by blast
  obtain r3 where r3: "o_Close right r2 = (r3, Inr ())" "rinv r3" using rop.close_law rop.at_inv r2(2) by blast
  have "bind_rows (probe_row leftKey isLeft residual krs) lefts = Inr out"
    using assms by (simp add: hash_rows_def probe_row_def [abs_def])
  then show "\<exists>s'. o_Open (HashJoinNode left right leftKey rightKey isLeft residual) s = Some (s', Inr ())
      \<and> hash_at leftKey isLeft residual krs s' out"
    using o r2(1) r3 t(2) s
    by (auto simp: HashJoinNode_def hash_Open_def Let_def hash_at_def hash_rest_def no_row_def intro!: exI [of _ lefts])
next
  fix s r rs assume "hash_at leftKey isLeft residual krs s (r # rs)"
  then have "hash_step leftKey isLeft residual krs s (r # rs)" using hash_next by (auto simp: hash_at_def)
  then show "\<exists>s'. o_Next (HashJoinNode left right leftKey rightKey isLeft residual) s = Some (s', Inr r) \<and> hash_at leftKey isLeft residual krs s' rs"
    by (simp add: HashJoinNode_def hash_step_def)
next
  fix s assume "hash_at leftKey isLeft residual krs s []"
  then have "hash_step leftKey isLeft residual krs s []" using hash_next by (auto simp: hash_at_def)
  then show "\<exists>s'. o_Next (HashJoinNode left right leftKey rightKey isLeft residual) s = Some (s', Inl EOF) \<and> hash_at leftKey isLeft residual krs s' []"
    by (simp add: HashJoinNode_def hash_step_def)
next
  fix s :: "'l \<times> 'r \<times> HashState" assume a: "case s of (l, r, n) \<Rightarrow> linv l \<and> rinv r"
  obtain l r n where s: "s = (l, r, n)" by (cases s)
  obtain l' r' where "o_Close left l = (l', Inr ())" "linv l'" "o_Close right r = (r', Inr ())" "rinv r'" "rinv r"
    using a s lop.close_law rop.close_law by fastforce
  then show "\<exists>s'. o_Close (HashJoinNode left right leftKey rightKey isLeft residual) s = (s', Inr ()) \<and> (case s' of (l, r, n) \<Rightarrow> linv l \<and> rinv r)"
    using s by (auto simp: HashJoinNode_def hash_Close_def close_both_def Let_def)
next
  fix s rs assume "hash_at leftKey isLeft residual krs s rs"
  then show "case s of (l, r, n) \<Rightarrow> linv l \<and> rinv r" using lop.at_inv by (auto simp: hash_at_def)
qed

end

interpretation scans: two_operators "SeqScanNode heap decoder schema" "scan_inv heap decoder schema rows"
    "scan_at heap decoder schema rows" rows "SeqScanNode heap' decoder schema'" "scan_inv heap' decoder schema' rows'"
    "scan_at heap' decoder schema' rows'" rows' for heap heap' decoder schema schema' rows rows'
  ..

end
