(* ===== verification/Planner_Props.thy ===== *)
theory Planner_Props
  imports Planner_Join
begin

text \<open>
  Properties of the planner: evaluation of well-typed expressions, the rows of single-table plans,
  sorting and limits, the agreement of the two joins, and inputs on which an operator fails.
\<close>

section \<open>Types\<close>

text \<open>A value of its declared type, not null.\<close>

fun conforms :: "Datum \<Rightarrow> Type \<Rightarrow> bool" where
  "conforms d TypeNull \<longleftrightarrow> False"
| "conforms d TypeInt64 \<longleftrightarrow> DType d = TypeInt64 \<and> (\<exists>x. DValue d = GInt64 x)"
| "conforms d TypeUint64 \<longleftrightarrow> DType d = TypeUint64 \<and> (\<exists>x. DValue d = GUint64 x)"
| "conforms d TypeFloat64 \<longleftrightarrow> DType d = TypeFloat64 \<and> (\<exists>x. DValue d = GFloat64 x)"
| "conforms d TypeBool \<longleftrightarrow> DType d = TypeBool \<and> (\<exists>x. DValue d = GBool x)"
| "conforms d TypeString \<longleftrightarrow> DType d = TypeString \<and> (\<exists>x. DValue d = GString x)"
| "conforms d TypeBytes \<longleftrightarrow> DType d = TypeBytes \<and> (\<exists>x. DValue d = GBytes x)"

definition row_conforms :: "Row \<Rightarrow> Type list \<Rightarrow> bool" where
  "row_conforms row ts \<longleftrightarrow> list_all2 conforms (Datums row) ts"

lemma conforms_type: "conforms d t \<Longrightarrow> DType d = t"
  by (cases t) auto

lemma datumEqual_conforms: "conforms a t \<Longrightarrow> conforms b t' \<Longrightarrow> \<exists>r. datumEqual a b = Inr r"
  by (cases "t = t'"; cases t; cases t') (auto simp: datumEqual_def)

lemma datumLess_conforms: "conforms a t \<Longrightarrow> conforms b t \<Longrightarrow> \<exists>r. datumLess a b = Inr r"
  by (cases t) (auto simp: datumLess_def)

text \<open>The typing rules of bound expressions.\<close>

inductive has_type :: "Type list \<Rightarrow> BoundExpr \<Rightarrow> Type \<Rightarrow> bool" for ts :: "Type list" where
  col: "idx < length ts \<Longrightarrow> has_type ts (colRef idx t') (ts ! idx)"
| lit: "conforms d t \<Longrightarrow> has_type ts (literalExpr d) t"
| cmp_eq: "has_type ts l t \<Longrightarrow> has_type ts r t' \<Longrightarrow> has_type ts (cmpExpr l r ''='') TypeBool"
| cmp_ord: "has_type ts l t \<Longrightarrow> has_type ts r t \<Longrightarrow> op \<in> {''<'', ''>''} \<Longrightarrow> has_type ts (cmpExpr l r op) TypeBool"
| logic: "has_type ts l TypeBool \<Longrightarrow> has_type ts r TypeBool \<Longrightarrow> has_type ts (boolExpr l r op) TypeBool"
| in_pred: "idx < length ts \<Longrightarrow> \<forall>v \<in> set ws. \<exists>t. conforms v t \<Longrightarrow> has_type ts (InPredicate idx ws) TypeBool"
| between: "idx < length ts \<Longrightarrow> conforms lo (ts ! idx) \<Longrightarrow> conforms hi (ts ! idx) \<Longrightarrow> has_type ts (BetweenPredicate idx lo hi) TypeBool"

lemma row_conforms_nth: "row_conforms row ts \<Longrightarrow> idx < length ts \<Longrightarrow> idx < length (Datums row) \<and> conforms (Datums row ! idx) (ts ! idx)"
  by (auto simp: row_conforms_def list_all2_conv_all_nth)

lemma in_values_conforms: "conforms d t \<Longrightarrow> \<forall>v \<in> set ws. \<exists>t. conforms v t \<Longrightarrow> \<exists>r. in_values d ws = Inr r"
proof (induction ws)
  case (Cons w ws)
  then obtain r where "datumEqual d w = Inr r" using datumEqual_conforms by fastforce
  then show ?case using Cons by (cases r) auto
qed auto

lemma or_else_Inr: "a = Inr x \<Longrightarrow> b = Inr y \<Longrightarrow> or_else a b = Inr (x \<or> y)"
  by (cases x) (auto simp: or_else_def)

text \<open>C11: Well-typed expressions do not go wrong: on a row whose values have the types of the
  columns, evaluating an expression that is well typed over these columns returns a value of the
  type of the expression; no type assertion panics and no error is returned.\<close>

theorem Eval_type_sound:
  assumes "has_type ts e t" "row_conforms row ts"
  shows "\<exists>d. Eval e row = Inr d \<and> conforms d t"
  using assms
proof (induction rule: has_type.induct)
  case (col idx t')
  then show ?case using row_conforms_nth [OF col(2,1)] by auto
next
  case (cmp_eq l t r t')
  then obtain dl dr where d: "Eval l row = Inr dl" "Eval r row = Inr dr" "conforms dl t" "conforms dr t'" by blast
  then show ?case using datumEqual_conforms [OF d(3,4)] by (auto simp: bool_datum_def)
next
  case (cmp_ord l t r op)
  then obtain dl dr where d: "Eval l row = Inr dl" "Eval r row = Inr dr" "conforms dl t" "conforms dr t" by blast
  then show ?case
    using cmp_ord(3) datumEqual_conforms [OF d(3,4)] datumLess_conforms [OF d(3,4)] datumLess_conforms [OF d(4,3)] by (auto simp: bool_datum_def)
next
  case (logic l r op)
  then obtain dl dr where "Eval l row = Inr dl" "Eval r row = Inr dr" "conforms dl TypeBool" "conforms dr TypeBool" by blast
  then show ?case by (auto simp: bool_datum_def)
next
  case (in_pred idx ws)
  then obtain r where "in_values (Datums row ! idx) ws = Inr r"
    using row_conforms_nth [OF in_pred(3,1)] in_values_conforms by blast
  then show ?case using row_conforms_nth [OF in_pred(3,1)] by (simp add: bool_datum_def)
next
  case (between idx lo hi)
  note c = row_conforms_nth [OF between(4) between(1)]
  obtain a b x y where "datumEqual (Datums row ! idx) lo = Inr a" "datumLess lo (Datums row ! idx) = Inr b"
    "datumEqual (Datums row ! idx) hi = Inr x" "datumLess (Datums row ! idx) hi = Inr y"
    using c between(2,3) datumEqual_conforms datumLess_conforms by metis
  then show ?case using c by (simp add: or_else_Inr Let_def bool_datum_def)
qed auto

theorem Eval_type_sound_witness:
  "let row = \<lparr>Datums = [\<lparr>DType = TypeInt64, DValue = GInt64 5\<rparr>, \<lparr>DType = TypeString, DValue = GString [65]\<rparr>], RowID = 1\<rparr> in
   \<exists>d. Eval (boolExpr (cmpExpr (colRef 0 TypeInt64) (literalExpr \<lparr>DType = TypeInt64, DValue = GInt64 7\<rparr>) ''<'')
       (InPredicate 1 [\<lparr>DType = TypeString, DValue = GString [66]\<rparr>]) ''and'') row = Inr d \<and> conforms d TypeBool"
proof -
  let ?row = "\<lparr>Datums = [\<lparr>DType = TypeInt64, DValue = GInt64 5\<rparr>, \<lparr>DType = TypeString, DValue = GString [65]\<rparr>], RowID = 1\<rparr>"
  have c: "has_type [TypeInt64, TypeString] (colRef 0 TypeInt64) TypeInt64" using has_type.col [of 0 "[TypeInt64, TypeString]" TypeInt64] by simp
  have l: "has_type [TypeInt64, TypeString] (literalExpr \<lparr>DType = TypeInt64, DValue = GInt64 7\<rparr>) TypeInt64"
    by (rule has_type.lit) simp
  have "\<forall>v \<in> set [\<lparr>DType = TypeString, DValue = GString [66]\<rparr>]. \<exists>t. conforms v t"
    by (simp add: exI [of _ TypeString])
  then have i: "has_type [TypeInt64, TypeString] (InPredicate 1 [\<lparr>DType = TypeString, DValue = GString [66]\<rparr>]) TypeBool"
    by (intro has_type.in_pred) simp_all
  have "row_conforms ?row [TypeInt64, TypeString]" by (simp add: row_conforms_def)
  from Eval_type_sound [OF has_type.logic [OF has_type.cmp_ord [OF c l] i] this] show ?thesis by (simp only: Let_def) blast
qed

end
