(* ===== verification/Planner_Sort.thy ===== *)
theory Planner_Sort
  imports Planner_Props "HOL-Library.Multiset"
begin

text \<open>
  Sorting: insertion by a strict weak order gives a sorted, stable permutation, and the comparison of
  \<open>SortNode\<close> is a strict weak order on columns of numbers and strings.
\<close>

section \<open>Stable insertion\<close>

text \<open>A comparison that never fails and is a strict weak order on the given elements.\<close>

definition weak_order :: "('a \<Rightarrow> 'a \<Rightarrow> plan_err + bool) \<Rightarrow> 'a set \<Rightarrow> bool" where
  "weak_order lt A \<longleftrightarrow> (\<forall>x \<in> A. \<forall>y \<in> A. lt x y = Inr True \<or> lt x y = Inr False)
     \<and> (\<forall>x \<in> A. \<forall>y \<in> A. lt x y = Inr True \<longrightarrow> lt y x = Inr False)
     \<and> (\<forall>x \<in> A. \<forall>y \<in> A. \<forall>z \<in> A. lt x y = Inr False \<longrightarrow> lt y z = Inr False \<longrightarrow> lt x z = Inr False)"

text \<open>No element is before its successors in the reversed list.\<close>

definition rev_sorted :: "('a \<Rightarrow> 'a \<Rightarrow> plan_err + bool) \<Rightarrow> 'a list \<Rightarrow> bool" where
  "rev_sorted lt ys \<longleftrightarrow> sorted_wrt (\<lambda>y x. lt y x = Inr False) ys"

definition tied :: "('a \<Rightarrow> 'a \<Rightarrow> plan_err + bool) \<Rightarrow> 'a \<Rightarrow> 'a \<Rightarrow> bool" where
  "tied lt x y \<longleftrightarrow> lt x y = Inr False \<and> lt y x = Inr False"

lemma insert_row_ok:
  assumes "weak_order lt A" "x \<in> A" "set ys \<subseteq> A" "rev_sorted lt ys"
  shows "\<exists>zs. insert_row lt x ys = Inr zs \<and> mset zs = mset (x # ys) \<and> rev_sorted lt zs
    \<and> (\<forall>a \<in> A. filter (tied lt a) zs = filter (tied lt a) (x # ys))"
  using assms(3,4)
proof (induction ys)
  case (Cons y ys)
  have A: "y \<in> A" "set ys \<subseteq> A" "rev_sorted lt ys" "\<forall>z \<in> set ys. lt y z = Inr False"
    using Cons.prems by (auto simp: rev_sorted_def)
  show ?case
  proof (cases "lt x y = Inr True")
    case True
    obtain zs where zs: "insert_row lt x ys = Inr zs" "mset zs = mset (x # ys)" "rev_sorted lt zs"
      "\<forall>a \<in> A. filter (tied lt a) zs = filter (tied lt a) (x # ys)" using Cons.IH [OF A(2,3)] by blast
    have yx: "lt y x = Inr False" using True assms(1,2) A(1) unfolding weak_order_def by blast
    have "set zs = insert x (set ys)" using mset_eq_setD [OF zs(2)] by simp
    then have "rev_sorted lt (y # zs)" using zs(3) A(4) yx by (auto simp: rev_sorted_def)
    moreover have "filter (tied lt a) (y # zs) = filter (tied lt a) (x # y # ys)" if "a \<in> A" for a
    proof -
      have "\<not> (tied lt a x \<and> tied lt a y)"
        using True assms(1,2) A(1) that unfolding weak_order_def tied_def by (metis sum.inject(2))
      then show ?thesis using zs(4) that by auto
    qed
    ultimately show ?thesis using zs(1,2) True by auto
  next
    case False
    then have f: "lt x y = Inr False" using assms(1,2) A(1) unfolding weak_order_def by blast
    then have "\<forall>z \<in> set ys. lt x z = Inr False" using A assms(1,2) unfolding weak_order_def by blast
    then show ?thesis using f Cons.prems(2) by (auto simp: rev_sorted_def)
  qed
qed (simp add: rev_sorted_def)

lemma insert_rows_ok:
  assumes "weak_order lt A" "set xs \<subseteq> A" "set acc \<subseteq> A" "rev_sorted lt acc"
  shows "\<exists>zs. insert_rows lt xs acc = Inr zs \<and> mset zs = mset (xs @ acc) \<and> rev_sorted lt zs
    \<and> (\<forall>a \<in> A. filter (tied lt a) zs = filter (tied lt a) (rev xs @ acc))"
  using assms(2-4)
proof (induction xs arbitrary: acc)
  case (Cons x xs)
  obtain ys where ys: "insert_row lt x acc = Inr ys" "mset ys = mset (x # acc)" "rev_sorted lt ys"
    "\<forall>a \<in> A. filter (tied lt a) ys = filter (tied lt a) (x # acc)"
    using insert_row_ok [OF assms(1)] Cons.prems by (metis list.set_intros(1) subsetD)
  have "set ys \<subseteq> A" using mset_eq_setD [OF ys(2)] Cons.prems by auto
  then obtain zs where "insert_rows lt xs ys = Inr zs" "mset zs = mset (xs @ ys)" "rev_sorted lt zs"
    "\<forall>a \<in> A. filter (tied lt a) zs = filter (tied lt a) (rev xs @ ys)"
    using Cons.IH [of ys] Cons.prems ys(3) by auto
  then show ?case using ys by simp
qed simp

lemma SliceStable_ok:
  assumes "weak_order lt (set xs)"
  shows "\<exists>zs. SliceStable lt xs = Inr zs \<and> mset zs = mset xs \<and> sorted_wrt (\<lambda>x y. lt y x = Inr False) zs
    \<and> (\<forall>a \<in> set xs. filter (tied lt a) zs = filter (tied lt a) xs)"
proof -
  obtain zs where zs: "insert_rows lt xs [] = Inr zs" "mset zs = mset xs" "rev_sorted lt zs"
    "\<forall>a \<in> set xs. filter (tied lt a) zs = filter (tied lt a) (rev xs)"
    using insert_rows_ok [OF assms, of xs "[]"] by (auto simp: rev_sorted_def)
  then have "\<forall>a \<in> set xs. filter (tied lt a) (rev zs) = filter (tied lt a) xs" by (simp add: rev_filter [symmetric])
  then show ?thesis using zs by (auto simp: SliceStable_def rev_sorted_def sorted_wrt_rev)
qed

section \<open>The comparison\<close>

definition sortable :: "Type \<Rightarrow> bool" where
  "sortable t \<longleftrightarrow> t \<in> {TypeInt64, TypeUint64, TypeString}"

definition rank :: "Datum \<Rightarrow> int list" where
  "rank d = (case DValue d of GInt64 x \<Rightarrow> [sint x] | GUint64 x \<Rightarrow> [uint x] | GString s \<Rightarrow> map uint s | _ \<Rightarrow> [])"

lemma uint_eq [simp]: "uint (a :: 'w::len word) = uint b \<longleftrightarrow> a = b" and sint_eq [simp]: "sint a = sint b \<longleftrightarrow> a = b"
  by (auto intro: unsigned_word_eqI signed_word_eqI)

lemma map_uint_less: "map uint (s :: bytes) < map uint t \<longleftrightarrow> s < t"
proof (induction s arbitrary: t)
  case Nil
  then show ?case by (cases t) simp_all
next
  case (Cons a s)
  note IH = Cons.IH
  show ?case
  proof (cases t)
    case (Cons b t')
    then show ?thesis using IH [of t'] by (simp add: word_less_def)
  qed simp
qed

lemma map_uint_eq: "map uint (s :: bytes) = map uint t \<longleftrightarrow> s = t"
  by (rule inj_map_eq_map) (simp add: inj_on_def)

lemma rank_datum:
  assumes "conforms a t" "conforms b t" "sortable t"
  shows "datumEqual a b = Inr (rank a = rank b)" "datumLess a b = Inr (rank a < rank b)" "DValue a \<noteq> GNil" "DValue b \<noteq> GNil"
  using assms by (auto simp: sortable_def datumEqual_def datumLess_def rank_def map_uint_less map_uint_eq word_less_def)

fun before :: "SortKey list \<Rightarrow> Row \<Rightarrow> Row \<Rightarrow> bool" where
  "before [] r1 r2 \<longleftrightarrow> False"
| "before (k # ks) r1 r2 \<longleftrightarrow> (let a = rank (Datums r1 ! sk_ColIdx k); b = rank (Datums r2 ! sk_ColIdx k) in
     if a = b then before ks r1 r2 else if sk_Desc k then b < a else a < b)"

definition sort_columns :: "Type list \<Rightarrow> SortKey list \<Rightarrow> bool" where
  "sort_columns ts keys \<longleftrightarrow> list_all (\<lambda>k. sk_ColIdx k < length ts \<and> sortable (ts ! sk_ColIdx k)) keys"

lemma sort_less_before:
  assumes "row_conforms r1 ts" "row_conforms r2 ts" "sort_columns ts keys"
  shows "sort_less keys r1 r2 = Inr (before keys r1 r2)"
  using assms(3)
proof (induction keys)
  case (Cons k ks)
  have k: "sk_ColIdx k < length ts" "sortable (ts ! sk_ColIdx k)" "sort_columns ts ks" using Cons.prems by (auto simp: sort_columns_def)
  note c1 = row_conforms_nth [OF assms(1) k(1)] and c2 = row_conforms_nth [OF assms(2) k(1)]
  have e: "a = b \<longleftrightarrow> \<not> a < b \<and> \<not> b < a" for a b :: "int list" by auto
  show ?case using Cons.IH [OF k(3)] c1 c2 rank_datum [OF conjunct2 [OF c1] conjunct2 [OF c2] k(2)]
    by (auto simp: Let_def split: bool.splits)
qed simp

lemma before_asym: "before keys r1 r2 \<Longrightarrow> \<not> before keys r2 r1"
  by (induction keys) (auto simp: Let_def split: if_splits)

lemma before_neg_trans: "\<not> before keys r1 r2 \<Longrightarrow> \<not> before keys r2 r3 \<Longrightarrow> \<not> before keys r1 r3"
proof (induction keys)
  case (Cons k ks)
  let ?a = "rank (Datums r1 ! sk_ColIdx k)" and ?b = "rank (Datums r2 ! sk_ColIdx k)" and ?c = "rank (Datums r3 ! sk_ColIdx k)"
  show ?case
  proof (cases "?a = ?b \<and> ?b = ?c")
    case True
    then show ?thesis using Cons by (simp add: Let_def)
  next
    case False
    then show ?thesis using Cons.prems by (auto simp: Let_def split: if_splits)
  qed
qed simp

lemma sort_less_weak_order:
  assumes "\<forall>r \<in> set rows. row_conforms r ts" "sort_columns ts keys"
  shows "weak_order (sort_less keys) (set rows)"
proof -
  have b: "sort_less keys x y = Inr (before keys x y)" if "x \<in> set rows" "y \<in> set rows" for x y
    using sort_less_before [OF _ _ assms(2)] assms(1) that by blast
  show ?thesis
    unfolding weak_order_def
  proof (intro conjI ballI impI)
    fix x y assume a: "x \<in> set rows" "y \<in> set rows"
    show "sort_less keys x y = Inr True \<or> sort_less keys x y = Inr False" by (simp add: b a)
    show "sort_less keys y x = Inr False" if "sort_less keys x y = Inr True" using that before_asym by (simp add: b a)
    show "sort_less keys x z = Inr False" if "z \<in> set rows" "sort_less keys x y = Inr False" "sort_less keys y z = Inr False" for z
      using that before_neg_trans by (simp add: b a)
  qed
qed



end
