(* ===== verification/Planner_Exec.thy ===== *)
theory Planner_Exec
  imports Planner_Props
begin

text \<open>
  Whole plans: a plan template returns the projection of the selected rows; the two joins agree on
  equality conditions; and reading an aggregate over no rows does not end.
\<close>

section \<open>Single-table plans\<close>

definition template_rows :: "PlanTemplate \<Rightarrow> Row list \<Rightarrow> plan_err + Row list" where
  "template_rows t rows =
     (case (case pt_WhereExpr t of None \<Rightarrow> Inr rows | Some e \<Rightarrow> filter_rows e rows) of
        Inl e \<Rightarrow> Inl e
      | Inr rows \<Rightarrow> (case pt_Projections t of None \<Rightarrow> Inr rows | Some es \<Rightarrow> project_rows es rows))"

lemma where_contract:
  assumes "(case w of None \<Rightarrow> Inr rows | Some e \<Rightarrow> filter_rows e rows) = Inr out"
  shows "\<exists>at. operator (case w of None \<Rightarrow> SeqScanNode heap decoder schema | Some e \<Rightarrow> FilterNode (SeqScanNode heap decoder schema) e)
    (scan_inv heap decoder schema rows) at out"
  using assms seq_scan.operator_axioms seq_scan.filter_contract by (cases w) fastforce+

text \<open>C15: The plan built from a template returns exactly what the query means: opened on a table and
  read to the end, it yields the projections of the rows that satisfy the condition, in scan order,
  whenever no evaluation fails.\<close>

theorem template_plan_rows:
  assumes "scan_inv heap decoder (pt_InputSchema t) rows it" "template_rows t rows = Inr out"
  shows "\<exists>s s'. o_Open (Build t heap decoder) it = Some (s, Inr ()) \<and> collect (Build t heap decoder) s = Some (s', Inr out)"
proof -
  obtain mid where m: "(case pt_WhereExpr t of None \<Rightarrow> Inr rows | Some e \<Rightarrow> filter_rows e rows) = Inr mid"
    "(case pt_Projections t of None \<Rightarrow> Inr mid | Some es \<Rightarrow> project_rows es mid) = Inr out"
    using assms(2) by (auto simp: template_rows_def split: sum.splits)
  obtain at where "operator (case pt_WhereExpr t of None \<Rightarrow> SeqScanNode heap decoder (pt_InputSchema t)
      | Some e \<Rightarrow> FilterNode (SeqScanNode heap decoder (pt_InputSchema t)) e) (scan_inv heap decoder (pt_InputSchema t) rows) at mid"
    using where_contract [OF m(1)] by blast
  then have "\<exists>at. operator (Build t heap decoder) (scan_inv heap decoder (pt_InputSchema t) rows) at out"
    using m(2) operator.project_contract by (cases "pt_Projections t") (fastforce simp: Build_def Let_def)+
  then obtain at where "operator (Build t heap decoder) (scan_inv heap decoder (pt_InputSchema t) rows) at out" ..
  from operator.collect_ok [OF this assms(1)] show ?thesis .
qed

theorem template_plan_rows_witness:
  "let row = \<lambda>x. \<lparr>Datums = [\<lparr>DType = TypeInt64, DValue = GInt64 x\<rparr>, \<lparr>DType = TypeInt64, DValue = GInt64 (x + 1)\<rparr>], RowID = 0\<rparr>;
       heap = \<lparr>th_Scan = Inr [Inr ([1], 0), Inr ([7], 0)], th_Close = Inr ()\<rparr>;
       t = \<lparr>pt_TableID = 1, pt_InputSchema = [], pt_OutputSchema = [],
            pt_WhereExpr = Some (cmpExpr (colRef 0 TypeInt64) (literalExpr \<lparr>DType = TypeInt64, DValue = GInt64 5\<rparr>) ''>''),
            pt_Projections = Some [colRef 1 TypeInt64]\<rparr> in
   \<exists>s s'. o_Open (Build t heap (\<lambda>b _. Inr (row (ucast (hd b))))) None = Some (s, Inr ())
     \<and> collect (Build t heap (\<lambda>b _. Inr (row (ucast (hd b))))) s
        = Some (s', Inr [\<lparr>Datums = [\<lparr>DType = TypeInt64, DValue = GInt64 8\<rparr>], RowID = 0\<rparr>])"
proof -
  let ?row = "\<lambda>x. \<lparr>Datums = [\<lparr>DType = TypeInt64, DValue = GInt64 x\<rparr>, \<lparr>DType = TypeInt64, DValue = GInt64 (x + 1)\<rparr>], RowID = 0\<rparr>"
  let ?heap = "\<lparr>th_Scan = Inr [Inr ([1], 0), Inr ([7], 0)], th_Close = Inr ()\<rparr>"
  let ?t = "\<lparr>pt_TableID = 1, pt_InputSchema = [], pt_OutputSchema = [],
            pt_WhereExpr = Some (cmpExpr (colRef 0 TypeInt64) (literalExpr \<lparr>DType = TypeInt64, DValue = GInt64 5\<rparr>) ''>''),
            pt_Projections = Some [colRef 1 TypeInt64]\<rparr>"
  have "scan_inv ?heap (\<lambda>b _. Inr (?row (ucast (hd b)))) (pt_InputSchema ?t) [?row 1, ?row 7] None"
    by (simp add: scan_inv_def scan_item_def)
  moreover have "template_rows ?t [?row 1, ?row 7] = Inr [\<lparr>Datums = [\<lparr>DType = TypeInt64, DValue = GInt64 8\<rparr>], RowID = 0\<rparr>]"
    by (simp add: template_rows_def filter_rows_def select_row_def project_rows_def datumEqual_def datumLess_def is_true_def bool_datum_def)
  ultimately show ?thesis
    using template_plan_rows [of ?heap "\<lambda>b _. Inr (?row (ucast (hd b)))" ?t] by (simp only: Let_def)
qed

section \<open>The joins agree\<close>

text \<open>Key columns: nulls without a type, and values of the types that can be hashed exactly.\<close>

definition join_key :: "Datum \<Rightarrow> bool" where
  "join_key d \<longleftrightarrow> DType d = TypeNull \<and> DValue d = GNil
     \<or> conforms d TypeInt64 \<or> conforms d TypeUint64 \<or> conforms d TypeBool \<or> conforms d TypeString"

lemma join_key_hash: "join_key d \<Longrightarrow> \<exists>k. encodeHashKey d = Inr k"
  by (auto simp: join_key_def encodeHashKey_def)

lemma join_key_equal:
  "join_key a \<Longrightarrow> join_key b \<Longrightarrow>
   \<exists>r. datumEqual a b = Inr r \<and> (r \<longrightarrow> encodeHashKey a = encodeHashKey b \<and> encodeHashKey a \<noteq> Inr [])"
  by (auto simp: join_key_def datumEqual_def encodeHashKey_def)

lemma join_row_cong: "join_matches c l rs = join_matches c l rs' \<Longrightarrow> join_row b schema c rs l = join_row b schema c rs' l"
  by (simp add: join_row_def)

lemma bind_rows_cong: "(\<And>r. r \<in> set rows \<Longrightarrow> f r = g r) \<Longrightarrow> bind_rows f rows = bind_rows g rows"
  by (induction rows) (simp_all split: sum.split)

lemma keyed_rows_ok:
  "\<forall>r \<in> set rows. k < length (Datums r) \<and> join_key (Datums r ! k) \<Longrightarrow>
   \<exists>krs. keyed_rows k rows = Inr krs \<and> map snd krs = rows \<and> (\<forall>(key, r) \<in> set krs. row_hash_key k r = Inr key)"
proof (induction rows)
  case (Cons r rows)
  then obtain key where "encodeHashKey (Datums r ! k) = Inr key" using join_key_hash [of "Datums r ! k"] by auto
  then have "row_hash_key k r = Inr key" using Cons.prems by (simp add: row_hash_key_def)
  then show ?case using Cons by auto
qed simp

definition equi_cond :: "nat \<Rightarrow> nat \<Rightarrow> nat \<Rightarrow> Type \<Rightarrow> Type \<Rightarrow> BoundExpr" where
  "equi_cond w leftKey rightKey t t' = cmpExpr (colRef leftKey t) (colRef (w + rightKey) t') ''=''"

lemma equi_eval:
  assumes "length (Datums l) = w" "leftKey < w" "rightKey < length (Datums r)"
    and "datumEqual (Datums l ! leftKey) (Datums r ! rightKey) = Inr b"
  shows "Eval (equi_cond w leftKey rightKey t t') (combineRows l r) = Inr (bool_datum b)"
  using assms by (simp add: equi_cond_def combineRows_def nth_append)

lemma filter_bucket:
  "\<forall>(k', r) \<in> set krs. P r \<longrightarrow> k' = key \<Longrightarrow>
   filter P (map snd (filter (\<lambda>(k, r). k = key) krs)) = filter P (map snd krs)"
  by (induction krs) auto

lemma bucket_matches:
  assumes l: "length (Datums l) = w" "leftKey < w" "join_key (Datums l ! leftKey)"
    and rs: "\<forall>r \<in> set rights. rightKey < length (Datums r) \<and> join_key (Datums r ! rightKey)"
    and k: "map snd krs = rights" "\<forall>(key, r) \<in> set krs. row_hash_key rightKey r = Inr key" "row_hash_key leftKey l = Inr key"
  shows "\<exists>ms. join_matches (Some (equi_cond w leftKey rightKey t t')) l rights = Inr ms
    \<and> join_matches (Some (equi_cond w leftKey rightKey t t')) l (bucket key krs) = Inr ms"
proof -
  let ?c = "equi_cond w leftKey rightKey t t'"
  define same where "same r = (datumEqual (Datums l ! leftKey) (Datums r ! rightKey) = Inr True)" for r :: Row
  have ev: "Eval ?c (combineRows l r) = Inr (bool_datum (same r))" if "r \<in> set rights" for r
  proof -
    have "join_key (Datums r ! rightKey)" using rs that by simp
    from join_key_equal [OF l(3) this] obtain b where "datumEqual (Datums l ! leftKey) (Datums r ! rightKey) = Inr b" by auto
    then show ?thesis using equi_eval [OF l(1,2)] rs that by (auto simp: same_def)
  qed
  have eq: "join_matches (Some ?c) l xs = Inr (map (combineRows l) (filter same xs))" if "set xs \<subseteq> set rights" for xs
    using that
  proof (induction xs)
    case (Cons x xs)
    then show ?case using ev [of x] by (simp add: join_matches_Cons cond_holds_def is_true_def bool_datum_def)
  qed simp
  have key: "k' = key \<and> key \<noteq> []" if kr: "(k', r) \<in> set krs" "same r" for k' r
  proof -
    have r: "r \<in> set rights" using kr(1) k(1) by force
    have "encodeHashKey (Datums l ! leftKey) = encodeHashKey (Datums r ! rightKey) \<and> encodeHashKey (Datums l ! leftKey) \<noteq> Inr []"
      using join_key_equal [OF l(3), of "Datums r ! rightKey"] rs r kr(2) unfolding same_def by auto
    moreover have "row_hash_key rightKey r = Inr k'" using k(2) kr(1) by auto
    ultimately show ?thesis using k(3) by (auto simp: row_hash_key_def split: if_splits)
  qed
  have "filter same (bucket key krs) = filter same rights"
  proof (cases "key = []")
    case True
    then have "filter same rights = []" using key k(1) by (auto simp: filter_empty_conv)
    then show ?thesis using True by (simp add: bucket_def)
  next
    case False
    have "\<forall>(k', r) \<in> set krs. same r \<longrightarrow> k' = key" using key by auto
    then show ?thesis using False filter_bucket [of krs same key] k(1) by (simp add: bucket_def)
  qed
  moreover have "set (bucket key krs) \<subseteq> set (map snd krs)" by (auto simp: bucket_def intro: rev_image_eqI)
  then have "set (bucket key krs) \<subseteq> set rights" using k(1) by simp
  ultimately show ?thesis using eq [of rights] eq [of "bucket key krs"] by simp
qed

lemma joins_rows:
  assumes l: "\<forall>l \<in> set lefts. length (Datums l) = w \<and> leftKey < w \<and> join_key (Datums l ! leftKey)"
    and r: "\<forall>r \<in> set rights. rightKey < length (Datums r) \<and> join_key (Datums r ! rightKey)"
  shows "\<exists>out krs. keyed_rows rightKey rights = Inr krs
    \<and> nested_rows isLeft schema (Some (equi_cond w leftKey rightKey t t')) lefts rights = Inr out
    \<and> hash_rows leftKey rightKey isLeft schema (Some (equi_cond w leftKey rightKey t t')) lefts rights = Inr out"
proof -
  let ?c = "Some (equi_cond w leftKey rightKey t t')"
  obtain krs where k: "keyed_rows rightKey rights = Inr krs" "map snd krs = rights"
    "\<forall>(key, r) \<in> set krs. row_hash_key rightKey r = Inr key" using keyed_rows_ok [OF r] by auto
  define probe where "probe l = (case row_hash_key leftKey l of Inl e \<Rightarrow> Inl e
    | Inr key \<Rightarrow> join_row isLeft schema ?c (bucket key krs) l)" for l
  have row: "\<exists>out. join_row isLeft schema ?c rights l = Inr out \<and> probe l = Inr out" if "l \<in> set lefts" for l
  proof -
    have a: "length (Datums l) = w" "leftKey < w" "join_key (Datums l ! leftKey)" using l that by auto
    then obtain key where key: "row_hash_key leftKey l = Inr key" using join_key_hash by (auto simp: row_hash_key_def)
    from bucket_matches [OF a r k(2,3) key] obtain ms where "join_matches ?c l rights = Inr ms"
      "join_matches ?c l (bucket key krs) = Inr ms" by blast
    then show ?thesis using key by (simp add: probe_def join_row_def)
  qed
  have "\<exists>out. bind_rows (join_row isLeft schema ?c rights) ls = Inr out \<and> bind_rows probe ls = Inr out" if "set ls \<subseteq> set lefts" for ls
    using that
  proof (induction ls)
    case (Cons a ls)
    then show ?case using row [of a] by auto
  qed simp
  then show ?thesis using k(1) by (auto simp: nested_rows_def hash_rows_def probe_def [abs_def])
qed



section \<open>Aggregates over no rows\<close>

lemma fold_next_endless:
  assumes step: "\<And>c. I c \<Longrightarrow> \<exists>c' row. o_Next ops c = Some (c', Inr row) \<and> I c'"
    and ok: "\<And>row acc. \<exists>acc'. f row acc = Inr acc'"
  shows "I c \<Longrightarrow> fold_next ops f c acc = None"
proof (rule ccontr)
  assume i: "I c" and "fold_next ops f c acc \<noteq> None"
  then obtain r where r: "fold_next ops f c acc = Some r" by auto
  have "ops = ops \<longrightarrow> f = f \<longrightarrow> \<not> I c"
  proof (rule fold_next.raw_induct [OF _ r, of "\<lambda>o' g c acc r. o' = ops \<longrightarrow> g = f \<longrightarrow> \<not> I c"], intro impI notI, goal_cases)
    case (1 rec o' g c acc r)
    obtain c' row where n: "o_Next ops c = Some (c', Inr row)" "I c'" using step 1(5) by blast
    obtain acc' where "f row acc = Inr acc'" using ok by blast
    then have "rec ops f c' acc' = Some r" using 1(2-4) n(1) by simp
    then show False using 1(1) n(2) by blast
  qed
  then show False using i by blast
qed

text \<open>C38: Reading an aggregate without grouping over an empty table never ends: opened on a scan of no
  rows, \<open>Next\<close> returns the row of initial results again and again, and the loop that reads the rows to
  the end does not return.\<close>

theorem empty_aggregate_never_ends:
  assumes "scan_inv heap decoder schema [] s"
  shows "\<exists>a. o_Open (HashAggNode (SeqScanNode heap decoder schema) [] aggs) (s, n) = Some (a, Inr ())
    \<and> collect (HashAggNode (SeqScanNode heap decoder schema) [] aggs) a = None"
proof -
  let ?scan = "SeqScanNode heap decoder schema"
  obtain c where c: "o_Open ?scan s = Some (c, Inr ())" "scan_at heap decoder schema [] c []"
    using seq_scan.open_law [OF assms] by blast
  obtain c' where c': "o_Next ?scan c = Some (c', Inl EOF)" using seq_scan.next_eof [OF c(2)] by blast
  have f: "fold_next ?scan (agg_row [] aggs) c ([], []) = Some (c', Inr ([], []))"
    by (subst fold_next.simps) (simp add: c')
  let ?a = "(c', n\<lparr>ha_groups := [], ha_aggResults := [], ha_outputIdx := 0, ha_opened := True\<rparr>)"
  have "o_Open (HashAggNode ?scan [] aggs) (s, n) = Some (?a, Inr ())"
    using c(1) f by (simp add: HashAggNode_def agg_Open_def)
  moreover have "collect (HashAggNode ?scan [] aggs) ?a = None"
    unfolding collect_def
    by (rule fold_next_endless [where I = "\<lambda>(c, n). ha_opened n \<and> ha_groups n = []"])
      (auto simp: HashAggNode_def agg_Next_def)
  ultimately show ?thesis by blast
qed

theorem empty_aggregate_never_ends_witness:
  "let scan = SeqScanNode \<lparr>th_Scan = Inr [], th_Close = Inr ()\<rparr> (\<lambda>_ _. Inl EOF) [];
       count = HashAggNode scan [] [\<lparr>ag_Op = AggCount, ag_ColIdx = -1\<rparr>] in
   \<exists>a. o_Open count (None, \<lparr>ha_groups = [], ha_aggResults = [], ha_outputIdx = 0, ha_opened = False\<rparr>) = Some (a, Inr ())
     \<and> collect count a = None"
proof -
  have "scan_inv \<lparr>th_Scan = Inr [], th_Close = Inr ()\<rparr> (\<lambda>_ _. Inl EOF) [] [] None" by (simp add: scan_inv_def)
  from empty_aggregate_never_ends [OF this] show ?thesis unfolding Let_def .
qed

end
