(* ===== verification/Plan_Cache.thy ===== *)
theory Plan_Cache
  imports Planner_Ops Simulation "HOL-Library.AList"
begin

text \<open>
  \<open>sql/planner/cache.go\<close>: the bounded cache of plan templates.  Its specification is a queue of keys with
  their templates, on the keys themselves instead of the strings the code makes of them.
\<close>

record CacheKey =
  ck_Fingerprint :: bytes
  ck_SchemaVersion :: u64

definition key_String :: "CacheKey \<Rightarrow> bytes" where
  "key_String k = ck_Fingerprint k @ [64, 118] @ dec_int (uint (ck_SchemaVersion k))"

record PlanCache =
  pc_maxSize :: int
  pc_disabled :: bool
  pc_items :: "(bytes \<times> PlanTemplate) list"
  pc_order :: "bytes list"
  pc_hits :: u64
  pc_misses :: u64

definition NewPlanCache :: "int \<Rightarrow> PlanCache" where
  "NewPlanCache maxSize =
     (if maxSize \<le> 0 then \<lparr>pc_maxSize = 0, pc_disabled = True, pc_items = [], pc_order = [], pc_hits = 0, pc_misses = 0\<rparr>
      else \<lparr>pc_maxSize = maxSize, pc_disabled = False, pc_items = [], pc_order = [], pc_hits = 0, pc_misses = 0\<rparr>)"

definition cache_Lookup :: "CacheKey \<Rightarrow> PlanCache \<Rightarrow> PlanCache \<times> PlanTemplate option" where
  "cache_Lookup key c =
     (if pc_disabled c then (c\<lparr>pc_misses := pc_misses c + 1\<rparr>, None)
      else case map_of (pc_items c) (key_String key) of
          Some tmpl \<Rightarrow> (c\<lparr>pc_hits := pc_hits c + 1\<rparr>, Some tmpl)
        | None \<Rightarrow> (c\<lparr>pc_misses := pc_misses c + 1\<rparr>, None))"

definition cache_append :: "bytes \<Rightarrow> PlanTemplate \<Rightarrow> PlanCache \<Rightarrow> PlanCache" where
  "cache_append k tmpl c = c\<lparr>pc_items := AList.update k tmpl (pc_items c), pc_order := pc_order c @ [k]\<rparr>"

text \<open>\<open>None\<close> is the panic of \<open>c.order[0]\<close> on an empty order.\<close>

definition cache_Store :: "CacheKey \<Rightarrow> PlanTemplate \<Rightarrow> PlanCache \<Rightarrow> PlanCache option" where
  "cache_Store key tmpl c =
     (if pc_disabled c then Some c
      else let k = key_String key in
        if map_of (pc_items c) k \<noteq> None then Some c
        else if int (length (pc_order c)) \<ge> pc_maxSize c then
          (case pc_order c of [] \<Rightarrow> None
           | oldest # order \<Rightarrow>
               Some (cache_append k tmpl (c\<lparr>pc_order := order, pc_items := AList.delete oldest (pc_items c)\<rparr>)))
        else Some (cache_append k tmpl c))"

definition cache_Stats :: "PlanCache \<Rightarrow> u64 \<times> u64 \<times> nat" where
  "cache_Stats c = (pc_hits c, pc_misses c, if pc_disabled c then 0 else length (pc_items c))"

section \<open>The keys\<close>

definition digit :: "byte \<Rightarrow> bool" where
  "digit b \<longleftrightarrow> 48 \<le> b \<and> b \<le> 57"

lemma digit_cases:
  assumes "0 \<le> n" "n < 10"
  shows "digit (48 + word_of_int n)" "uint (48 + word_of_int n :: byte) = 48 + n"
proof -
  have "n = 0 \<or> n = 1 \<or> n = 2 \<or> n = 3 \<or> n = 4 \<or> n = 5 \<or> n = 6 \<or> n = 7 \<or> n = 8 \<or> n = 9" using assms by arith
  then show "digit (48 + word_of_int n)" "uint (48 + word_of_int n :: byte) = 48 + n" by (auto simp: digit_def)
qed

definition dec_value :: "bytes \<Rightarrow> int" where
  "dec_value bs = foldl (\<lambda>a b. 10 * a + (uint b - 48)) 0 bs"

lemma dec_digits_ok: "0 \<le> n \<Longrightarrow> list_all digit (dec_digits n) \<and> dec_value (dec_digits n) = n"
proof (induction n rule: dec_digits.induct)
  case (1 n)
  show ?case
  proof (cases "n < 10")
    case True
    then show ?thesis using digit_cases [of n] 1(2) by (subst (1 2) dec_digits.simps) (simp add: dec_value_def)
  next
    case False
    have m: "0 \<le> n mod 10" "n mod 10 < 10" by simp_all
    show ?thesis using False 1 digit_cases [OF m] by (subst (1 2) dec_digits.simps) (simp add: dec_value_def)
  qed
qed

lemma key_String_inj: "key_String k = key_String k' \<longleftrightarrow> k = k'"
proof
  assume e: "key_String k = key_String k'"
  have d: "list_all digit (dec_int (uint v)) \<and> dec_value (dec_int (uint v)) = uint v" for v :: u64
    using dec_digits_ok [of "uint v"] by (simp add: dec_int_def)
  have not_digit: "\<not> digit 118" by (simp add: digit_def)
  have r: "takeWhile digit (rev (key_String k)) = rev (dec_int (uint (ck_SchemaVersion k)))" for k
    using d [of "ck_SchemaVersion k"] not_digit by (simp add: key_String_def takeWhile_append list_all_iff)
  have v: "dec_int (uint (ck_SchemaVersion k)) = dec_int (uint (ck_SchemaVersion k'))" using r [of k] r [of k'] e by simp
  then have "ck_SchemaVersion k = ck_SchemaVersion k'" using d word_uint_eqI by metis
  moreover have "ck_Fingerprint k = ck_Fingerprint k'" using e v by (simp add: key_String_def)
  ultimately show "k = k'" by (cases k; cases k') simp
qed simp

section \<open>The specification\<close>

datatype cache_op = OpLookup CacheKey | OpStore CacheKey PlanTemplate | OpStats

datatype cache_res = RTemplate "PlanTemplate option" | RStored | RStats u64 u64 nat

primrec cache_exec :: "cache_op \<Rightarrow> PlanCache \<Rightarrow> (PlanCache \<times> cache_res) option" where
  "cache_exec (OpLookup k) c = (case cache_Lookup k c of (c, t) \<Rightarrow> Some (c, RTemplate t))"
| "cache_exec (OpStore k t) c = map_option (\<lambda>c. (c, RStored)) (cache_Store k t c)"
| "cache_exec OpStats c = (case cache_Stats c of (h, m, n) \<Rightarrow> Some (c, RStats h m n))"

type_synonym cache_queue = "(CacheKey \<times> PlanTemplate) list \<times> u64 \<times> u64"

primrec cache_spec :: "nat \<Rightarrow> cache_op \<Rightarrow> cache_queue \<Rightarrow> cache_queue \<times> cache_res" where
  "cache_spec cap (OpLookup k) a = (case a of (q, h, m) \<Rightarrow>
     (case map_of q k of Some t \<Rightarrow> ((q, h + 1, m), RTemplate (Some t)) | None \<Rightarrow> ((q, h, m + 1), RTemplate None)))"
| "cache_spec cap (OpStore k t) a = (case a of (q, h, m) \<Rightarrow>
     (if k \<in> fst ` set q then a else ((if length q \<ge> cap then tl q else q) @ [(k, t)], h, m), RStored))"
| "cache_spec cap OpStats a = (case a of (q, h, m) \<Rightarrow> (a, RStats h m (length q)))"

definition cache_rel :: "nat \<Rightarrow> nat \<Rightarrow> PlanCache \<Rightarrow> cache_queue \<Rightarrow> bool" where
  "cache_rel cap n c a \<longleftrightarrow> (case a of (q, h, m) \<Rightarrow> \<not> pc_disabled c \<and> pc_maxSize c = int cap \<and> 0 < cap \<and> pc_hits c = h \<and> pc_misses c = m
     \<and> pc_items c = map (\<lambda>(k, t). (key_String k, t)) q \<and> pc_order c = map (key_String \<circ> fst) q
     \<and> distinct (map fst q) \<and> length q \<le> cap)"

lemma map_of_keys: "map_of (map (\<lambda>(k, t). (key_String k, t)) q) (key_String k) = map_of q k"
  by (induction q) (auto simp: key_String_inj)

lemma update_absent: "k \<notin> fst ` set al \<Longrightarrow> AList.update k v al = al @ [(k, v)]"
  by (induction al) auto

lemma delete_absent: "k \<notin> fst ` set al \<Longrightarrow> AList.delete k al = al"
  by (induction al) (auto simp: AList.delete_eq)

lemma keys_of: "key_String k \<in> fst ` set (map (\<lambda>(k, t). (key_String k, t)) q) \<longleftrightarrow> k \<in> fst ` set q"
  by (induction q) (auto simp: key_String_inj)

lemma Store_rel:
  assumes "cache_rel cap (Suc n) c a"
  shows "\<exists>c'. cache_Store k t c = Some c' \<and> cache_rel cap n c' (fst (cache_spec cap (OpStore k t) a))"
proof -
  obtain q h m where a: "a = (q, h, m)" by (cases a)
  have c: "\<not> pc_disabled c" "pc_maxSize c = int cap" "0 < cap" "pc_items c = map (\<lambda>(k, t). (key_String k, t)) q"
    "pc_order c = map (key_String \<circ> fst) q" "distinct (map fst q)" "length q \<le> cap" "pc_hits c = h" "pc_misses c = m"
    using assms a by (simp_all add: cache_rel_def)
  show ?thesis
  proof (cases "k \<in> fst ` set q")
    case True
    then have "map_of q k \<noteq> None" by (simp add: map_of_eq_None_iff)
    then show ?thesis using True c a by (simp add: cache_Store_def map_of_keys cache_rel_def)
  next
    case False
    then have none: "map_of q k = None" by (simp add: map_of_eq_None_iff)
    show ?thesis
    proof (cases "length q \<ge> cap")
      case True
      then obtain k0 t0 q' where q: "q = (k0, t0) # q'" using c(3) by (cases q) auto
      have "AList.delete (key_String k0) (map (\<lambda>(k, t). (key_String k, t)) q) = map (\<lambda>(k, t). (key_String k, t)) q'"
        using q c(6) keys_of [of k0 q'] by (simp add: delete_absent)
      then show ?thesis using True False none c a q keys_of [of k q'] map_of_keys [of q k]
        by (simp add: cache_Store_def cache_append_def Let_def key_String_inj cache_rel_def update_absent)
    next
      case False
      then show ?thesis using \<open>k \<notin> fst ` set q\<close> none c a keys_of [of k q]
        by (simp add: cache_Store_def cache_append_def Let_def map_of_keys cache_rel_def update_absent)
    qed
  qed
qed

lemma cache_step:
  assumes "cache_rel cap (Suc n) c a"
  shows "\<exists>c'. cache_exec x c = Some (c', snd (cache_spec cap x a)) \<and> cache_rel cap n c' (fst (cache_spec cap x a))"
proof (cases x)
  case (OpLookup k)
  then show ?thesis using assms by (auto simp: cache_Lookup_def cache_rel_def map_of_keys split: option.split)
next
  case (OpStore k t)
  obtain c' where c': "cache_Store k t c = Some c'" "cache_rel cap n c' (fst (cache_spec cap (OpStore k t) a))"
    using Store_rel [OF assms] by blast
  have "snd (cache_spec cap (OpStore k t) a) = RStored" by (simp split: prod.split)
  then show ?thesis using c' unfolding OpStore by (simp only: cache_exec.simps option.map) blast
next
  case OpStats
  then show ?thesis using assms by (auto simp: cache_Stats_def cache_rel_def)
qed

interpretation cachesim: simulation "cache_rel cap" cache_exec "cache_spec cap" "\<lambda>_. True" for cap
  by unfold_locales (rule cache_step)

text \<open>C16: The plan cache is a bounded queue: for every sequence of lookups, stores and statistics on a new
  cache of positive size, the answers are those of the queue that keeps the templates of the last keys
  stored for the first time.  A lookup never returns the template of another fingerprint or schema
  version, and the cache never exceeds its size.\<close>

theorem plan_cache_is_queue:
  assumes "0 < maxSize"
  shows "\<exists>c. impl_run cache_exec ops (NewPlanCache maxSize) = Some (c, snd (spec_run (cache_spec (nat maxSize)) ops ([], 0, 0)))
    \<and> int (length (pc_items c)) \<le> maxSize"
proof -
  have "cache_rel (nat maxSize) (length ops + 0) (NewPlanCache maxSize) ([], 0, 0)"
    using assms by (simp add: cache_rel_def NewPlanCache_def)
  from cachesim.run [OF this] obtain c where "impl_run cache_exec ops (NewPlanCache maxSize) = Some (c, snd (spec_run (cache_spec (nat maxSize)) ops ([], 0, 0)))"
    "cache_rel (nat maxSize) 0 c (fst (spec_run (cache_spec (nat maxSize)) ops ([], 0, 0)))" by auto
  then show ?thesis using assms by (auto simp: cache_rel_def)
qed

theorem plan_cache_is_queue_witness:
  "let t = \<lparr>pt_TableID = 7, pt_InputSchema = [], pt_OutputSchema = [], pt_WhereExpr = None, pt_Projections = None\<rparr>;
       k = \<lambda>v. \<lparr>ck_Fingerprint = [97], ck_SchemaVersion = v\<rparr> in
   \<exists>c. impl_run cache_exec [OpStore (k 1) t, OpLookup (k 1), OpStore (k 2) t, OpLookup (k 1)] (NewPlanCache 1)
     = Some (c, [RStored, RTemplate (Some t), RStored, RTemplate None]) \<and> int (length (pc_items c)) \<le> 1"
proof -
  let ?t = "\<lparr>pt_TableID = 7, pt_InputSchema = [], pt_OutputSchema = [], pt_WhereExpr = None, pt_Projections = None\<rparr>"
  let ?k = "\<lambda>v. \<lparr>ck_Fingerprint = [97], ck_SchemaVersion = v\<rparr>"
  let ?ops = "[OpStore (?k 1) ?t, OpLookup (?k 1), OpStore (?k 2) ?t, OpLookup (?k 1)]"
  have "snd (spec_run (cache_spec (nat 1)) ?ops ([], 0, 0)) = [RStored, RTemplate (Some ?t), RStored, RTemplate None]" by simp
  then show ?thesis using plan_cache_is_queue [of 1 ?ops] by (simp only: Let_def zero_less_one)
qed

end
