(* ===== verification/Schema_Codec.thy ===== *)
theory Schema_Codec
  imports Planner_Expr
begin

text \<open>
  \<open>sql/schema/schema.go\<close>: the binary form of column lists in the catalog.  A type is its number, as in
  the code, so that \<open>Decode\<close> can return any byte as a column type.  The position in the payload is the
  rest of it that is still to be read.
\<close>

datatype schema_err = SchemaTooShort | SchemaTruncated | SchemaUnsupportedType | SchemaUnknownType

record schema_datum =
  sd_Type :: byte
  sd_Value :: gval

record schema_column =
  sc_Name :: bytes
  sc_Type :: byte
  sc_NotNull :: bool
  sc_Default :: "schema_datum option"

section \<open>Encoding\<close>

text \<open>\<open>v, _ := d.Value.(T)\<close> is the zero value of \<open>T\<close> when the value has another type.\<close>

definition encodeDatum :: "schema_datum \<Rightarrow> schema_err + bytes" where
  "encodeDatum d =
     (let t = sd_Type d in
      if t = 1 then Inr (t # put_be 8 (case sd_Value d of GInt64 v \<Rightarrow> v | _ \<Rightarrow> 0))
      else if t = 2 then Inr (t # put_be 8 (case sd_Value d of GUint64 v \<Rightarrow> v | _ \<Rightarrow> 0))
      else if t = 3 then Inr (t # put_be 8 (case sd_Value d of GFloat64 v \<Rightarrow> v | _ \<Rightarrow> 0))
      else if t = 4 then Inr [t, if sd_Value d = GBool True then 1 else 0]
      else if t = 5 then (let v = (case sd_Value d of GString v \<Rightarrow> v | _ \<Rightarrow> []) in Inr (t # put_be 2 (of_nat (length v) :: u16) @ v))
      else if t = 6 then (let v = (case sd_Value d of GBytes v \<Rightarrow> v | _ \<Rightarrow> []) in Inr (t # put_be 2 (of_nat (length v) :: u16) @ v))
      else if t = 0 then Inr [t]
      else Inl SchemaUnsupportedType)"

definition encode_column :: "schema_column \<Rightarrow> schema_err + bytes" where
  "encode_column col =
     (let flags = (if sc_NotNull col then 1 else 0) OR (if sc_Default col \<noteq> None then 2 else 0 :: byte);
          buf = put_be 2 (of_nat (length (sc_Name col)) :: u16) @ sc_Name col @ [sc_Type col, flags] in
      case sc_Default col of None \<Rightarrow> Inr buf | Some d \<Rightarrow> map_sum id ((@) buf) (encodeDatum d))"

fun encode_columns :: "schema_column list \<Rightarrow> schema_err + bytes" where
  "encode_columns [] = Inr []"
| "encode_columns (c # cs) = (case encode_column c of Inl e \<Rightarrow> Inl e | Inr b \<Rightarrow> map_sum id ((@) b) (encode_columns cs))"

definition schema_Encode :: "schema_column list \<Rightarrow> schema_err + bytes" where
  "schema_Encode cols = map_sum id ((@) (put_be 2 (of_nat (length cols) :: u16))) (encode_columns cols)"

section \<open>Decoding\<close>

definition decodeDatum :: "bytes \<Rightarrow> schema_err + schema_datum \<times> nat" where
  "decodeDatum b =
     (if length b < 1 then Inl SchemaTruncated
      else let t = hd b in
        if t = 1 \<or> t = 2 \<or> t = 3 then
          (if length b < 9 then Inl SchemaTruncated
           else let u = get_be (gslice 1 9 b) in
             Inr (\<lparr>sd_Type = t, sd_Value = (if t = 1 then GInt64 u else if t = 2 then GUint64 u else GFloat64 u)\<rparr>, 9))
        else if t = 4 then
          (if length b < 2 then Inl SchemaTruncated else Inr (\<lparr>sd_Type = t, sd_Value = GBool (b ! 1 \<noteq> 0)\<rparr>, 2))
        else if t = 5 \<or> t = 6 then
          (if length b < 3 then Inl SchemaTruncated
           else let l = unat (get_be (gslice 1 3 b) :: u16) in
             if length b < 3 + l then Inl SchemaTruncated
             else Inr (\<lparr>sd_Type = t, sd_Value = (if t = 5 then GString else GBytes) (gslice 3 (3 + l) b)\<rparr>, 3 + l))
        else if t = 0 then Inr (\<lparr>sd_Type = t, sd_Value = GNil\<rparr>, 1)
        else Inl SchemaUnknownType)"

text \<open>One round of the loop of \<open>Decode\<close>: a column and the rest behind it.  A payload may end after the type
  of its last column, as in the older format without flags.\<close>

definition decode_column :: "bytes \<Rightarrow> schema_err + schema_column \<times> bytes" where
  "decode_column b =
     (if length b < 2 then Inl SchemaTruncated
      else let nameLen = unat (get_be (gslice 0 2 b) :: u16); b = drop 2 b in
        if length b < nameLen then Inl SchemaTruncated
        else let name = take nameLen b; b = drop nameLen b in
          case b of
            [] \<Rightarrow> Inl SchemaTruncated
          | [t] \<Rightarrow> Inr (\<lparr>sc_Name = name, sc_Type = t, sc_NotNull = False, sc_Default = None\<rparr>, [])
          | t # flags # b \<Rightarrow>
            (let col = \<lparr>sc_Name = name, sc_Type = t, sc_NotNull = (flags AND 1 \<noteq> 0), sc_Default = None\<rparr> in
             if flags AND 2 \<noteq> 0 then
               (case decodeDatum b of Inl e \<Rightarrow> Inl e | Inr (dv, n) \<Rightarrow> Inr (col\<lparr>sc_Default := Some dv\<rparr>, drop n b))
             else Inr (col, b)))"

fun decode_columns :: "nat \<Rightarrow> bytes \<Rightarrow> schema_err + schema_column list" where
  "decode_columns 0 b = Inr []"
| "decode_columns (Suc n) b =
     (case decode_column b of Inl e \<Rightarrow> Inl e | Inr (c, b) \<Rightarrow> map_sum id ((#) c) (decode_columns n b))"

definition schema_Decode :: "bytes \<Rightarrow> schema_err + schema_column list" where
  "schema_Decode payload =
     (if length payload < 2 then Inl SchemaTooShort
      else decode_columns (unat (get_be (gslice 0 2 payload) :: u16)) (drop 2 payload))"

section \<open>Round trip\<close>

definition default_ok :: "schema_datum \<Rightarrow> bool" where
  "default_ok d \<longleftrightarrow> (case sd_Value d of GNil \<Rightarrow> sd_Type d = 0 | GInt64 _ \<Rightarrow> sd_Type d = 1 | GUint64 _ \<Rightarrow> sd_Type d = 2
     | GFloat64 _ \<Rightarrow> sd_Type d = 3 | GBool _ \<Rightarrow> sd_Type d = 4 | GString s \<Rightarrow> sd_Type d = 5 \<and> length s < 65536
     | GBytes s \<Rightarrow> sd_Type d = 6 \<and> length s < 65536)"

definition column_ok :: "schema_column \<Rightarrow> bool" where
  "column_ok c \<longleftrightarrow> length (sc_Name c) < 65536 \<and> (\<forall>d. sc_Default c = Some d \<longrightarrow> default_ok d)"

lemma unat_len16: "n < 65536 \<Longrightarrow> unat (of_nat n :: u16) = n"
  by (simp add: unat_of_nat)

lemma datum_roundtrip:
  assumes "default_ok d"
  shows "\<exists>b. encodeDatum d = Inr b \<and> decodeDatum (b @ rest) = Inr (d, length b)"
proof (cases d)
  case (fields t v)
  then show ?thesis using assms
    by (cases v) (auto simp: default_ok_def encodeDatum_def decodeDatum_def Let_def gslice_def get_put_be_u64 get_put_be_u16 unat_len16)
qed

lemma column_roundtrip:
  assumes "column_ok c"
  shows "\<exists>b. encode_column c = Inr b \<and> decode_column (b @ rest) = Inr (c, rest)"
proof -
  obtain name t nn dv where c: "c = \<lparr>sc_Name = name, sc_Type = t, sc_NotNull = nn, sc_Default = dv\<rparr>" by (cases c)
  have n: "unat (of_nat (length name) :: u16) = length name" using assms c by (simp add: column_ok_def unat_len16)
  have flags: "((if nn then 1 else 0) OR (2 :: byte)) AND 1 \<noteq> 0 \<longleftrightarrow> nn" "((if nn then 1 else 0) OR (0 :: byte)) AND 1 \<noteq> 0 \<longleftrightarrow> nn"
    "((if nn then 1 else 0) OR (2 :: byte)) AND 2 \<noteq> 0" "((if nn then 1 else 0) OR (0 :: byte)) AND 2 = 0" by (cases nn; simp)+
  show ?thesis
  proof (cases dv)
    case None
    then show ?thesis using c n flags by (auto simp: encode_column_def decode_column_def Let_def gslice_def get_put_be_u16)
  next
    case (Some d)
    then obtain b where "encodeDatum d = Inr b" "decodeDatum (b @ rest) = Inr (d, length b)"
      using datum_roundtrip [of d rest] assms c by (auto simp: column_ok_def)
    then show ?thesis using Some c n flags by (auto simp: encode_column_def decode_column_def Let_def gslice_def get_put_be_u16)
  qed
qed

lemma columns_roundtrip:
  "\<forall>c \<in> set cs. column_ok c \<Longrightarrow> \<exists>b. encode_columns cs = Inr b \<and> decode_columns (length cs) (b @ rest) = Inr cs"
proof (induction cs)
  case (Cons c cs)
  then obtain b where b: "encode_columns cs = Inr b" "decode_columns (length cs) (b @ rest) = Inr cs" by auto
  obtain b' where "encode_column c = Inr b'" "decode_column (b' @ b @ rest) = Inr (c, b @ rest)"
    using column_roundtrip [of c "b @ rest"] Cons.prems by auto
  then show ?case using b by simp
qed simp



end
