(* ===== verification/Vacuum_Manager.thy ===== *)
theory Vacuum_Manager
  imports Prelude "HOL-Library.Multiset"
begin

text \<open>
  \<open>sql/vacuum/vacuum.go\<close>: the pool of workers that delete the files of dropped tables.  A call that holds
  the mutex is one step, and so is each step of a worker between two synchronisations; \<open>Stop\<close> is two
  steps, the change of state under the mutex and the closing of the stop channel, with steps of the
  workers between and after them.  The history of the paths given to \<open>os.Remove\<close>, whose errors the code
  ignores, stands for the file system.
\<close>

section \<open>The manager\<close>

datatype vm_State = VmNew | VmStarted | VmStopped

datatype vm_err =
    ErrInvalidWorkerCount | ErrInvalidQueueSize | ErrSystemTableDeletionForbidden | ErrVacuumNotStarted
  | ErrVacuumAlreadyStarted | ErrVacuumStopped | ErrVacuumQueueFull

record DeletionRequest =
  dr_TableID :: u64
  dr_FilePath :: bytes

text \<open>Where a worker is: in the outer \<open>select\<close>, in \<open>process\<close> before or after \<open>os.Remove\<close> (called from the inner
  loop, or not), in the inner \<open>select\<close> after the stop signal, or returned.\<close>

datatype vm_worker = WSelect | WRemove bool DeletionRequest | WCount bool | WDrain | WDone

record VacuumManager =
  vm_state :: vm_State
  vm_pending :: "DeletionRequest list"
  vm_queueSize :: nat
  vm_pendingCount :: int
  vm_workers :: int
  vm_running :: "vm_worker list"
  vm_stopClosed :: bool
  vm_removed :: "bytes list"

definition vm_NewManager :: "int \<Rightarrow> int \<Rightarrow> vm_err + VacuumManager" where
  "vm_NewManager workers queueSize =
     (if workers < 1 then Inl ErrInvalidWorkerCount
      else if queueSize < 1 then Inl ErrInvalidQueueSize
      else Inr \<lparr>vm_state = VmNew, vm_pending = [], vm_queueSize = nat queueSize, vm_pendingCount = 0, vm_workers = workers,
                vm_running = [], vm_stopClosed = False, vm_removed = []\<rparr>)"

definition vm_Start :: "VacuumManager \<Rightarrow> VacuumManager \<times> (vm_err + unit)" where
  "vm_Start m =
     (if vm_state m = VmStarted then (m, Inl ErrVacuumAlreadyStarted)
      else if vm_state m = VmStopped then (m, Inl ErrVacuumStopped)
      else (m\<lparr>vm_running := vm_running m @ replicate (nat (vm_workers m)) WSelect, vm_state := VmStarted\<rparr>, Inr ()))"

definition ScheduleDeletion :: "u64 \<Rightarrow> bytes \<Rightarrow> VacuumManager \<Rightarrow> VacuumManager \<times> (vm_err + unit)" where
  "ScheduleDeletion tableID filePath m =
     (if tableID \<ge> 1 \<and> tableID \<le> 999 then (m, Inl ErrSystemTableDeletionForbidden)
      else if vm_state m \<noteq> VmStarted then
        (m, Inl (if vm_state m = VmNew then ErrVacuumNotStarted else ErrVacuumStopped))
      else if length (vm_pending m) < vm_queueSize m then
        (m\<lparr>vm_pending := vm_pending m @ [\<lparr>dr_TableID = tableID, dr_FilePath = filePath\<rparr>],
           vm_pendingCount := vm_pendingCount m + 1\<rparr>, Inr ())
      else (m, Inl ErrVacuumQueueFull))"

text \<open>The first half of \<open>Stop\<close>, under the mutex.\<close>

definition vm_Stop :: "VacuumManager \<Rightarrow> VacuumManager \<times> (vm_err + unit)" where
  "vm_Stop m = (if vm_state m \<noteq> VmStarted then (m, Inl ErrVacuumNotStarted) else (m\<lparr>vm_state := VmStopped\<rparr>, Inr ()))"

text \<open>A step of one of the workers.  A \<open>select\<close> with two ready cases takes either.\<close>

inductive worker_step :: "VacuumManager \<Rightarrow> VacuumManager \<Rightarrow> bool" where
  receive: "vm_running m = us @ WSelect # vs \<Longrightarrow> vm_pending m = r # rs \<Longrightarrow>
    worker_step m (m\<lparr>vm_running := us @ WRemove False r # vs, vm_pending := rs\<rparr>)"
| stopped: "vm_running m = us @ WSelect # vs \<Longrightarrow> vm_stopClosed m \<Longrightarrow> worker_step m (m\<lparr>vm_running := us @ WDrain # vs\<rparr>)"
| remove: "vm_running m = us @ WRemove d r # vs \<Longrightarrow>
    worker_step m (m\<lparr>vm_running := us @ WCount d # vs, vm_removed := vm_removed m @ [dr_FilePath r]\<rparr>)"
| count: "vm_running m = us @ WCount d # vs \<Longrightarrow>
    worker_step m (m\<lparr>vm_running := us @ (if d then WDrain else WSelect) # vs, vm_pendingCount := vm_pendingCount m - 1\<rparr>)"
| drain: "vm_running m = us @ WDrain # vs \<Longrightarrow> vm_pending m = r # rs \<Longrightarrow>
    worker_step m (m\<lparr>vm_running := us @ WRemove True r # vs, vm_pending := rs\<rparr>)"
| finish: "vm_running m = us @ WDrain # vs \<Longrightarrow> vm_pending m = [] \<Longrightarrow> worker_step m (m\<lparr>vm_running := us @ WDone # vs\<rparr>)"

text \<open>The states a manager can be in, with the requests it has accepted: any interleaving of calls, of the
  closing of the stop channel by a \<open>Stop\<close> in progress, and of steps of the workers.\<close>

inductive vm_reach :: "DeletionRequest list \<Rightarrow> VacuumManager \<Rightarrow> bool" where
  new: "vm_NewManager workers queueSize = Inr m \<Longrightarrow> vm_reach [] m"
| start: "vm_reach acc m \<Longrightarrow> vm_Start m = (m', r) \<Longrightarrow> vm_reach acc m'"
| schedule: "vm_reach acc m \<Longrightarrow> ScheduleDeletion tableID filePath m = (m', r) \<Longrightarrow>
    vm_reach (if r = Inr () then acc @ [\<lparr>dr_TableID = tableID, dr_FilePath = filePath\<rparr>] else acc) m'"
| stop: "vm_reach acc m \<Longrightarrow> vm_Stop m = (m', r) \<Longrightarrow> vm_reach acc m'"
| close: "vm_reach acc m \<Longrightarrow> vm_state m = VmStopped \<Longrightarrow> vm_reach acc (m\<lparr>vm_stopClosed := True\<rparr>)"
| work: "vm_reach acc m \<Longrightarrow> worker_step m m' \<Longrightarrow> vm_reach acc m'"

section \<open>No request is lost\<close>

definition in_flight :: "vm_worker \<Rightarrow> DeletionRequest list" where
  "in_flight w = (case w of WRemove _ r \<Rightarrow> [r] | _ \<Rightarrow> [])"

definition busy :: "vm_worker \<Rightarrow> bool" where
  "busy w \<longleftrightarrow> (case w of WRemove _ _ \<Rightarrow> True | WCount _ \<Rightarrow> True | _ \<Rightarrow> False)"

text \<open>Every accepted path has been removed, is queued, or is in the hands of a worker.\<close>

definition conserved :: "DeletionRequest list \<Rightarrow> VacuumManager \<Rightarrow> bool" where
  "conserved acc m \<longleftrightarrow> mset (map dr_FilePath acc) = mset (vm_removed m) + mset (map dr_FilePath (vm_pending m))
     + mset (map dr_FilePath (concat (map in_flight (vm_running m))))"

definition counted :: "VacuumManager \<Rightarrow> bool" where
  "counted m \<longleftrightarrow> vm_pendingCount m = int (length (vm_pending m)) + int (length (filter busy (vm_running m)))
     \<and> length (vm_pending m) \<le> vm_queueSize m"

definition draining :: "vm_worker \<Rightarrow> bool" where
  "draining w \<longleftrightarrow> (case w of WRemove d _ \<Rightarrow> d | WCount d \<Rightarrow> d | WSelect \<Rightarrow> False | _ \<Rightarrow> True)"

definition phases :: "VacuumManager \<Rightarrow> bool" where
  "phases m \<longleftrightarrow> 1 \<le> vm_workers m \<and> length (vm_running m) = (if vm_state m = VmNew then 0 else nat (vm_workers m))
     \<and> (vm_stopClosed m \<longrightarrow> vm_state m = VmStopped) \<and> (list_ex draining (vm_running m) \<longrightarrow> vm_stopClosed m)
     \<and> (WDone \<in> set (vm_running m) \<longrightarrow> vm_pending m = [])"

lemmas worker_simps = in_flight_def busy_def draining_def

lemma worker_step_conserved: "worker_step m m' \<Longrightarrow> conserved acc m \<Longrightarrow> conserved acc m'"
  by (induction rule: worker_step.induct) (simp_all add: conserved_def in_flight_def)

lemma worker_step_counted: "worker_step m m' \<Longrightarrow> counted m \<Longrightarrow> counted m'"
  by (induction rule: worker_step.induct) (simp_all add: counted_def busy_def)

lemma worker_step_phases: "worker_step m m' \<Longrightarrow> phases m \<Longrightarrow> phases m'"
  by (induction rule: worker_step.induct) (simp_all add: phases_def draining_def split: if_splits)

lemma fresh_workers [simp]: "\<not> list_ex draining (replicate n WSelect)"
  by (induction n) (auto simp: draining_def)

lemma vm_reach_inv: "vm_reach acc m \<Longrightarrow> conserved acc m \<and> counted m \<and> phases m"
proof (induction rule: vm_reach.induct)
  case (new workers queueSize m)
  then show ?case by (auto simp: vm_NewManager_def conserved_def counted_def phases_def split: if_splits)
next
  case (start acc m m' r)
  then show ?case
    by (cases "vm_state m")
      (auto simp: vm_Start_def conserved_def counted_def phases_def worker_simps filter_replicate split: if_splits)
next
  case (schedule acc m tableID filePath m' r)
  have "WDone \<in> set (vm_running m) \<Longrightarrow> list_ex draining (vm_running m)" by (auto simp: list_ex_iff draining_def intro!: bexI [of _ WDone])
  then show ?case using schedule by (auto simp: ScheduleDeletion_def conserved_def counted_def phases_def split: if_splits)
next
  case (stop acc m m' r)
  then show ?case by (auto simp: vm_Stop_def conserved_def counted_def phases_def split: if_splits)
next
  case (close acc m)
  then show ?case by (auto simp: conserved_def counted_def phases_def)
next
  case (work acc m m')
  then show ?case using worker_step_conserved worker_step_counted worker_step_phases by blast
qed

section \<open>Stopping\<close>

primrec weight :: "vm_worker \<Rightarrow> nat" where
  "weight WSelect = 2"
| "weight (WRemove d r) = (if d then 3 else 4)"
| "weight (WCount d) = (if d then 2 else 3)"
| "weight WDrain = 1"
| "weight WDone = 0"

definition work_left :: "VacuumManager \<Rightarrow> nat" where
  "work_left m = 3 * length (vm_pending m) + sum_list (map weight (vm_running m))"

lemma worker_step_decreases: "worker_step m m' \<Longrightarrow> work_left m' < work_left m"
  by (induction rule: worker_step.induct) (auto simp: work_left_def split: if_splits)

lemma worker_enabled:
  assumes "vm_stopClosed m" "w \<in> set (vm_running m)" "w \<noteq> WDone"
  shows "\<exists>m'. worker_step m m'"
proof -
  obtain us vs where "vm_running m = us @ w # vs" using assms(2) by (auto simp: in_set_conv_decomp)
  then show ?thesis
  proof (cases w)
    case WDrain
    then show ?thesis using \<open>vm_running m = us @ w # vs\<close> worker_step.drain [of m us vs] worker_step.finish [of m us vs]
      by (cases "vm_pending m") auto
  qed (use assms(1,3) worker_step.stopped [of m us vs] worker_step.remove [of m us _ _ vs] worker_step.count [of m us _ vs] in auto)
qed

lemma no_endless_work: "\<not> (\<exists>f. f 0 = m \<and> (\<forall>i. worker_step (f i) (f (Suc i))))"
proof
  assume "\<exists>f. f 0 = m \<and> (\<forall>i. worker_step (f i) (f (Suc i)))"
  then obtain f where f: "\<And>i. worker_step (f i) (f (Suc i))" by blast
  have "work_left (f i) + i \<le> work_left (f 0)" for i
  proof (induction i)
    case (Suc i)
    then show ?case using worker_step_decreases [OF f [of i]] by simp
  qed simp
  from this [of "Suc (work_left (f 0))"] show False by simp
qed

lemma work_ends: "\<exists>m'. worker_step\<^sup>*\<^sup>* m m' \<and> (\<nexists>m''. worker_step m' m'')"
proof (induction m rule: measure_induct_rule [of work_left])
  case (less m)
  then show ?case by (meson worker_step_decreases converse_rtranclp_into_rtranclp rtranclp.rtrancl_refl)
qed

lemma reach_work: "worker_step\<^sup>*\<^sup>* m m' \<Longrightarrow> vm_reach acc m \<Longrightarrow> vm_reach acc m'"
  by (induction rule: rtranclp_induct) (auto intro: vm_reach.work)

lemma stopClosed_stays: "worker_step\<^sup>*\<^sup>* m m' \<Longrightarrow> vm_stopClosed m' = vm_stopClosed m"
proof (induction rule: rtranclp_induct)
  case (step m' m'')
  from step.hyps(2) have "vm_stopClosed m'' = vm_stopClosed m'" by cases simp_all
  then show ?case using step.IH by simp
qed simp

text \<open>C14: \<open>Stop\<close> drains the queue: in every state a manager can reach in which the stop channel is
  closed, however its workers are scheduled, they stop taking steps after finitely many; and they
  can take none only when all of them have returned, so that \<open>Stop\<close> returns.  By then the queue is
  empty, the count of pending requests is zero, and every accepted request has been carried out
  exactly once.\<close>

theorem vacuum_stop_drains:
  assumes "vm_reach acc m" "vm_stopClosed m"
  shows "\<not> (\<exists>f. f 0 = m \<and> (\<forall>i. worker_step (f i) (f (Suc i))))
    \<and> (\<forall>m'. worker_step\<^sup>*\<^sup>* m m' \<and> (\<nexists>m''. worker_step m' m'') \<longrightarrow>
        (\<forall>w \<in> set (vm_running m'). w = WDone) \<and> vm_pending m' = [] \<and> vm_pendingCount m' = 0
        \<and> mset (vm_removed m') = mset (map dr_FilePath acc))"
proof (intro conjI no_endless_work allI impI)
  fix m' assume "worker_step\<^sup>*\<^sup>* m m' \<and> (\<nexists>m''. worker_step m' m'')"
  then have m': "worker_step\<^sup>*\<^sup>* m m'" "\<nexists>m''. worker_step m' m''" by simp_all
  have i: "conserved acc m'" "counted m'" "phases m'" using vm_reach_inv [OF reach_work [OF m'(1) assms(1)]] by simp_all
  have c: "vm_stopClosed m'" using stopClosed_stays [OF m'(1)] assms(2) by simp
  show fin: "\<forall>w \<in> set (vm_running m'). w = WDone" using worker_enabled [OF c] m'(2) by blast
  have "vm_running m' \<noteq> []" using i(3) c by (auto simp: phases_def)
  then have "WDone \<in> set (vm_running m')" using fin by (cases "vm_running m'") auto
  then show p: "vm_pending m' = []" using i(3) by (simp add: phases_def)
  have "filter busy (vm_running m') = []" "concat (map in_flight (vm_running m')) = []"
    using fin by (auto simp: filter_empty_conv worker_simps)
  then show "vm_pendingCount m' = 0" "mset (vm_removed m') = mset (map dr_FilePath acc)"
    using i(1,2) p by (simp_all add: counted_def conserved_def)
qed

definition demo_manager :: "VacuumManager" where
  "demo_manager = (case vm_NewManager 2 4 of Inr m \<Rightarrow>
     fst (vm_Stop (fst (ScheduleDeletion 1000 [102] (fst (vm_Start m)))))\<lparr>vm_stopClosed := True\<rparr>)"

theorem vacuum_stop_drains_witness:
  "vm_reach [\<lparr>dr_TableID = 1000, dr_FilePath = [102]\<rparr>] demo_manager
    \<and> \<not> (\<exists>f. f 0 = demo_manager \<and> (\<forall>i. worker_step (f i) (f (Suc i))))
    \<and> (\<exists>m'. worker_step\<^sup>*\<^sup>* demo_manager m' \<and> list_all (\<lambda>w. w = WDone) (vm_running m') \<and> vm_pending m' = []
        \<and> vm_pendingCount m' = 0 \<and> mset (vm_removed m') = {#[102]#})"
proof -
  obtain m where m: "vm_NewManager 2 4 = Inr m" by (simp add: vm_NewManager_def)
  let ?m1 = "fst (vm_Start m)" let ?m2 = "fst (ScheduleDeletion 1000 [102] ?m1)" let ?m3 = "fst (vm_Stop ?m2)"
  have r1: "vm_reach [] ?m1" using vm_reach.start [OF vm_reach.new [OF m]] by (metis prod.collapse)
  have s: "ScheduleDeletion 1000 [102] ?m1 = (?m2, Inr ())" "vm_Stop ?m2 = (?m3, Inr ())" "vm_state ?m3 = VmStopped"
    using m by (auto simp: vm_NewManager_def vm_Start_def ScheduleDeletion_def vm_Stop_def)
  have "vm_reach [\<lparr>dr_TableID = 1000, dr_FilePath = [102]\<rparr>] ?m2" using vm_reach.schedule [OF r1 s(1)] by simp
  from vm_reach.close [OF vm_reach.stop [OF this s(2)] s(3)]
  have r: "vm_reach [\<lparr>dr_TableID = 1000, dr_FilePath = [102]\<rparr>] demo_manager" by (simp add: demo_manager_def m)
  have c: "vm_stopClosed demo_manager" by (simp add: demo_manager_def m)
  obtain m' where m': "worker_step\<^sup>*\<^sup>* demo_manager m'" "\<nexists>m''. worker_step m' m''" using work_ends by blast
  note d = vacuum_stop_drains [OF r c]
  have "list_all (\<lambda>w. w = WDone) (vm_running m') \<and> vm_pending m' = [] \<and> vm_pendingCount m' = 0 \<and> mset (vm_removed m') = {#[102]#}"
    using d m' by (simp add: list_all_iff)
  then show ?thesis using r d m'(1) by blast
qed

end
