(* ===== verification/Gorilla.thy ===== *)
theory Gorilla
  imports Prelude "HOL-Library.Monad_Syntax"
begin

text \<open>
  \<open>engine/metrics/gorilla.go\<close>: the bit-level compression of timestamps (differences of differences)
  and values (exclusive or with the previous value).  An \<open>int64\<close> is a 64-bit word read with
  \<open>sint\<close>, a \<open>float64\<close> the word of its bits.  A decoder function returns \<open>None\<close> where the code panics,
  reading beyond the buffer or shifting by a negative count.
\<close>

section \<open>The encoder\<close>

record gorillaEncoder =
  ge_buf :: bytes
  ge_bitPos :: nat
  ge_prevTime :: u64
  ge_prevDelta :: u64
  ge_prevValue :: u64
  ge_prevLeading :: int
  ge_prevTrailing :: int
  ge_hasPrevTime :: bool
  ge_hasPrevValue :: bool

definition newGorillaEncoder :: "nat \<Rightarrow> gorillaEncoder" where
  "newGorillaEncoder c =
     \<lparr>ge_buf = zero_bytes c, ge_bitPos = 0, ge_prevTime = 0, ge_prevDelta = 0, ge_prevValue = 0, ge_prevLeading = 0,
      ge_prevTrailing = 0, ge_hasPrevTime = False, ge_hasPrevValue = False\<rparr>"

definition gorilla_bytes :: "gorillaEncoder \<Rightarrow> bytes" where
  "gorilla_bytes e = take ((ge_bitPos e + 7) div 8) (ge_buf e)"

definition ensureCapacity :: "nat \<Rightarrow> gorillaEncoder \<Rightarrow> gorillaEncoder" where
  "ensureCapacity bits e =
     (let needed = (ge_bitPos e + bits + 7) div 8 in
      if needed \<le> length (ge_buf e) then e else e\<lparr>ge_buf := copy_at 0 (ge_buf e) (zero_bytes (needed * 2))\<rparr>)"

definition writeBit :: "byte \<Rightarrow> gorillaEncoder \<Rightarrow> gorillaEncoder" where
  "writeBit b e =
     (let e = ensureCapacity 1 e;
          byteIdx = ge_bitPos e div 8;
          bitIdx = 7 - ge_bitPos e mod 8;
          e = (if b \<noteq> 0 then e\<lparr>ge_buf := (ge_buf e)[byteIdx := ge_buf e ! byteIdx OR push_bit bitIdx 1]\<rparr> else e) in
      e\<lparr>ge_bitPos := ge_bitPos e + 1\<rparr>)"

primrec write_loop :: "u64 \<Rightarrow> nat \<Rightarrow> gorillaEncoder \<Rightarrow> gorillaEncoder" where
  "write_loop v 0 e = e"
| "write_loop v (Suc i) e = write_loop v i (writeBit (ucast (drop_bit i v AND 1)) e)"

definition writeBits :: "u64 \<Rightarrow> nat \<Rightarrow> gorillaEncoder \<Rightarrow> gorillaEncoder" where
  "writeBits v nBits e = write_loop v nBits (ensureCapacity nBits e)"

definition writeTimestamp :: "u64 \<Rightarrow> gorillaEncoder \<Rightarrow> gorillaEncoder" where
  "writeTimestamp ts e =
     (if \<not> ge_hasPrevTime e then
        (writeBits ts 64 e)\<lparr>ge_prevTime := ts, ge_prevDelta := 0, ge_hasPrevTime := True\<rparr>
      else
        let delta = ts - ge_prevTime e;
            dod = delta - ge_prevDelta e;
            e = (if dod = 0 then writeBit 0 e
                 else if sint dod \<ge> -63 \<and> sint dod \<le> 64 then writeBits (dod AND 0x7F) 7 (writeBits 0x02 2 e)
                 else if sint dod \<ge> -255 \<and> sint dod \<le> 256 then writeBits (dod AND 0x1FF) 9 (writeBits 0x06 3 e)
                 else if sint dod \<ge> -2047 \<and> sint dod \<le> 2048 then writeBits (dod AND 0xFFF) 12 (writeBits 0x0E 4 e)
                 else writeBits dod 32 (writeBits 0x0F 4 e)) in
        e\<lparr>ge_prevTime := ts, ge_prevDelta := delta\<rparr>)"

text \<open>One of the five \<open>if\<close> statements of \<open>leadingZeros64\<close> that test the upper \<open>k\<close> bits.\<close>

fun lz_step :: "nat \<Rightarrow> int \<times> u64 \<Rightarrow> int \<times> u64" where
  "lz_step k (n, x) = (if drop_bit (64 - k) x = 0 then (n + int k, push_bit k x) else (n, x))"

definition leadingZeros64 :: "u64 \<Rightarrow> int" where
  "leadingZeros64 x =
     (if x = 0 then 64
      else let (n, x) = lz_step 2 (lz_step 4 (lz_step 8 (lz_step 16 (lz_step 32 (0, x))))) in
           if drop_bit 63 x = 0 then n + 1 else n)"

text \<open>The loop of \<open>trailingZeros64\<close>; the argument is never 0 there.\<close>

function tz_loop :: "u64 \<Rightarrow> int" where
  "tz_loop x = (if x = 0 \<or> x AND 1 \<noteq> 0 then 0 else 1 + tz_loop (drop_bit 1 x))"
  by auto
termination
  by (relation "measure unat") (auto simp: drop_bit_eq_div unat_div_distrib unat_gt_0)

declare tz_loop.simps [simp del]

definition trailingZeros64 :: "u64 \<Rightarrow> int" where
  "trailingZeros64 x = (if x = 0 then 64 else tz_loop x)"

definition writeFloat :: "u64 \<Rightarrow> gorillaEncoder \<Rightarrow> gorillaEncoder" where
  "writeFloat bits e =
     (if \<not> ge_hasPrevValue e then (writeBits bits 64 e)\<lparr>ge_prevValue := bits, ge_hasPrevValue := True\<rparr>
      else
        let x = bits XOR ge_prevValue e;
            e = (if x = 0 then writeBit 0 e
                 else
                   let e = writeBit 1 e; leading = leadingZeros64 x; trailing = trailingZeros64 x in
                   if leading \<ge> ge_prevLeading e \<and> trailing \<ge> ge_prevTrailing e then
                     let e = writeBit 0 e;
                         meaningfulLen = nat (64 - ge_prevLeading e - ge_prevTrailing e);
                         meaningful = drop_bit (nat (ge_prevTrailing e)) x AND (push_bit meaningfulLen 1 - 1) in
                     writeBits meaningful meaningfulLen e
                   else
                     let e = writeBits (word_of_int leading) 5 (writeBit 1 e);
                         meaningfulLen = 64 - leading - trailing;
                         e = writeBits (word_of_int meaningfulLen) 6 e;
                         meaningful = drop_bit (nat trailing) x AND (push_bit (nat meaningfulLen) 1 - 1) in
                     (writeBits meaningful (nat meaningfulLen) e)\<lparr>ge_prevLeading := leading, ge_prevTrailing := trailing\<rparr>) in
        e\<lparr>ge_prevValue := bits\<rparr>)"

section \<open>The decoder\<close>

record gorillaDecoder =
  gd_buf :: bytes
  gd_bitPos :: nat
  gd_prevTime :: u64
  gd_prevDelta :: u64
  gd_prevValue :: u64
  gd_prevLeading :: int
  gd_prevTrailing :: int
  gd_hasPrevTime :: bool
  gd_hasPrevValue :: bool

definition newGorillaDecoder :: "bytes \<Rightarrow> gorillaDecoder" where
  "newGorillaDecoder data =
     \<lparr>gd_buf = data, gd_bitPos = 0, gd_prevTime = 0, gd_prevDelta = 0, gd_prevValue = 0, gd_prevLeading = 0,
      gd_prevTrailing = 0, gd_hasPrevTime = False, gd_hasPrevValue = False\<rparr>"

definition readBit :: "gorillaDecoder \<Rightarrow> (byte \<times> gorillaDecoder) option" where
  "readBit d =
     (let byteIdx = gd_bitPos d div 8; bitIdx = 7 - gd_bitPos d mod 8 in
      if byteIdx \<ge> length (gd_buf d) then None
      else Some (drop_bit bitIdx (gd_buf d ! byteIdx) AND 1, d\<lparr>gd_bitPos := gd_bitPos d + 1\<rparr>))"

primrec read_loop :: "nat \<Rightarrow> u64 \<Rightarrow> gorillaDecoder \<Rightarrow> (u64 \<times> gorillaDecoder) option" where
  "read_loop 0 v d = Some (v, d)"
| "read_loop (Suc n) v d = do { (b, d) \<leftarrow> readBit d; read_loop n (push_bit 1 v OR ucast b) d }"

definition readBits :: "nat \<Rightarrow> gorillaDecoder \<Rightarrow> (u64 \<times> gorillaDecoder) option" where
  "readBits nBits d = read_loop nBits 0 d"

definition read_dod :: "gorillaDecoder \<Rightarrow> (u64 \<times> gorillaDecoder) option" where
  "read_dod d =
     do { (control, d) \<leftarrow> readBit d;
          if control = 0 then Some (0, d)
          else do { (control2, d) \<leftarrow> readBit d;
          if control2 = 0 then
            do { (dod, d) \<leftarrow> readBits 7 d; Some (if dod AND 0x40 \<noteq> 0 then dod - 128 else dod, d) }
          else do { (control3, d) \<leftarrow> readBit d;
          if control3 = 0 then
            do { (dod, d) \<leftarrow> readBits 9 d; Some (if sint dod > 256 then dod - 512 else dod, d) }
          else do { (control4, d) \<leftarrow> readBit d;
          if control4 = 0 then
            do { (dod, d) \<leftarrow> readBits 12 d; Some (if sint dod > 2048 then dod - 4096 else dod, d) }
          else
            do { (dod, d) \<leftarrow> readBits 32 d; Some (if sint dod > 0x7FFFFFFF then dod - 0x100000000 else dod, d) } } } } }"

definition readTimestamp :: "gorillaDecoder \<Rightarrow> (u64 \<times> gorillaDecoder) option" where
  "readTimestamp d =
     (if \<not> gd_hasPrevTime d then
        do { (ts, d) \<leftarrow> readBits 64 d; Some (ts, d\<lparr>gd_prevTime := ts, gd_prevDelta := 0, gd_hasPrevTime := True\<rparr>) }
      else
        do { (dod, d) \<leftarrow> read_dod d;
             let dod = dod + gd_prevDelta d; ts = gd_prevTime d + dod in
             Some (ts, d\<lparr>gd_prevDelta := dod, gd_prevTime := ts\<rparr>) })"

definition readFloat :: "gorillaDecoder \<Rightarrow> (u64 \<times> gorillaDecoder) option" where
  "readFloat d =
     (if \<not> gd_hasPrevValue d then
        do { (bits, d) \<leftarrow> readBits 64 d; Some (bits, d\<lparr>gd_prevValue := bits, gd_hasPrevValue := True\<rparr>) }
      else
        do { (b, d) \<leftarrow> readBit d;
             (val, d) \<leftarrow>
               (if b = 0 then Some (gd_prevValue d, d)
                else do { (control, d) \<leftarrow> readBit d;
                  (xo, d) \<leftarrow>
                    (if control = 0 then
                       do { (meaningful, d) \<leftarrow> readBits (nat (64 - gd_prevLeading d - gd_prevTrailing d)) d;
                            if gd_prevTrailing d < 0 then None
                            else Some (push_bit (nat (gd_prevTrailing d)) meaningful, d) }
                     else
                       do { (leading, d) \<leftarrow> readBits 5 d;
                            (meaningfulLen, d) \<leftarrow> readBits 6 d;
                            let trailing = 64 - uint leading - uint meaningfulLen in
                            do { (meaningful, d) \<leftarrow> readBits (unat meaningfulLen) d;
                                 if trailing < 0 then None
                                 else Some (push_bit (nat trailing) meaningful,
                                   d\<lparr>gd_prevLeading := uint leading, gd_prevTrailing := trailing\<rparr>) } });
                  Some (gd_prevValue d XOR xo, d) });
             Some (val, d\<lparr>gd_prevValue := val\<rparr>) })"

definition gorilla_remaining :: "gorillaDecoder \<Rightarrow> int" where
  "gorilla_remaining d = int (length (gd_buf d)) * 8 - int (gd_bitPos d)"

section \<open>Bit streams\<close>

definition buf_bit :: "bytes \<Rightarrow> nat \<Rightarrow> bool" where
  "buf_bit buf i = bit (buf ! (i div 8)) (7 - i mod 8)"

definition written :: "gorillaEncoder \<Rightarrow> bool list" where
  "written e = map (buf_bit (ge_buf e)) [0..<ge_bitPos e]"

text \<open>The buffer holds the position, and is zero from there on.\<close>

definition enc_ok :: "gorillaEncoder \<Rightarrow> bool" where
  "enc_ok e \<longleftrightarrow> ge_bitPos e \<le> 8 * length (ge_buf e) \<and> (\<forall>i. ge_bitPos e \<le> i \<longrightarrow> i < 8 * length (ge_buf e) \<longrightarrow> \<not> buf_bit (ge_buf e) i)"

definition low_bits :: "nat \<Rightarrow> u64 \<Rightarrow> bool list" where
  "low_bits n v = map (bit v) (rev [0..<n])"

text \<open>The step from \<open>e\<close> to \<open>e'\<close> writes the bits \<open>out\<close> and changes nothing else.\<close>

definition emits :: "gorillaEncoder \<Rightarrow> gorillaEncoder \<Rightarrow> bool list \<Rightarrow> bool" where
  "emits e e' out \<longleftrightarrow> enc_ok e' \<and> written e' = written e @ out \<and> e' = e\<lparr>ge_buf := ge_buf e', ge_bitPos := ge_bitPos e'\<rparr>"

lemma emits_trans: "emits e e' xs \<Longrightarrow> emits e' e'' ys \<Longrightarrow> emits e e'' (xs @ ys)"
  by (cases e, cases e', cases e'') (simp add: emits_def)

lemma emits_refl: "enc_ok e \<Longrightarrow> emits e e []"
  by (simp add: emits_def)

lemma emits_ok: "emits e e' out \<Longrightarrow> enc_ok e'"
  by (simp add: emits_def)

lemma low_bits_Suc: "low_bits (Suc n) v = bit v n # low_bits n v"
  by (simp add: low_bits_def)

lemma low_bits_0 [simp]: "low_bits 0 v = []"
  by (simp add: low_bits_def)

lemma ensureCapacity_emits: assumes "enc_ok e" shows "emits e (ensureCapacity n e) []"
    and "ge_bitPos e + n \<le> 8 * length (ge_buf (ensureCapacity n e))"
proof -
  let ?m = "(ge_bitPos e + n + 7) div 8"
  let ?b = "copy_at 0 (ge_buf e) (zero_bytes (?m * 2))"
  have m: "ge_bitPos e + n \<le> 8 * ?m" by linarith
  show "ge_bitPos e + n \<le> 8 * length (ge_buf (ensureCapacity n e))"
    using m by (simp add: ensureCapacity_def Let_def)
  have nth: "buf_bit ?b i = (i < 8 * length (ge_buf e) \<and> buf_bit (ge_buf e) i)" if "length (ge_buf e) < ?m" "i < 8 * (?m * 2)" for i
  proof -
    have "i div 8 < ?m * 2" using that(2) by linarith
    then show ?thesis using that(1) by (auto simp: buf_bit_def nth_copy_at zero_bytes_def div_less_iff_less_mult)
  qed
  show "emits e (ensureCapacity n e) []"
  proof (cases "?m \<le> length (ge_buf e)")
    case True
    then show ?thesis using assms by (simp add: ensureCapacity_def emits_refl)
  next
    case False
    then have "ge_bitPos e \<le> 8 * (?m * 2)" using m by linarith
    then show ?thesis using False assms nth by (auto simp: ensureCapacity_def emits_def written_def enc_ok_def Let_def)
  qed
qed

lemma bit_pos_inj: "p div 8 = i div 8 \<Longrightarrow> 7 - i mod 8 = 7 - p mod 8 \<Longrightarrow> i = (p :: nat)"
proof -
  assume "p div 8 = i div 8" "7 - i mod 8 = 7 - p mod 8"
  moreover have "i mod 8 < 8" "p mod 8 < 8" by simp_all
  ultimately have "i div 8 * 8 + i mod 8 = p div 8 * 8 + p mod 8" by linarith
  then show ?thesis by (simp only: div_mult_mod_eq)
qed

lemma buf_bit_set:
  "p < 8 * length buf \<Longrightarrow> i < 8 * length buf \<Longrightarrow>
   buf_bit (buf[p div 8 := buf ! (p div 8) OR push_bit (7 - p mod 8) 1]) i = (i = p \<or> buf_bit buf i)"
  by (auto simp: buf_bit_def nth_list_update bit_or_iff bit_exp_iff push_bit_eq_mult div_less_iff_less_mult intro: bit_pos_inj)

lemma writeBit_emits: assumes "enc_ok e" shows "emits e (writeBit b e) [b \<noteq> 0]"
proof -
  let ?e = "ensureCapacity 1 e"
  have c: "emits e ?e []" "ge_bitPos e + 1 \<le> 8 * length (ge_buf ?e)" by (rule ensureCapacity_emits [OF assms])+
  then have p: "ge_bitPos ?e < 8 * length (ge_buf ?e)" "enc_ok ?e"
    by (auto simp: emits_def ensureCapacity_def Let_def)
  have "emits ?e (writeBit b e) [b \<noteq> 0]"
    using p buf_bit_set [OF p(1)] by (auto simp: writeBit_def emits_def Let_def enc_ok_def written_def)
  then show ?thesis using emits_trans [OF c(1)] by fastforce
qed

lemma write_loop_emits: "enc_ok e \<Longrightarrow> emits e (write_loop v n e) (low_bits n v)"
proof (induction n arbitrary: e)
  case (Suc n)
  have b: "(ucast (drop_bit n v AND 1) :: byte) \<noteq> 0 \<longleftrightarrow> bit v n"
    by (simp add: and_one_eq mod_2_eq_odd bit_iff_odd_drop_bit)
  have "emits e (writeBit (ucast (drop_bit n v AND 1)) e) [bit v n]" using writeBit_emits [OF Suc.prems] unfolding b [symmetric] .
  then show ?case using emits_trans Suc.IH emits_ok by (fastforce simp: low_bits_Suc)
qed (simp add: emits_refl)

lemma writeBits_emits: "enc_ok e \<Longrightarrow> emits e (writeBits v n e) (low_bits n v)"
  using emits_trans [OF ensureCapacity_emits(1) write_loop_emits] emits_ok [OF ensureCapacity_emits(1)]
  by (fastforce simp: writeBits_def)

definition unread :: "gorillaDecoder \<Rightarrow> bool list" where
  "unread d = map (buf_bit (gd_buf d)) [gd_bitPos d..<8 * length (gd_buf d)]"

text \<open>The step from \<open>d\<close> to \<open>d'\<close> moves the position only.\<close>

definition skips :: "gorillaDecoder \<Rightarrow> gorillaDecoder \<Rightarrow> bool" where
  "skips d d' \<longleftrightarrow> d' = d\<lparr>gd_bitPos := gd_bitPos d'\<rparr>"

lemma skips_trans: "skips d d' \<Longrightarrow> skips d' d'' \<Longrightarrow> skips d d''"
  by (cases d, cases d', cases d'') (simp add: skips_def)

lemma skips_fields:
  assumes "skips d d'"
  shows "gd_prevTime d' = gd_prevTime d" "gd_prevDelta d' = gd_prevDelta d" "gd_hasPrevTime d' = gd_hasPrevTime d"
    "gd_prevValue d' = gd_prevValue d" "gd_hasPrevValue d' = gd_hasPrevValue d"
    "gd_prevLeading d' = gd_prevLeading d" "gd_prevTrailing d' = gd_prevTrailing d"
  using assms by (cases d, cases d', simp add: skips_def)+

lemma readBit_unread:
  assumes "unread d = b # bs"
  shows "\<exists>d'. readBit d = Some (of_bool b, d') \<and> unread d' = bs \<and> skips d d'"
proof -
  have p: "gd_bitPos d < 8 * length (gd_buf d)" using assms by (cases "gd_bitPos d < 8 * length (gd_buf d)") (auto simp: unread_def)
  then have "[gd_bitPos d..<8 * length (gd_buf d)] = gd_bitPos d # [Suc (gd_bitPos d)..<8 * length (gd_buf d)]"
    by (rule upt_conv_Cons)
  then have b: "b = buf_bit (gd_buf d) (gd_bitPos d)" "bs = map (buf_bit (gd_buf d)) [Suc (gd_bitPos d)..<8 * length (gd_buf d)]"
    using assms by (auto simp: unread_def)
  have "drop_bit n (x :: byte) AND 1 = of_bool (bit x n)" for n x by (simp add: and_one_eq mod_2_eq_odd bit_iff_odd_drop_bit)
  moreover have "gd_bitPos d div 8 < length (gd_buf d)" using p by (simp add: div_less_iff_less_mult)
  ultimately have "readBit d = Some (of_bool b, d\<lparr>gd_bitPos := gd_bitPos d + 1\<rparr>)"
    unfolding readBit_def Let_def b(1) buf_bit_def by simp
  then show ?thesis by (simp add: b(2) unread_def skips_def)
qed

lemma read_loop_unread:
  assumes "unread d = low_bits n w @ bs"
  shows "\<exists>d'. read_loop n v d = Some (push_bit n v OR take_bit n w, d') \<and> unread d' = bs \<and> skips d d'"
  using assms
proof (induction n arbitrary: v d)
  case (Suc n)
  obtain d1 where d1: "readBit d = Some (of_bool (bit w n), d1)" "unread d1 = low_bits n w @ bs" "skips d d1"
    using readBit_unread [of d] Suc.prems by (auto simp: low_bits_Suc)
  let ?v = "push_bit 1 v OR of_bool (bit w n)"
  obtain d2 where d2: "read_loop n ?v d1 = Some (push_bit n ?v OR take_bit n w, d2)" "unread d2 = bs" "skips d1 d2"
    using Suc.IH [OF d1(2)] by blast
  have e: "push_bit n ?v OR take_bit n w = push_bit (Suc n) v OR take_bit (Suc n) w"
    by (rule bit_eqI) (auto simp: bit_simps bit_1_iff less_Suc_eq push_bit_eq_mult [symmetric])
  have "read_loop (Suc n) v d = Some (push_bit (Suc n) v OR take_bit (Suc n) w, d2)"
    using d1(1) d2(1) e by (cases "bit w n") simp_all
  then show ?case using d2 d1(3) skips_trans by blast
qed (auto simp: skips_def low_bits_def)

lemma readBits_unread:
  "unread d = low_bits n w @ bs \<Longrightarrow> \<exists>d'. readBits n d = Some (take_bit n w, d') \<and> unread d' = bs \<and> skips d d'"
  using read_loop_unread [of d n w bs 0] by (simp add: readBits_def)

section \<open>Timestamps\<close>

definition dod_bits :: "u64 \<Rightarrow> bool list" where
  "dod_bits dod =
     (if dod = 0 then [False]
      else if sint dod \<ge> -63 \<and> sint dod \<le> 64 then [True, False] @ low_bits 7 dod
      else if sint dod \<ge> -255 \<and> sint dod \<le> 256 then [True, True, False] @ low_bits 9 dod
      else if sint dod \<ge> -2047 \<and> sint dod \<le> 2048 then [True, True, True, False] @ low_bits 12 dod
      else [True, True, True, True] @ low_bits 32 dod)"

text \<open>What the decoder makes of these bits.\<close>

definition dod_back :: "u64 \<Rightarrow> u64" where
  "dod_back dod =
     (if dod = 0 then 0
      else if sint dod \<ge> -63 \<and> sint dod \<le> 64 then
        (let x = take_bit 7 dod in if x AND 0x40 \<noteq> 0 then x - 128 else x)
      else if sint dod \<ge> -255 \<and> sint dod \<le> 256 then (let x = take_bit 9 dod in if sint x > 256 then x - 512 else x)
      else if sint dod \<ge> -2047 \<and> sint dod \<le> 2048 then (let x = take_bit 12 dod in if sint x > 2048 then x - 4096 else x)
      else (let x = take_bit 32 dod in if sint x > 0x7FFFFFFF then x - 0x100000000 else x))"

definition dod_fits :: "u64 \<Rightarrow> bool" where
  "dod_fits dod \<longleftrightarrow> sint dod \<noteq> 64 \<and> - (2 ^ 31) \<le> sint dod \<and> sint dod < 2 ^ 31"

lemma low_bits_mask: "low_bits n (v AND mask n) = low_bits n v"
  by (auto simp: low_bits_def bit_simps dest: bit_imp_le_length)

lemma masks: "(0x7F :: u64) = mask 7" "(0x1FF :: u64) = mask 9" "(0xFFF :: u64) = mask 12"
  by (simp_all add: mask_eq_exp_minus_1)

lemma prefixes:
  "low_bits 2 0x02 = [True, False]" "low_bits 3 0x06 = [True, True, False]"
  "low_bits 4 0x0E = [True, True, True, False]" "low_bits 4 0x0F = [True, True, True, True]"
  by (simp_all add: low_bits_def upt_rec)

lemma writeBits2_emits: "enc_ok e \<Longrightarrow> emits e (writeBits v n (writeBits w m e)) (low_bits m w @ low_bits n v)"
  using emits_trans [OF writeBits_emits writeBits_emits] emits_ok [OF writeBits_emits] by blast

lemma dod_emits:
  assumes "enc_ok e" "ge_hasPrevTime e" "dod = ts - ge_prevTime e - ge_prevDelta e"
  shows "\<exists>e'. emits e e' (dod_bits dod) \<and> writeTimestamp ts e = e'\<lparr>ge_prevTime := ts, ge_prevDelta := ts - ge_prevTime e\<rparr>"
  using writeBit_emits [OF assms(1), of 0] writeBits2_emits [OF assms(1), of "dod AND 0x7F" 7 2 2]
    writeBits2_emits [OF assms(1), of "dod AND 0x1FF" 9 6 3] writeBits2_emits [OF assms(1), of "dod AND 0xFFF" 12 14 4]
    writeBits2_emits [OF assms(1), of dod 32 15 4] assms(2)
  unfolding writeTimestamp_def Let_def dod_bits_def assms(3) [symmetric] masks low_bits_mask prefixes by auto

text \<open>The reader \<open>f\<close> consumes the bits \<open>out\<close> and returns \<open>v\<close>.\<close>

definition reads :: "(gorillaDecoder \<Rightarrow> ('v \<times> gorillaDecoder) option) \<Rightarrow> bool list \<Rightarrow> 'v \<Rightarrow> bool" where
  "reads f out v \<longleftrightarrow> (\<forall>d rest. unread d = out @ rest \<longrightarrow> (\<exists>d'. f d = Some (v, d') \<and> unread d' = rest \<and> skips d d'))"

lemma reads_return: "reads (\<lambda>d. Some (v, d)) [] v"
  by (simp add: reads_def skips_def)

lemma reads_bit:
  assumes "reads (g (of_bool b)) out v"
  shows "reads (\<lambda>d. readBit d \<bind> (\<lambda>(x, d). g x d)) (b # out) v"
  unfolding reads_def
proof (intro allI impI)
  fix d rest assume "unread d = (b # out) @ rest"
  then obtain d1 where d1: "readBit d = Some (of_bool b, d1)" "unread d1 = out @ rest" "skips d d1" using readBit_unread [of d] by auto
  then obtain d2 where "g (of_bool b) d1 = Some (v, d2)" "unread d2 = rest" "skips d1 d2" using assms unfolding reads_def by blast
  then show "\<exists>d'. (readBit d \<bind> (\<lambda>(x, d). g x d)) = Some (v, d') \<and> unread d' = rest \<and> skips d d'"
    using d1 skips_trans by auto
qed

lemma reads_bits:
  assumes "reads (g (take_bit n w)) [] v"
  shows "reads (\<lambda>d. readBits n d \<bind> (\<lambda>(x, d). g x d)) (low_bits n w) v"
  unfolding reads_def
proof (intro allI impI)
  fix d rest assume "unread d = low_bits n w @ rest"
  from readBits_unread [OF this]
  obtain d1 where d1: "readBits n d = Some (take_bit n w, d1)" "unread d1 = rest" "skips d d1" by auto
  then obtain d2 where "g (take_bit n w) d1 = Some (v, d2)" "unread d2 = rest" "skips d1 d2" using assms unfolding reads_def by auto
  then show "\<exists>d'. (readBits n d \<bind> (\<lambda>(x, d). g x d)) = Some (v, d') \<and> unread d' = rest \<and> skips d d'"
    using d1 skips_trans by auto
qed

lemma reads_word: "n \<ge> 64 \<Longrightarrow> reads (readBits n) (low_bits n w) w"
  using readBits_unread [of _ n w] by (auto simp: reads_def take_bit_word_beyond_length_eq)

lemma reads_bit_if:
  assumes "reads (if b then h else g) out v"
  shows "reads (\<lambda>d. readBit d \<bind> (\<lambda>(x, d). if x = 0 then g d else h d)) (b # out) v"
  using reads_bit [of "\<lambda>x d. if x = 0 then g d else h d" b out v] assms by (cases b) simp_all

lemma read_dod_back: "reads read_dod (dod_bits dod) (dod_back dod)"
proof -
  consider (z) "dod = 0" | (a) "dod \<noteq> 0" "sint dod \<ge> -63 \<and> sint dod \<le> 64"
    | (b) "dod \<noteq> 0" "\<not> (sint dod \<ge> -63 \<and> sint dod \<le> 64)" "sint dod \<ge> -255 \<and> sint dod \<le> 256"
    | (c) "dod \<noteq> 0" "\<not> (sint dod \<ge> -63 \<and> sint dod \<le> 64)" "\<not> (sint dod \<ge> -255 \<and> sint dod \<le> 256)" "sint dod \<ge> -2047 \<and> sint dod \<le> 2048"
    | (e) "dod \<noteq> 0" "\<not> (sint dod \<ge> -63 \<and> sint dod \<le> 64)" "\<not> (sint dod \<ge> -255 \<and> sint dod \<le> 256)" "\<not> (sint dod \<ge> -2047 \<and> sint dod \<le> 2048)"
    by blast
  then show ?thesis
  proof cases
    case z
    show ?thesis unfolding read_dod_def [abs_def] dod_bits_def dod_back_def if_P [OF z]
      by (rule reads_bit_if) (simp add: reads_return)
  next
    case a
    show ?thesis unfolding read_dod_def [abs_def] dod_bits_def dod_back_def if_not_P [OF a(1)] if_P [OF a(2)] append.simps Let_def
      by (rule reads_bit_if, simp only: if_True if_False, rule reads_bit_if, simp only: if_True if_False, rule reads_bits, rule reads_return)
  next
    case b
    show ?thesis unfolding read_dod_def [abs_def] dod_bits_def dod_back_def if_not_P [OF b(1)] if_not_P [OF b(2)] if_P [OF b(3)] append.simps Let_def
      by (rule reads_bit_if, simp only: if_True if_False, rule reads_bit_if, simp only: if_True if_False, rule reads_bit_if, simp only: if_True if_False, rule reads_bits, rule reads_return)
  next
    case c
    show ?thesis unfolding read_dod_def [abs_def] dod_bits_def dod_back_def if_not_P [OF c(1)] if_not_P [OF c(2)] if_not_P [OF c(3)] if_P [OF c(4)]
        append.simps Let_def
      by (rule reads_bit_if, simp only: if_True if_False, rule reads_bit_if, simp only: if_True if_False, rule reads_bit_if, simp only: if_True if_False, rule reads_bit_if, simp only: if_True if_False, rule reads_bits, rule reads_return)
  next
    case e
    show ?thesis unfolding read_dod_def [abs_def] dod_bits_def dod_back_def if_not_P [OF e(1)] if_not_P [OF e(2)] if_not_P [OF e(3)] if_not_P [OF e(4)]
        append.simps Let_def
      by (rule reads_bit_if, simp only: if_True if_False, rule reads_bit_if, simp only: if_True if_False, rule reads_bit_if, simp only: if_True if_False, rule reads_bit_if, simp only: if_True if_False, rule reads_bits, rule reads_return)
  qed
qed

lemma take_bit_of_sint: "n \<le> 64 \<Longrightarrow> take_bit n dod = (word_of_int (sint dod mod 2 ^ n) :: u64)"
proof -
  assume "n \<le> 64"
  have "uint (take_bit n dod) = take_bit n (take_bit 64 (sint dod))"
    unfolding uint_sint [of dod, symmetric, simplified] by (rule unsigned_take_bit_eq)
  then have "uint (take_bit n dod) = sint dod mod 2 ^ n" using \<open>n \<le> 64\<close> by (simp only: take_bit_take_bit min.absorb1) (simp only: take_bit_eq_mod)
  then have "word_of_int (uint (take_bit n dod)) = (word_of_int (sint dod mod 2 ^ n) :: u64)" by (rule arg_cong)
  then show ?thesis by simp
qed

lemma sint_small: "0 \<le> k \<Longrightarrow> k < 2 ^ 63 \<Longrightarrow> sint (word_of_int k :: u64) = k"
  by (simp add: int_word_sint)

lemma mod_signed: "0 < m \<Longrightarrow> - m \<le> k \<Longrightarrow> k \<le> m \<Longrightarrow> k mod (2 * m) = (if k < 0 then k + 2 * m else k)" for k m :: int
  by (smt (verit) mod_add_self2 mod_pos_pos_trivial)

lemma unsign:
  assumes "n \<le> 62" "- (2 ^ n) \<le> sint dod" "sint dod \<le> 2 ^ n" "sint dod = - (2 ^ n) \<longrightarrow> m < 2 ^ n" "sint dod = 2 ^ n \<longrightarrow> m \<ge> 2 ^ n"
    "2 ^ n - 1 \<le> m" "m \<le> 2 ^ n" "c = word_of_int (2 ^ Suc n)"
  shows "(let x = take_bit (Suc n) dod in if sint x > m then x - c else x) = (dod :: u64)"
proof -
  let ?k = "sint dod"
  have le: "(2::int) ^ n \<le> 2 ^ 62" using assms(1) by (intro power_increasing) auto
  have x: "take_bit (Suc n) dod = word_of_int (?k mod 2 ^ Suc n)" using assms(1) by (intro take_bit_of_sint) auto
  have k: "?k mod 2 ^ Suc n = (if ?k < 0 then ?k + 2 ^ Suc n else ?k)"
    using assms(2,3) by (simp add: mod_signed)
  have s: "sint (word_of_int (?k mod 2 ^ Suc n) :: u64) = ?k mod 2 ^ Suc n"
    using k assms(2,3) le by (intro sint_small) auto
  show ?thesis
  proof (cases "?k < 0")
    case True
    then have "?k mod 2 ^ Suc n > m" using k assms by auto
    then show ?thesis using x s k True assms(8) by (simp add: Let_def flip: wi_hom_sub)
  next
    case False
    then have "\<not> ?k mod 2 ^ Suc n > m" using k assms by auto
    then show ?thesis using x s k False by (simp add: Let_def)
  qed
qed

lemma unsign7:
  assumes "-63 \<le> sint dod" "sint dod < 64"
  shows "(let x = take_bit 7 dod in if x AND 0x40 \<noteq> 0 then x - 128 else x) = (dod :: u64)"
proof -
  let ?k = "sint dod"
  have k: "?k mod 2 ^ 7 = (if ?k < 0 then ?k + 128 else ?k)" using mod_signed [of 64 ?k] assms by simp
  have x: "take_bit 7 dod = word_of_int (if ?k < 0 then ?k + 128 else ?k)" using take_bit_of_sint [of 7 dod] k by simp
  have b: "y AND 0x40 \<noteq> 0 \<longleftrightarrow> bit y 6" for y :: u64 using bit_iff_and_push_bit_not_eq_0 [of y 6] by simp
  have "bit (word_of_int j :: u64) 6 \<longleftrightarrow> 64 \<le> j" if "0 \<le> j" "j < 128" for j
  proof -
    have "j div 64 = (if 64 \<le> j then 1 else 0)" using that by auto
    then have "bit j 6 \<longleftrightarrow> 64 \<le> j" by (simp add: bit_iff_odd)
    then show ?thesis by (simp add: bit_word_of_int_iff)
  qed
  then have "bit (take_bit 7 dod) 6 \<longleftrightarrow> ?k < 0" unfolding x using assms by auto
  then show ?thesis using x unfolding Let_def b by (auto simp flip: wi_hom_add)
qed

lemma dod_back_id:
  assumes "dod_fits dod" shows "dod_back dod = dod"
proof -
  have "(let x = take_bit 9 dod in if sint x > 256 then x - 512 else x) = dod" if "-255 \<le> sint dod" "sint dod \<le> 256"
    using unsign [where dod = dod and n = 8 and m = 256 and c = 512] that by simp
  moreover have "(let x = take_bit 12 dod in if sint x > 2048 then x - 4096 else x) = dod" if "-2047 \<le> sint dod" "sint dod \<le> 2048"
    using unsign [where dod = dod and n = 11 and m = 2048 and c = 4096] that by simp
  moreover have "(let x = take_bit 32 dod in if sint x > 0x7FFFFFFF then x - 0x100000000 else x) = dod"
    using unsign [where dod = dod and n = 31 and m = "0x7FFFFFFF" and c = "0x100000000"] assms by (simp add: dod_fits_def)
  moreover have "(let x = take_bit 7 dod in if x AND 0x40 \<noteq> 0 then x - 128 else x) = dod" if "-63 \<le> sint dod" "sint dod \<le> 64"
    using unsign7 [of dod] that assms by (simp add: dod_fits_def)
  ultimately show ?thesis unfolding dod_back_def by presburger
qed

lemma dod_back_64: "dod_back 64 = - 64"
  by (simp add: dod_back_def)

section \<open>Values\<close>

lemma lz_step_nonneg: "fst p \<ge> 0 \<Longrightarrow> fst (lz_step k p) \<ge> 0"
  by (cases p) simp

lemma zeros_nonneg: "leadingZeros64 x \<ge> 0" "trailingZeros64 x \<ge> 0"
proof -
  have "fst (lz_step 2 (lz_step 4 (lz_step 8 (lz_step 16 (lz_step 32 (0, x)))))) \<ge> 0"
    by (intro lz_step_nonneg) simp
  then show "leadingZeros64 x \<ge> 0" by (auto simp: leadingZeros64_def Let_def split_beta simp del: lz_step.simps)
  have "tz_loop x \<ge> 0" by (induction x rule: tz_loop.induct) (subst tz_loop.simps, auto)
  then show "trailingZeros64 x \<ge> 0" by (simp add: trailingZeros64_def)
qed

lemma and_all_ones: "x AND 18446744073709551615 = (x :: u64)"
proof -
  have "(18446744073709551615 :: u64) = - 1" by simp
  then show ?thesis by (simp only: and.right_neutral)
qed

definition value_bits :: "u64 \<Rightarrow> bool list" where
  "value_bits x = (if x = 0 then [False] else [True, False] @ low_bits 64 x)"

lemma value_emits:
  assumes "enc_ok e" "ge_hasPrevValue e" "ge_prevLeading e = 0" "ge_prevTrailing e = 0"
  shows "\<exists>e'. emits e e' (value_bits (v XOR ge_prevValue e)) \<and> writeFloat v e = e'\<lparr>ge_prevValue := v\<rparr>"
proof (cases "v XOR ge_prevValue e = 0")
  case True
  then show ?thesis using assms writeBit_emits [OF assms(1), of 0] by (auto simp: writeFloat_def value_bits_def)
next
  case False
  let ?x = "v XOR ge_prevValue e"
  let ?e = "writeBit 0 (writeBit 1 e)"
  have e: "emits e (writeBit 1 e) [True]" "emits (writeBit 1 e) ?e [False]"
    using writeBit_emits [OF assms(1), of 1] writeBit_emits [of "writeBit 1 e" 0] emits_ok by fastforce+
  have same: "ge_prevLeading (writeBit 1 e) = 0" "ge_prevTrailing (writeBit 1 e) = 0" "ge_prevLeading ?e = 0" "ge_prevTrailing ?e = 0"
    using e assms(3,4) unfolding emits_def by (metis gorillaEncoder.select_convs gorillaEncoder.surjective gorillaEncoder.update_convs)+
  have "emits ?e (writeBits ?x 64 ?e) (low_bits 64 ?x)" using writeBits_emits emits_ok [OF e(2)] by blast
  then have "emits e (writeBits ?x 64 ?e) (value_bits ?x)"
    using emits_trans [OF emits_trans [OF e]] False by (auto simp: value_bits_def)
  moreover have "writeFloat v e = (writeBits ?x 64 ?e)\<lparr>ge_prevValue := v\<rparr>"
    using assms(2) False same zeros_nonneg [of ?x] by (simp add: writeFloat_def Let_def and_all_ones)
  ultimately show ?thesis by blast
qed

lemma reads_value:
  assumes "unread d = value_bits x @ rest" "gd_hasPrevValue d" "gd_prevLeading d = 0" "gd_prevTrailing d = 0"
  shows "\<exists>d'. readFloat d = Some (gd_prevValue d XOR x, d'\<lparr>gd_prevValue := gd_prevValue d XOR x\<rparr>) \<and> unread d' = rest \<and> skips d d'"
proof (cases "x = 0")
  case True
  then obtain d1 where "readBit d = Some (0, d1)" "unread d1 = rest" "skips d d1"
    using readBit_unread [of d False rest] assms(1) by (auto simp: value_bits_def)
  then show ?thesis using True assms(2) by (intro exI [of _ d1]) (simp add: readFloat_def skips_fields(4))
next
  case False
  then have "unread d = True # False # low_bits 64 x @ rest" using assms(1) by (simp add: value_bits_def)
  from readBit_unread [OF this] obtain d1 where d1: "readBit d = Some (1, d1)" "unread d1 = False # low_bits 64 x @ rest" "skips d d1" by auto
  from readBit_unread [OF d1(2)] obtain d2 where d2: "readBit d1 = Some (0, d2)" "unread d2 = low_bits 64 x @ rest" "skips d1 d2" by auto
  from readBits_unread [OF d2(2)] obtain d3 where d3: "readBits 64 d2 = Some (x, d3)" "unread d3 = rest" "skips d2 d3"
    by (auto simp: take_bit_word_beyond_length_eq)
  have s: "gd_prevLeading d2 = 0" "gd_prevTrailing d2 = 0" "gd_prevTrailing d3 = 0" "gd_prevValue d3 = gd_prevValue d"
    using d1(3) d2(3) d3(3) assms(3,4) by (simp_all add: skips_fields)
  show ?thesis using assms(2) d1(1) d2(1) d3 s skips_trans [OF skips_trans [OF d1(3) d2(3)] d3(3)]
    by (auto simp: readFloat_def)
qed

section \<open>Series\<close>

datatype gorilla_item = Time u64 | Sample u64

primrec write_item :: "gorilla_item \<Rightarrow> gorillaEncoder \<Rightarrow> gorillaEncoder" where
  "write_item (Time t) = writeTimestamp t"
| "write_item (Sample v) = writeFloat v"

primrec read_item :: "gorilla_item \<Rightarrow> gorillaDecoder \<Rightarrow> (gorilla_item \<times> gorillaDecoder) option" where
  "read_item (Time _) d = map_option (map_prod Time id) (readTimestamp d)"
| "read_item (Sample _) d = map_option (map_prod Sample id) (readFloat d)"

fun read_items :: "gorilla_item list \<Rightarrow> gorillaDecoder \<Rightarrow> (gorilla_item list \<times> gorillaDecoder) option" where
  "read_items [] d = Some ([], d)"
| "read_items (x # xs) d = do { (y, d) \<leftarrow> read_item x d; (ys, d) \<leftarrow> read_items xs d; Some (y # ys, d) }"

definition item_fits :: "gorillaEncoder \<Rightarrow> gorilla_item \<Rightarrow> bool" where
  "item_fits e x = (case x of Time t \<Rightarrow> ge_hasPrevTime e \<longrightarrow> dod_fits (t - ge_prevTime e - ge_prevDelta e) | Sample _ \<Rightarrow> True)"

fun items_fit :: "gorillaEncoder \<Rightarrow> gorilla_item list \<Rightarrow> bool" where
  "items_fit e [] = True"
| "items_fit e (x # xs) = (item_fits e x \<and> items_fit (write_item x e) xs)"

text \<open>The differences of differences of the timestamps of a series.\<close>

fun dods :: "u64 \<Rightarrow> u64 \<Rightarrow> gorilla_item list \<Rightarrow> u64 list" where
  "dods t delta [] = []"
| "dods t delta (Time t' # xs) = (t' - t - delta) # dods t' (t' - t) xs"
| "dods t delta (Sample v # xs) = dods t delta xs"

fun series_dods :: "gorilla_item list \<Rightarrow> u64 list" where
  "series_dods [] = []"
| "series_dods (Time t # xs) = dods t 0 xs"
| "series_dods (Sample v # xs) = series_dods xs"

definition in_step :: "gorillaEncoder \<Rightarrow> gorillaDecoder \<Rightarrow> bool" where
  "in_step e d \<longleftrightarrow> gd_prevTime d = ge_prevTime e \<and> gd_prevDelta d = ge_prevDelta e \<and> gd_hasPrevTime d = ge_hasPrevTime e
     \<and> gd_prevValue d = ge_prevValue e \<and> gd_hasPrevValue d = ge_hasPrevValue e \<and> gd_prevLeading d = 0 \<and> gd_prevTrailing d = 0"

definition enc_inv :: "gorillaEncoder \<Rightarrow> bool" where
  "enc_inv e \<longleftrightarrow> enc_ok e \<and> ge_prevLeading e = 0 \<and> ge_prevTrailing e = 0"

text \<open>Writing \<open>x\<close> extends the stream, and a decoder in step reads \<open>y\<close> from the extension.\<close>

definition transfers :: "gorillaEncoder \<Rightarrow> gorillaEncoder \<Rightarrow> gorilla_item \<Rightarrow> gorilla_item \<Rightarrow> bool" where
  "transfers e e' x y \<longleftrightarrow> enc_inv e' \<and> (\<exists>out. written e' = written e @ out \<and>
     (\<forall>d rest. in_step e d \<longrightarrow> unread d = out @ rest \<longrightarrow>
       (\<exists>d'. read_item x d = Some (y, d') \<and> unread d' = rest \<and> (x = y \<longrightarrow> in_step e' d'))))"

lemma emits_fields:
  assumes "emits e e' out"
  shows "ge_prevTime e' = ge_prevTime e" "ge_prevDelta e' = ge_prevDelta e" "ge_hasPrevTime e' = ge_hasPrevTime e"
    "ge_prevValue e' = ge_prevValue e" "ge_hasPrevValue e' = ge_hasPrevValue e"
    "ge_prevLeading e' = ge_prevLeading e" "ge_prevTrailing e' = ge_prevTrailing e"
  using assms by (cases e, cases e', simp add: emits_def)+

lemma transfersI:
  assumes "enc_inv e" "emits e e1 out" "ge_buf e' = ge_buf e1" "ge_bitPos e' = ge_bitPos e1"
    and "ge_prevLeading e' = ge_prevLeading e1" "ge_prevTrailing e' = ge_prevTrailing e1"
    and "\<And>d rest. in_step e d \<Longrightarrow> unread d = out @ rest \<Longrightarrow>
       \<exists>d'. read_item x d = Some (y, d') \<and> unread d' = rest \<and> (x = y \<longrightarrow> in_step e' d')"
  shows "transfers e e' x y"
proof -
  have "enc_inv e'" using assms(1-6) emits_fields(6,7) [OF assms(2)] by (auto simp: enc_inv_def enc_ok_def emits_def)
  moreover have "written e' = written e @ out" using assms(2-4) by (simp add: written_def emits_def)
  ultimately show ?thesis using assms(7) unfolding transfers_def by blast
qed

lemma unread_update [simp]:
  "unread (d\<lparr>gd_prevTime := t\<rparr>) = unread d" "unread (d\<lparr>gd_prevDelta := t\<rparr>) = unread d" "unread (d\<lparr>gd_hasPrevTime := b\<rparr>) = unread d"
  "unread (d\<lparr>gd_prevValue := t\<rparr>) = unread d" "unread (d\<lparr>gd_hasPrevValue := b\<rparr>) = unread d"
  by (simp_all add: unread_def)

lemma raw_time_transfers:
  assumes "enc_inv e" "\<not> ge_hasPrevTime e"
  shows "transfers e (writeTimestamp t e) (Time t) (Time t)"
proof -
  have e: "emits e (writeBits t 64 e) (low_bits 64 t)" using assms(1) writeBits_emits by (simp add: enc_inv_def)
  show ?thesis
  proof (rule transfersI [OF assms(1) e])
    fix d rest assume d: "in_step e d" "unread d = low_bits 64 t @ rest"
    from readBits_unread [OF d(2)] obtain d' where "readBits 64 d = Some (t, d')" "unread d' = rest" "skips d d'"
      by (auto simp: take_bit_word_beyond_length_eq)
    then show "\<exists>d'. read_item (Time t) d = Some (Time t, d') \<and> unread d' = rest \<and> (Time t = Time t \<longrightarrow> in_step (writeTimestamp t e) d')"
      using d(1) assms(2) emits_fields [OF e] by (auto simp: readTimestamp_def writeTimestamp_def in_step_def skips_fields)
  qed (use assms in \<open>simp_all add: writeTimestamp_def\<close>)
qed

lemma sum_diff: "t = p + q \<longrightarrow> q = t - (p :: u64)"
  by (metis add_diff_cancel_left')

lemma time_transfers:
  assumes "enc_inv e" "ge_hasPrevTime e"
  shows "transfers e (writeTimestamp t e) (Time t)
    (Time (ge_prevTime e + (dod_back (t - ge_prevTime e - ge_prevDelta e) + ge_prevDelta e)))"
proof -
  let ?dod = "t - ge_prevTime e - ge_prevDelta e"
  let ?y = "ge_prevTime e + (dod_back ?dod + ge_prevDelta e)"
  obtain e1 where e: "emits e e1 (dod_bits ?dod)" "writeTimestamp t e = e1\<lparr>ge_prevTime := t, ge_prevDelta := t - ge_prevTime e\<rparr>"
    using dod_emits [OF _ assms(2) refl, of t] assms(1) by (auto simp: enc_inv_def)
  show ?thesis
  proof (rule transfersI [OF assms(1) e(1)])
    fix d rest assume d: "in_step e d" "unread d = dod_bits ?dod @ rest"
    then obtain d' where "read_dod d = Some (dod_back ?dod, d')" "unread d' = rest" "skips d d'"
      using read_dod_back [of ?dod] unfolding reads_def by blast
    then show "\<exists>d'. read_item (Time t) d = Some (Time ?y, d') \<and> unread d' = rest \<and> (Time t = Time ?y \<longrightarrow> in_step (writeTimestamp t e) d')"
      using d(1) assms(2) emits_fields [OF e(1)]
      by (intro exI [of _ "d'\<lparr>gd_prevDelta := dod_back ?dod + ge_prevDelta e, gd_prevTime := ?y\<rparr>"])
        (simp add: readTimestamp_def e(2) in_step_def skips_fields Let_def sum_diff)
  qed (simp_all add: e(2))
qed

lemma raw_sample_transfers:
  assumes "enc_inv e" "\<not> ge_hasPrevValue e"
  shows "transfers e (writeFloat v e) (Sample v) (Sample v)"
proof -
  have e: "emits e (writeBits v 64 e) (low_bits 64 v)" using assms(1) writeBits_emits by (simp add: enc_inv_def)
  show ?thesis
  proof (rule transfersI [OF assms(1) e])
    fix d rest assume d: "in_step e d" "unread d = low_bits 64 v @ rest"
    from readBits_unread [OF d(2)] obtain d' where "readBits 64 d = Some (v, d')" "unread d' = rest" "skips d d'"
      by (auto simp: take_bit_word_beyond_length_eq)
    then show "\<exists>d'. read_item (Sample v) d = Some (Sample v, d') \<and> unread d' = rest \<and> (Sample v = Sample v \<longrightarrow> in_step (writeFloat v e) d')"
      using d(1) assms(2) emits_fields [OF e] by (auto simp: readFloat_def writeFloat_def in_step_def skips_fields)
  qed (use assms in \<open>simp_all add: writeFloat_def\<close>)
qed

lemma sample_transfers:
  assumes "enc_inv e"
  shows "transfers e (writeFloat v e) (Sample v) (Sample v)"
proof (cases "ge_hasPrevValue e")
  case True
  let ?x = "v XOR ge_prevValue e"
  obtain e1 where e: "emits e e1 (value_bits ?x)" "writeFloat v e = e1\<lparr>ge_prevValue := v\<rparr>"
    using value_emits [of e v] assms True by (auto simp: enc_inv_def)
  show ?thesis
  proof (rule transfersI [OF assms e(1)])
    fix d rest assume d: "in_step e d" "unread d = value_bits ?x @ rest"
    moreover have "gd_prevValue d XOR ?x = v" using d(1) by (simp add: in_step_def xor.left_commute)
    ultimately obtain d' where "readFloat d = Some (v, d'\<lparr>gd_prevValue := v\<rparr>)" "unread d' = rest" "skips d d'"
      using reads_value [of d ?x rest] True by (auto simp: in_step_def)
    then show "\<exists>d'. read_item (Sample v) d = Some (Sample v, d') \<and> unread d' = rest \<and> (Sample v = Sample v \<longrightarrow> in_step (writeFloat v e) d')"
      using d(1) emits_fields [OF e(1)] by (auto simp: e(2) in_step_def skips_fields)
  qed (simp_all add: e(2))
qed (use raw_sample_transfers assms in blast)

lemma item_transfers:
  assumes "enc_inv e" "item_fits e x"
  shows "transfers e (write_item x e) x x"
proof (cases x)
  case (Time t)
  show ?thesis
  proof (cases "ge_hasPrevTime e")
    case True
    then have "dod_back (t - ge_prevTime e - ge_prevDelta e) = t - ge_prevTime e - ge_prevDelta e"
      using assms(2) Time dod_back_id by (simp add: item_fits_def)
    then show ?thesis using time_transfers [OF assms(1) True, of t] Time by simp
  qed (use raw_time_transfers assms(1) Time in simp)
qed (use sample_transfers assms(1) in simp)

lemma write_item_fields:
  assumes "enc_inv e"
  shows "ge_hasPrevTime (write_item x e) = (case x of Time t \<Rightarrow> True | Sample v \<Rightarrow> ge_hasPrevTime e)"
    and "ge_prevTime (write_item x e) = (case x of Time t \<Rightarrow> t | Sample v \<Rightarrow> ge_prevTime e)"
    and "ge_prevDelta (write_item x e) =
      (case x of Time t \<Rightarrow> if ge_hasPrevTime e then t - ge_prevTime e else 0 | Sample v \<Rightarrow> ge_prevDelta e)"
proof -
  have e: "enc_ok e" "ge_prevLeading e = 0" "ge_prevTrailing e = 0" using assms by (simp_all add: enc_inv_def)
  have *: "ge_hasPrevTime (writeFloat v e) = ge_hasPrevTime e \<and> ge_prevTime (writeFloat v e) = ge_prevTime e
    \<and> ge_prevDelta (writeFloat v e) = ge_prevDelta e" for v
  proof (cases "ge_hasPrevValue e")
    case True
    from value_emits [OF e(1) True e(2,3), of v] obtain e1 out where "emits e e1 out" "writeFloat v e = e1\<lparr>ge_prevValue := v\<rparr>" by blast
    then show ?thesis by (simp add: emits_fields)
  qed (simp add: writeFloat_def emits_fields [OF writeBits_emits [OF e(1)]])
  have **: "ge_hasPrevTime (writeTimestamp t e) \<and> ge_prevTime (writeTimestamp t e) = t
    \<and> ge_prevDelta (writeTimestamp t e) = (if ge_hasPrevTime e then t - ge_prevTime e else 0)" for t
  proof (cases "ge_hasPrevTime e")
    case True
    from dod_emits [OF e(1) True refl, of t] obtain e1 out where
      "emits e e1 out" "writeTimestamp t e = e1\<lparr>ge_prevTime := t, ge_prevDelta := t - ge_prevTime e\<rparr>" by blast
    then show ?thesis using True by (simp add: emits_fields)
  qed (simp add: writeTimestamp_def)
  show "ge_hasPrevTime (write_item x e) = (case x of Time t \<Rightarrow> True | Sample v \<Rightarrow> ge_hasPrevTime e)"
    and "ge_prevTime (write_item x e) = (case x of Time t \<Rightarrow> t | Sample v \<Rightarrow> ge_prevTime e)"
    and "ge_prevDelta (write_item x e) =
      (case x of Time t \<Rightarrow> if ge_hasPrevTime e then t - ge_prevTime e else 0 | Sample v \<Rightarrow> ge_prevDelta e)"
    using * ** by (cases x; simp)+
qed

lemma write_item_inv: "enc_inv e \<Longrightarrow> item_fits e x \<Longrightarrow> enc_inv (write_item x e)"
  using item_transfers by (auto simp: transfers_def)

lemma dods_fit:
  "enc_inv e \<Longrightarrow> ge_hasPrevTime e \<Longrightarrow> \<forall>dod \<in> set (dods (ge_prevTime e) (ge_prevDelta e) xs). dod_fits dod \<Longrightarrow> items_fit e xs"
proof (induction xs arbitrary: e)
  case (Cons x xs)
  have x: "item_fits e x" using Cons.prems(3) by (cases x) (auto simp: item_fits_def)
  have i: "enc_inv (write_item x e)" by (rule write_item_inv [OF Cons.prems(1) x])
  have "items_fit (write_item x e) xs"
    by (rule Cons.IH [OF i]) (use Cons.prems(2,3) in \<open>cases x; simp add: write_item_fields [OF Cons.prems(1)] del: write_item.simps\<close>)+
  then show ?case using x by simp
qed simp

lemma series_fit:
  "enc_inv e \<Longrightarrow> \<not> ge_hasPrevTime e \<Longrightarrow> \<forall>dod \<in> set (series_dods xs). dod_fits dod \<Longrightarrow> items_fit e xs"
proof (induction xs arbitrary: e)
  case (Cons x xs)
  have x: "item_fits e x" using Cons.prems(2) by (cases x) (auto simp: item_fits_def)
  have i: "enc_inv (write_item x e)" by (rule write_item_inv [OF Cons.prems(1) x])
  note f = write_item_fields [OF Cons.prems(1), of x]
  have "items_fit (write_item x e) xs"
  proof (cases x)
    case (Time t)
    show ?thesis by (rule dods_fit [OF i]) (use Time f Cons.prems(2,3) in \<open>simp_all del: write_item.simps\<close>)
  next
    case (Sample v)
    show ?thesis by (rule Cons.IH [OF i]) (use Sample f Cons.prems(2,3) in \<open>simp_all del: write_item.simps\<close>)
  qed
  then show ?case using x by simp
qed simp

lemma items_transfer:
  "enc_inv e \<Longrightarrow> items_fit e xs \<Longrightarrow> enc_inv (fold write_item xs e) \<and> (\<exists>out. written (fold write_item xs e) = written e @ out \<and>
    (\<forall>d rest. in_step e d \<longrightarrow> unread d = out @ rest \<longrightarrow> (\<exists>d'. read_items xs d = Some (xs, d') \<and> unread d' = rest)))"
proof (induction xs arbitrary: e)
  case (Cons x xs)
  let ?e = "write_item x e"
  have x: "item_fits e x" "items_fit ?e xs" using Cons.prems(2) by simp_all
  obtain o1 where o1: "enc_inv ?e" "written ?e = written e @ o1"
    "\<forall>d rest. in_step e d \<longrightarrow> unread d = o1 @ rest \<longrightarrow> (\<exists>d'. read_item x d = Some (x, d') \<and> unread d' = rest \<and> (x = x \<longrightarrow> in_step ?e d'))"
    using item_transfers [OF Cons.prems(1) x(1)] unfolding transfers_def by blast
  obtain o2 where o2: "enc_inv (fold write_item xs ?e)" "written (fold write_item xs ?e) = written ?e @ o2"
    "\<forall>d rest. in_step ?e d \<longrightarrow> unread d = o2 @ rest \<longrightarrow> (\<exists>d'. read_items xs d = Some (xs, d') \<and> unread d' = rest)"
    using Cons.IH [OF o1(1) x(2)] by blast
  have "\<exists>d'. read_items (x # xs) d = Some (x # xs, d') \<and> unread d' = rest" if d: "in_step e d" "unread d = (o1 @ o2) @ rest" for d rest
  proof -
    have "unread d = o1 @ (o2 @ rest)" using d(2) by simp
    then obtain d1 where d1: "read_item x d = Some (x, d1)" "unread d1 = o2 @ rest" "in_step ?e d1" using o1(3) d(1) by blast
    then obtain d2 where "read_items xs d1 = Some (xs, d2)" "unread d2 = rest" using o2(3) by blast
    then show ?thesis using d1(1) by simp
  qed
  moreover have "written (fold write_item (x # xs) e) = written e @ (o1 @ o2)" using o1(2) o2(2) by simp
  ultimately show ?case using o2(1) unfolding fold_simps by blast
qed simp

lemma unread_bytes:
  assumes "enc_ok e"
  shows "\<exists>pad. unread (newGorillaDecoder (gorilla_bytes e)) = written e @ pad \<and> length pad < 8"
proof -
  let ?n = "(ge_bitPos e + 7) div 8"
  have n: "?n \<le> length (ge_buf e)" "ge_bitPos e \<le> 8 * ?n" "8 * ?n - ge_bitPos e < 8" using assms unfolding enc_ok_def by linarith+
  have "buf_bit (take ?n (ge_buf e)) i = buf_bit (ge_buf e) i" if "i < 8 * ?n" for i
    using that by (simp add: buf_bit_def div_less_iff_less_mult)
  then have "unread (newGorillaDecoder (gorilla_bytes e)) = map (buf_bit (ge_buf e)) [0..<8 * ?n]"
    using n(1) by (simp add: unread_def newGorillaDecoder_def gorilla_bytes_def)
  also have "[0..<8 * ?n] = [0..<ge_bitPos e] @ [ge_bitPos e..<8 * ?n]"
    using n(2) upt_add_eq_append [of 0 "ge_bitPos e" "8 * ?n - ge_bitPos e"] by simp
  finally show ?thesis using n(3) by (simp add: written_def)
qed

lemma new_inv: "enc_inv (newGorillaEncoder c)" "in_step (newGorillaEncoder c) (newGorillaDecoder data)" "written (newGorillaEncoder c) = []"
  "\<not> ge_hasPrevTime (newGorillaEncoder c)"
  by (auto simp: enc_inv_def enc_ok_def newGorillaEncoder_def newGorillaDecoder_def in_step_def written_def buf_bit_def zero_bytes_def
      div_less_iff_less_mult)

text \<open>C24: A compressed series decompresses to itself: whatever timestamps and values are written, in any
  order and number, the decoder, asked for them in the same order, returns all of them and leaves
  less than a byte, as long as no difference of differences of timestamps is 64 or needs more than
  32 bits.\<close>

theorem gorilla_roundtrip:
  assumes "\<forall>dod \<in> set (series_dods xs). sint dod \<noteq> 64 \<and> - (2 ^ 31) \<le> sint dod \<and> sint dod < 2 ^ 31"
  shows "\<exists>d. read_items xs (newGorillaDecoder (gorilla_bytes (fold write_item xs (newGorillaEncoder c)))) = Some (xs, d)
    \<and> gorilla_remaining d < 8"
proof -
  let ?e = "fold write_item xs (newGorillaEncoder c)"
  have "items_fit (newGorillaEncoder c) xs" using assms series_fit new_inv by (simp add: dod_fits_def)
  from items_transfer [OF new_inv(1) this]
  have t: "enc_inv ?e" "\<And>d rest. in_step (newGorillaEncoder c) d \<Longrightarrow> unread d = written ?e @ rest \<Longrightarrow>
    \<exists>d'. read_items xs d = Some (xs, d') \<and> unread d' = rest" using new_inv(3) [of c] by auto
  obtain pad where p: "unread (newGorillaDecoder (gorilla_bytes ?e)) = written ?e @ pad" "length pad < 8"
    using unread_bytes t(1) by (auto simp: enc_inv_def)
  then obtain d where d: "read_items xs (newGorillaDecoder (gorilla_bytes ?e)) = Some (xs, d)" "unread d = pad"
    using t(2) new_inv(2) by blast
  have "length (unread d) < 8" using d(2) p(2) by simp
  then have "gorilla_remaining d < 8" by (simp add: gorilla_remaining_def unread_def)
  then show ?thesis using d(1) by blast
qed

theorem gorilla_roundtrip_witness:
  "let xs = [Time 1000, Sample 0x3FF0000000000000, Time 1060, Sample 0x4000000000000000, Time 1121] in
   \<exists>d. read_items xs (newGorillaDecoder (gorilla_bytes (fold write_item xs (newGorillaEncoder 8)))) = Some (xs, d)
     \<and> gorilla_remaining d < 8"
proof -
  let ?xs = "[Time 1000, Sample 0x3FF0000000000000, Time 1060, Sample 0x4000000000000000, Time 1121]"
  have "\<forall>dod \<in> set (series_dods ?xs). sint dod \<noteq> 64 \<and> - (2 ^ 31) \<le> sint dod \<and> sint dod < 2 ^ 31" by simp
  from gorilla_roundtrip [OF this] show ?thesis unfolding Let_def .
qed

text \<open>C39: A difference of differences of 64 is encoded in seven bits and comes back as -64: whatever the
  first timestamp is, the second, 64 later, is decoded as 64 earlier.\<close>

theorem gorilla_dod_64:
  "\<exists>d. read_items [Time t, Time (t + 64)] (newGorillaDecoder (gorilla_bytes (writeTimestamp (t + 64) (writeTimestamp t (newGorillaEncoder c)))))
     = Some ([Time t, Time (t - 64)], d)"
proof -
  let ?e0 = "newGorillaEncoder c"
  let ?e1 = "writeTimestamp t ?e0" and ?e2 = "writeTimestamp (t + 64) (writeTimestamp t ?e0)"
  have e1: "transfers ?e0 ?e1 (Time t) (Time t)" using raw_time_transfers new_inv by blast
  then have i: "enc_inv ?e1" by (simp add: transfers_def)
  have f: "ge_hasPrevTime ?e1" "ge_prevTime ?e1 = t" "ge_prevDelta ?e1 = 0"
    using write_item_fields [OF new_inv(1), of "Time t" c] new_inv(4) [of c] by simp_all
  have e2: "transfers ?e1 ?e2 (Time (t + 64)) (Time (t - 64))" using time_transfers [OF i f(1), of "t + 64"] f dod_back_64 by simp
  obtain o1 where o1: "written ?e1 = o1" "\<And>d rest. in_step ?e0 d \<Longrightarrow> unread d = o1 @ rest \<Longrightarrow>
      \<exists>d'. read_item (Time t) d = Some (Time t, d') \<and> unread d' = rest \<and> in_step ?e1 d'"
    using e1 new_inv(3) [of c] unfolding transfers_def by auto
  obtain o2 where o2: "enc_inv ?e2" "written ?e2 = o1 @ o2" "\<And>d rest. in_step ?e1 d \<Longrightarrow> unread d = o2 @ rest \<Longrightarrow>
      \<exists>d'. read_item (Time (t + 64)) d = Some (Time (t - 64), d') \<and> unread d' = rest"
    using e2 o1(1) unfolding transfers_def by blast
  obtain pad where "unread (newGorillaDecoder (gorilla_bytes ?e2)) = o1 @ o2 @ pad"
    using unread_bytes [of ?e2] o2(1,2) by (auto simp: enc_inv_def)
  then obtain d1 where d1: "read_item (Time t) (newGorillaDecoder (gorilla_bytes ?e2)) = Some (Time t, d1)" "unread d1 = o2 @ pad" "in_step ?e1 d1"
    using o1(2) new_inv(2) by blast
  then obtain d2 where "read_item (Time (t + 64)) d1 = Some (Time (t - 64), d2)" using o2(3) by blast
  then show ?thesis using d1(1) by simp
qed

end
