(* ===== verification/Page_Log.thy ===== *)
theory Page_Log
  imports Pager_Props
begin

text \<open>
  What the append-only store of metric points (\<open>engine/metrics/store.go\<close>) needs of the pager and of its
  page format.  A store that never frees a page sees its pager as a growing list of page bodies: the contract \<open>page_log\<close>, which the pager model meets.
  A page body starts with the number of its records and the offset behind the last one; the contract
  \<open>record_codec\<close> says that decoding such a body gives back the records written into it.
\<close>

section \<open>A growing list of pages\<close>

definition page_id :: "nat \<Rightarrow> u64" where
  "page_id k = 2 + of_nat k"

lemma unat_page_id: "k \<le> 2251799813685248 \<Longrightarrow> unat (page_id k) = k + 2"
  by (simp add: page_id_def unat_word_ariths unat_of_nat)

locale page_log =
  fixes ready :: "'s \<Rightarrow> bool"
    and npages :: "'s \<Rightarrow> nat"
    and limit :: nat
    and rd :: "'s \<Rightarrow> u64 \<Rightarrow> 'e + bytes"
    and wr :: "u64 \<Rightarrow> bytes \<Rightarrow> 's \<Rightarrow> 's \<times> ('e + unit)"
    and alloc :: "'s \<Rightarrow> 's \<times> ('e + u64)"
    and cnt :: "'s \<Rightarrow> 'e + u64"
  assumes limit_bound: "limit \<le> 2251799813685245"
    and npages_bound: "ready s \<Longrightarrow> npages s \<le> limit"
    and count_law: "ready s \<Longrightarrow> cnt s = Inr (page_id (npages s))"
    and read_law: "ready s \<Longrightarrow> k < npages s \<Longrightarrow> \<exists>b. rd s (page_id k) = Inr b \<and> length b = 4084"
    and write_law: "ready s \<Longrightarrow> k < npages s \<Longrightarrow> length b = 4084 \<Longrightarrow>
      \<exists>t. wr (page_id k) b s = (t, Inr ()) \<and> ready t \<and> npages t = npages s \<and> rd t = (rd s)(page_id k := Inr b)"
    and alloc_law: "ready s \<Longrightarrow> npages s < limit \<Longrightarrow>
      \<exists>t. alloc s = (t, Inr (page_id (npages s))) \<and> ready t \<and> npages t = Suc (npages s)
        \<and> rd t = (rd s)(page_id (npages s) := Inr (zero_bytes 4084))"
begin

lemma page_id_inj: "i \<le> limit \<Longrightarrow> j \<le> limit \<Longrightarrow> page_id i = page_id j \<longleftrightarrow> i = j"
  using limit_bound unat_page_id [of i] unat_page_id [of j] by (auto simp: word_unat_eq_iff)

text \<open>The bodies of all pages.\<close>

definition holds :: "'s \<Rightarrow> bytes list \<Rightarrow> bool" where
  "holds s pgs \<longleftrightarrow> ready s \<and> npages s = length pgs \<and> (\<forall>k < length pgs. rd s (page_id k) = Inr (pgs ! k))"

lemma holds_lengths: "holds s pgs \<Longrightarrow> \<forall>b \<in> set pgs. length b = 4084"
  using read_law unfolding holds_def by (fastforce simp: in_set_conv_nth)

lemma holds_rewrite:
  assumes "holds s (pgs @ [b])" "length b' = 4084"
  shows "\<exists>t. wr (page_id (length pgs)) b' s = (t, Inr ()) \<and> holds t (pgs @ [b'])"
proof -
  have s: "ready s" "npages s = Suc (length pgs)" using assms(1) by (simp_all add: holds_def)
  then obtain t where t: "wr (page_id (length pgs)) b' s = (t, Inr ())" "ready t" "npages t = npages s"
    "rd t = (rd s)(page_id (length pgs) := Inr b')" using write_law [of s "length pgs" b'] assms(2) by auto
  have "rd t (page_id k) = Inr ((pgs @ [b']) ! k)" if "k < Suc (length pgs)" for k
    using that assms(1) t(4) page_id_inj [of k "length pgs"] npages_bound [OF s(1)] s(2)
    by (auto simp: holds_def nth_append less_Suc_eq)
  then show ?thesis using t s by (auto simp: holds_def)
qed

lemma holds_alloc:
  assumes "holds s pgs" "length pgs < limit"
  shows "\<exists>t. alloc s = (t, Inr (page_id (length pgs))) \<and> holds t (pgs @ [zero_bytes 4084])"
proof -
  have s: "ready s" "npages s = length pgs" using assms(1) by (simp_all add: holds_def)
  then obtain t where t: "alloc s = (t, Inr (page_id (length pgs)))" "ready t" "npages t = Suc (length pgs)"
    "rd t = (rd s)(page_id (length pgs) := Inr (zero_bytes 4084))" using alloc_law assms(2) by fastforce
  have "rd t (page_id k) = Inr ((pgs @ [zero_bytes 4084]) ! k)" if "k < Suc (length pgs)" for k
    using that assms t(4) page_id_inj [of k "length pgs"] by (auto simp: holds_def nth_append less_Suc_eq)
  then show ?thesis using t by (auto simp: holds_def)
qed

end

definition log_ready :: "filePager \<Rightarrow> bool" where
  "log_ready p \<longleftrightarrow> pager_ready p \<and> fp_freeSet p = {}"

definition data_pages :: "filePager \<Rightarrow> nat" where
  "data_pages p = unat (fp_pageCount p) - 2"

lemma log_ready_count:
  assumes "log_ready p"
  shows "2 \<le> unat (fp_pageCount p)" "unat (fp_pageCount p) < 2251799813685248" "disk_part p []" "page_id (data_pages p) = fp_pageCount p"
    "live p = {i. 2 \<le> i \<and> i < fp_pageCount p}"
proof -
  obtain fl where d: "disk_part p fl" using assms by (auto simp: log_ready_def pager_ready_def pager_inv_def)
  then show "disk_part p []" using assms by (auto simp: log_ready_def disk_part_def)
  then have c: "2 \<le> fp_pageCount p" "small_id (fp_pageCount p)" by (auto simp: disk_part_def chain_part_def)
  then show u: "2 \<le> unat (fp_pageCount p)" using unat_ge_2 by blast
  show "unat (fp_pageCount p) < 2251799813685248" using c(2) by (simp add: small_id_def)
  have "fp_pageCount p = of_nat (2 + (unat (fp_pageCount p) - 2))" using u by simp
  then show "page_id (data_pages p) = fp_pageCount p" unfolding page_id_def data_pages_def by (metis of_nat_add of_nat_numeral)
  show "live p = {i. 2 \<le> i \<and> i < fp_pageCount p}" using assms by (auto simp: log_ready_def live_def)
qed

lemma page_id_live:
  assumes "log_ready p" "k < data_pages p"
  shows "page_id k \<in> live p"
  using assms log_ready_count [OF assms(1)] unat_page_id [of k]
  by (auto simp: word_le_nat_alt word_less_nat_alt data_pages_def)

lemma WritePage_log:
  assumes "log_ready p" "i \<in> live p" "length b = 4084"
  shows "\<exists>q. WritePage None i b p = (q, Inr ()) \<and> log_ready q \<and> data_pages q = data_pages p
    \<and> pager_reads q = (pager_reads p)(i := Inr b)"
proof -
  have p: "pager_ready p" using assms(1) by (simp add: log_ready_def)
  obtain q where q: "WritePage None i b p = (q, Inr ())" "disk_step p q"
    using WritePage_direct [OF _ _ assms(2,3)] p by (auto simp: pager_ready_def)
  then show ?thesis using WritePage_ready [OF p assms(2,3)] disk_step_fields(4,7) [OF q(2)] assms(1)
    by (auto simp: log_ready_def data_pages_def)
qed

lemma AllocatePage_log:
  assumes "log_ready p" "data_pages p < 2251799813685245"
  shows "\<exists>q. AllocatePage None p = (q, Inr (fp_pageCount p)) \<and> log_ready q \<and> data_pages q = Suc (data_pages p)
    \<and> pager_reads q = (pager_reads p)(fp_pageCount p := Inr (zero_bytes 4084))"
proof -
  have p: "pager_ready p" "fp_freeSet p = {}" using assms(1) by (simp_all add: log_ready_def)
  note c = log_ready_count [OF assms(1)]
  have room: "0 < room p" using assms(2) c(1) p(2) by (simp add: room_def data_pages_def)
  obtain q where q: "AllocatePage None p = (q, Inr (fp_pageCount p))" "fp_pageCount q = fp_pageCount p + 1" "fp_freeSet q = {}"
    using AllocatePage_fresh [OF _ _ _ c(3) room] p(1) by (auto simp: pager_ready_def)
  have "unat (fp_pageCount p + 1) = Suc (unat (fp_pageCount p))" using c(2) by (simp add: unat_word_ariths)
  then have "data_pages q = Suc (data_pages p)" using q(2) c(1) by (simp add: data_pages_def)
  then show ?thesis using AllocatePage_ready [OF p(1) room] q by (auto simp: log_ready_def)
qed

interpretation plog: page_log log_ready data_pages 2251799813685245 pager_reads "WritePage None" "AllocatePage None" PageCount
proof (unfold_locales, goal_cases)
  case (2 s)
  then show ?case using log_ready_count(2) [of s] by (simp add: data_pages_def)
next
  case (3 s)
  then show ?case using log_ready_count(4) [of s] inv_checkState
    by (simp add: PageCount_def log_ready_def pager_ready_def)
next
  case (4 s k)
  then show ?case using page_id_live fps.rd_own by (auto simp: log_ready_def)
next
  case (5 s k b)
  then show ?case using WritePage_log page_id_live by blast
next
  case (6 s)
  then show ?case using AllocatePage_log log_ready_count(4) [of s] by simp
qed simp

lemma holds_fresh: "plog.holds freshPager []"
  using freshPager_inv freshPager_count by (simp add: plog.holds_def log_ready_def data_pages_def)

lemma holds_reopen:
  assumes "plog.holds p bs" "\<forall>xs. mset (ord xs) = mset xs"
  shows "\<exists>q s. pager_Close p = (q, Inr ()) \<and> pager_Open None (newPager 0 (fp_main q) (fp_wal q) [] ord) = (s, Inr ()) \<and> plog.holds s bs"
proof -
  have p: "log_ready p" using assms(1) by (simp add: plog.holds_def)
  then obtain q s where "pager_Close p = (q, Inr ())" "pager_Open None (newPager 0 (fp_main q) (fp_wal q) [] ord) = (s, Inr ())"
    "pager_ready s" "pager_reads s = pager_reads p" "fp_pageCount s = fp_pageCount p" "fp_freeSet s = fp_freeSet p"
    using close_reopen_ok [OF _ _ _ assms(2), of p] by (auto simp: log_ready_def pager_ready_def)
  moreover have "plog.holds s bs"
    using calculation(3-6) assms(1) p fun_cong [OF calculation(4)] by (simp add: plog.holds_def log_ready_def data_pages_def)
  ultimately show ?thesis by blast
qed

section \<open>Pages of records\<close>

text \<open>Two adjacent writes are one write.\<close>

lemma copy_at_adjacent:
  "off + length a + length b \<le> length dst \<Longrightarrow> copy_at (off + length a) b (copy_at off a dst) = copy_at off (a @ b) dst"
  by (rule nth_equalityI) (auto simp: nth_copy_at nth_append)

lemma copy_at_adjacent_at:
  "o2 = off + length a \<Longrightarrow> off + length a + length b \<le> length dst \<Longrightarrow> copy_at o2 b (copy_at off a dst) = copy_at off (a @ b) dst"
  by (simp add: copy_at_adjacent)

lemma gslice_split: "a \<le> b \<Longrightarrow> b \<le> c \<Longrightarrow> gslice a c xs = gslice a b xs @ gslice b c xs"
  using take_add [of "b - a" "c - b" "drop a xs"] by (simp add: gslice_def)

lemma gslice_appendD:
  assumes "gslice off (off + length (xs @ ys)) b = xs @ ys"
  shows "gslice off (off + length xs) b = xs" "gslice (off + length xs) (off + length xs + length ys) b = ys"
proof -
  have "length xs \<le> length (gslice off (off + length (xs @ ys)) b)" using assms by simp
  then have "length (gslice off (off + length xs) b) = length xs" by simp
  then show "gslice off (off + length xs) b = xs" "gslice (off + length xs) (off + length xs + length ys) b = ys"
    using assms gslice_split [of off "off + length xs" "off + length (xs @ ys)" b] by (simp_all add: append_eq_append_conv add.assoc)
qed

text \<open>\<open>writeHeader\<close>: the number of records and the offset behind the last one.\<close>

definition put_header :: "u32 \<Rightarrow> u32 \<Rightarrow> bytes \<Rightarrow> bytes" where
  "put_header n off body = copy_at 4 (put_le 4 off) (copy_at 0 (put_le 4 n) body)"

text \<open>The body \<open>b\<close> holds the records \<open>rs\<close> behind a header of \<open>h\<close> bytes.\<close>

definition page_of :: "nat \<Rightarrow> bytes list \<Rightarrow> bytes \<Rightarrow> bool" where
  "page_of h rs b \<longleftrightarrow> length b = 4084 \<and> h + length (concat rs) \<le> 4084
     \<and> gslice 0 4 b = put_le 4 (of_nat (length rs) :: u32)
     \<and> gslice 4 8 b = put_le 4 (of_nat (h + length (concat rs)) :: u32)
     \<and> gslice h (h + length (concat rs)) b = concat rs"

lemma page_of_header:
  assumes "page_of h rs b"
  shows "get_le (gslice 0 4 b) = (of_nat (length rs) :: u32)" "get_le (gslice 4 8 b) = (of_nat (h + length (concat rs)) :: u32)"
    "unat (get_le (gslice 4 8 b) :: u32) = h + length (concat rs)"
proof -
  show o: "get_le (gslice 4 8 b) = (of_nat (h + length (concat rs)) :: u32)"
    using assms by (simp add: page_of_def get_put_le_u32)
  show "get_le (gslice 0 4 b) = (of_nat (length rs) :: u32)" using assms by (simp add: page_of_def get_put_le_u32)
  show "unat (get_le (gslice 4 8 b) :: u32) = h + length (concat rs)"
    using assms unfolding o by (simp add: page_of_def unat_of_nat del: of_nat_add)
qed

lemma length_put_header [simp]: "length (put_header n off b) = length b"
  by (simp add: put_header_def)

lemma put_header_fields:
  assumes "8 \<le> length b"
  shows "gslice 0 4 (put_header n off b) = put_le 4 n" "gslice 4 8 (put_header n off b) = put_le 4 off"
    "8 \<le> i \<Longrightarrow> i \<le> j \<Longrightarrow> gslice i j (put_header n off b) = gslice i j b"
  using assms unfolding put_header_def
  by (simp_all add: gslice_def copy_at_def min_def)

lemma page_of_empty: "8 \<le> h \<Longrightarrow> h \<le> 4084 \<Longrightarrow> page_of h [] (put_header 0 (of_nat h) (zero_bytes 4084))"
  by (simp add: page_of_def put_header_fields)

lemma page_of_snoc:
  assumes "page_of h rs b" "8 \<le> h" "h + length (concat rs) + length r \<le> 4084"
  shows "page_of h (rs @ [r]) (put_header (of_nat (length rs) + 1) (of_nat (h + length (concat rs) + length r))
    (copy_at (h + length (concat rs)) r b))"
proof -
  let ?n = "h + length (concat rs)"
  let ?b = "copy_at ?n r b"
  have b: "length b = 4084" "gslice h ?n b = concat rs" using assms(1) by (simp_all add: page_of_def)
  have "gslice h (?n + length r) ?b = gslice h ?n ?b @ gslice ?n (?n + length r) ?b"
    by (rule gslice_split) simp_all
  also have "gslice h ?n ?b = concat rs" using b assms(3) by (simp add: gslice_copy_at_before)
  also have "gslice ?n (?n + length r) ?b = r" using b(1) assms(3) by (simp add: gslice_copy_at)
  finally show ?thesis using b assms(2,3) by (simp add: page_of_def put_header_fields ac_simps)
qed

locale record_codec =
  fixes hsize :: nat
    and enc :: "'r \<Rightarrow> bytes"
    and ok :: "'r \<Rightarrow> bool"
    and dec :: "bytes \<Rightarrow> 'r list"
  assumes header_size: "8 \<le> hsize" "hsize \<le> 4084"
    and enc_nonempty: "ok r \<Longrightarrow> enc r \<noteq> []"
    and decode_law: "page_of hsize (map enc rs) b \<Longrightarrow> \<forall>r \<in> set rs. ok r \<Longrightarrow> dec b = rs"
begin

text \<open>The pager holds the records \<open>rs\<close>; its last page is number \<open>cid\<close> and has the body \<open>body\<close>.  A page
  before the last is not empty, so there are at most as many of them as records.\<close>

definition stores :: "filePager \<Rightarrow> u64 \<Rightarrow> bytes \<Rightarrow> 'r list \<Rightarrow> bool" where
  "stores p cid body rs \<longleftrightarrow> (\<exists>pgs pre lst. plog.holds p (pgs @ [body]) \<and> cid = page_id (length pgs)
     \<and> list_all2 (\<lambda>rs b. page_of hsize (map enc rs) b) pre pgs \<and> page_of hsize (map enc lst) body
     \<and> rs = concat pre @ lst \<and> (\<forall>r \<in> set rs. ok r) \<and> length pgs \<le> length (concat pre))"

definition added :: "'r \<Rightarrow> bytes \<Rightarrow> bytes" where
  "added r b = (let n = get_le (gslice 0 4 b) :: u32; off = unat (get_le (gslice 4 8 b) :: u32) in
     put_header (n + 1) (of_nat (off + length (enc r))) (copy_at off (enc r) b))"

lemma page_of_added:
  assumes "page_of hsize (map enc rs) b" "unat (get_le (gslice 4 8 b) :: u32) + length (enc r) \<le> 4084"
  shows "page_of hsize (map enc (rs @ [r])) (added r b)"
  using page_of_snoc [OF assms(1) header_size(1), of "enc r"] page_of_header [OF assms(1)] assms(2)
  by (simp add: added_def Let_def)

lemma stores_append:
  assumes "stores p cid body rs" "ok r" "unat (get_le (gslice 4 8 body) :: u32) + length (enc r) \<le> 4084"
  shows "\<exists>q. WritePage None cid (added r body) p = (q, Inr ()) \<and> stores q cid (added r body) (rs @ [r])"
proof -
  obtain pgs pre lst where s: "plog.holds p (pgs @ [body])" "cid = page_id (length pgs)"
    "list_all2 (\<lambda>rs b. page_of hsize (map enc rs) b) pre pgs" "page_of hsize (map enc lst) body"
    "rs = concat pre @ lst" "\<forall>r \<in> set rs. ok r" "length pgs \<le> length (concat pre)"
    using assms(1) unfolding stores_def by blast
  have b: "page_of hsize (map enc (lst @ [r])) (added r body)" by (rule page_of_added [OF s(4) assms(3)])
  then have "length (added r body) = 4084" by (simp add: page_of_def)
  then obtain q where "WritePage None cid (added r body) p = (q, Inr ())" "plog.holds q (pgs @ [added r body])"
    using plog.holds_rewrite [OF s(1)] s(2) by blast
  moreover have "rs @ [r] = concat pre @ (lst @ [r])" "\<forall>x \<in> set (rs @ [r]). ok x" using s(5,6) assms(2) by auto
  ultimately show ?thesis unfolding stores_def using s(2,3,7) b by blast
qed

lemma stores_flush: "stores p cid body rs \<Longrightarrow> \<exists>q. WritePage None cid body p = (q, Inr ()) \<and> stores q cid body rs"
proof -
  assume "stores p cid body rs"
  then obtain pgs pre lst where s: "plog.holds p (pgs @ [body])" "cid = page_id (length pgs)"
    "list_all2 (\<lambda>rs b. page_of hsize (map enc rs) b) pre pgs" "page_of hsize (map enc lst) body"
    "rs = concat pre @ lst" "\<forall>r \<in> set rs. ok r" "length pgs \<le> length (concat pre)"
    unfolding stores_def by blast
  then have "length body = 4084" by (simp add: page_of_def)
  then show ?thesis using plog.holds_rewrite [OF s(1)] s unfolding stores_def by blast
qed

abbreviation empty_page :: "bytes" where
  "empty_page \<equiv> put_header 0 (of_nat hsize) (zero_bytes 4084)"

lemma stores_next_page:
  assumes "stores p cid body rs" "ok r" "4084 < unat (get_le (gslice 4 8 body) :: u32) + length (enc r)"
    and "hsize + length (enc r) \<le> 4084" "length rs < 2251799813685244"
  shows "\<exists>p1 p2 p3 i. WritePage None cid body p = (p1, Inr ()) \<and> AllocatePage None p1 = (p2, Inr i)
    \<and> WritePage None i (added r empty_page) p2 = (p3, Inr ()) \<and> stores p3 i (added r empty_page) (rs @ [r])"
proof -
  obtain p1 where p1: "WritePage None cid body p = (p1, Inr ())" "stores p1 cid body rs" using stores_flush [OF assms(1)] by blast
  obtain pgs pre lst where s: "plog.holds p1 (pgs @ [body])" "cid = page_id (length pgs)"
    "list_all2 (\<lambda>rs b. page_of hsize (map enc rs) b) pre pgs" "page_of hsize (map enc lst) body"
    "rs = concat pre @ lst" "\<forall>r \<in> set rs. ok r" "length pgs \<le> length (concat pre)"
    using p1(2) unfolding stores_def by blast
  have "lst \<noteq> []" using page_of_header(3) [OF s(4)] assms(3,4) by auto
  then have len: "length (pgs @ [body]) \<le> length (concat (pre @ [lst]))" using s(7) by (cases lst) auto
  then have "length (pgs @ [body]) < 2251799813685245" using assms(5) s(5) by simp
  then obtain p2 where p2: "AllocatePage None p1 = (p2, Inr (page_id (length (pgs @ [body]))))"
    "plog.holds p2 ((pgs @ [body]) @ [zero_bytes 4084])" using plog.holds_alloc [OF s(1)] by blast
  have e: "page_of hsize (map enc []) empty_page" using page_of_empty [OF header_size] by simp
  have b: "page_of hsize (map enc ([] @ [r])) (added r empty_page)"
    using page_of_added [OF e] page_of_header(3) [OF e] assms(4) by simp
  then have "length (added r empty_page) = 4084" by (simp add: page_of_def)
  then obtain p3 where p3: "WritePage None (page_id (length (pgs @ [body]))) (added r empty_page) p2 = (p3, Inr ())"
    "plog.holds p3 ((pgs @ [body]) @ [added r empty_page])" using plog.holds_rewrite [OF p2(2)] by blast
  have "list_all2 (\<lambda>rs b. page_of hsize (map enc rs) b) (pre @ [lst]) (pgs @ [body])"
    using s(3,4) by (simp add: list_all2_appendI)
  moreover have "rs @ [r] = concat (pre @ [lst]) @ ([] @ [r])" "\<forall>x \<in> set (rs @ [r]). ok x" using s(5,6) assms(2) by auto
  ultimately have "stores p3 (page_id (length (pgs @ [body]))) (added r empty_page) (rs @ [r])"
    unfolding stores_def using p3(2) b len by blast
  then show ?thesis using p1(1) p2(1) p3(1) by blast
qed

lemma stores_fresh:
  assumes "plog.holds p [b]" shows "\<exists>q. WritePage None (page_id 0) empty_page p = (q, Inr ()) \<and> stores q (page_id 0) empty_page []"
proof -
  have e: "page_of hsize (map enc []) empty_page" using page_of_empty [OF header_size] by simp
  obtain q where "WritePage None (page_id 0) empty_page p = (q, Inr ())" "plog.holds q ([] @ [empty_page])"
    using plog.holds_rewrite [of p "[]" b empty_page] assms by auto
  then show ?thesis using e unfolding stores_def by (intro exI [of _ q] conjI exI [of _ "[]"]) simp_all
qed

lemma stores_moved:
  assumes "stores p cid body rs" "\<And>bs. plog.holds p bs \<Longrightarrow> plog.holds q bs"
  shows "stores q cid body rs"
  using assms unfolding stores_def by blast

lemma stores_pages:
  assumes "stores p cid body rs"
  shows "\<exists>bs. plog.holds p bs \<and> concat (map dec bs) = rs \<and> bs \<noteq> [] \<and> last bs = body \<and> cid = page_id (length bs - 1)"
proof -
  obtain pgs pre lst where s: "plog.holds p (pgs @ [body])" "cid = page_id (length pgs)"
    "list_all2 (\<lambda>rs b. page_of hsize (map enc rs) b) pre pgs" "page_of hsize (map enc lst) body"
    "rs = concat pre @ lst" "\<forall>r \<in> set rs. ok r" using assms unfolding stores_def by blast
  have "list_all2 (\<lambda>rs b. page_of hsize (map enc rs) b) pre pgs \<Longrightarrow> \<forall>r \<in> set (concat pre). ok r \<Longrightarrow> map dec pgs = pre" for pre pgs
    by (induction pre pgs rule: list_all2_induct) (auto simp: decode_law)
  then have "map dec pgs = pre" "dec body = lst" using s decode_law [of lst body] by auto
  then show ?thesis using s by (intro exI [of _ "pgs @ [body]"]) auto
qed

end

end
