(* ===== verification/Metrics_Store.thy ===== *)
theory Metrics_Store
  imports Page_Log "HOL-Library.AList"
begin

text \<open>
  \<open>engine/metrics/store.go\<close>, \<open>index.go\<close> and the raw point format of \<open>gorilla.go\<close>: the append-only store of
  metric points over the pager, and the inverted index of its tags.  An \<open>int64\<close> is a 64-bit word read
  with \<open>sint\<close>, a \<open>float64\<close> the word of its bits, a Go map an association list in insertion order, a
  time the number of nanoseconds since 1970.
\<close>

section \<open>Splitting and trimming\<close>

text \<open>\<open>bytes.Split\<close> at a single byte.\<close>

fun split_on :: "byte \<Rightarrow> bytes \<Rightarrow> bytes list" where
  "split_on c [] = [[]]"
| "split_on c (b # bs) = (if b = c then [] # split_on c bs else (case split_on c bs of p # ps \<Rightarrow> (b # p) # ps | [] \<Rightarrow> [[b]]))"

text \<open>The UTF-8 encodings of the characters that \<open>unicode.IsSpace\<close> accepts.\<close>

definition space_runes :: "bytes list" where
  "space_runes = [[9], [10], [11], [12], [13], [32], [0xC2, 0x85], [0xC2, 0xA0], [0xE1, 0x9A, 0x80],
     [0xE2, 0x80, 0x80], [0xE2, 0x80, 0x81], [0xE2, 0x80, 0x82], [0xE2, 0x80, 0x83], [0xE2, 0x80, 0x84], [0xE2, 0x80, 0x85],
     [0xE2, 0x80, 0x86], [0xE2, 0x80, 0x87], [0xE2, 0x80, 0x88], [0xE2, 0x80, 0x89], [0xE2, 0x80, 0x8A],
     [0xE2, 0x80, 0xA8], [0xE2, 0x80, 0xA9], [0xE2, 0x80, 0xAF], [0xE2, 0x81, 0x9F], [0xE3, 0x80, 0x80]]"

definition strip_prefix :: "bytes \<Rightarrow> bytes \<Rightarrow> bytes option" where
  "strip_prefix r s = (if r \<noteq> [] \<and> take (length r) s = r then Some (drop (length r) s) else None)"

fun first_some :: "('a \<Rightarrow> 'b option) \<Rightarrow> 'a list \<Rightarrow> 'b option" where
  "first_some f [] = None"
| "first_some f (x # xs) = (case f x of Some y \<Rightarrow> Some y | None \<Rightarrow> first_some f xs)"

lemma strip_prefix_shorter: "strip_prefix r s = Some s' \<Longrightarrow> length s' < length s"
  by (cases s; cases r) (auto simp: strip_prefix_def split: if_splits)

lemma first_some_shorter: "first_some (\<lambda>r. strip_prefix r s) rs = Some s' \<Longrightarrow> length s' < length s"
  by (induction rs) (auto simp: strip_prefix_shorter split: option.splits)

text \<open>Remove the strings \<open>rs\<close> from the front of \<open>s\<close> as often as possible.\<close>

function trim_left :: "bytes list \<Rightarrow> bytes \<Rightarrow> bytes" where
  "trim_left rs s = (case first_some (\<lambda>r. strip_prefix r s) rs of None \<Rightarrow> s | Some s' \<Rightarrow> trim_left rs s')"
  by auto
termination
  by (relation "measure (\<lambda>(rs, s). length s)") (auto simp: first_some_shorter)

declare trim_left.simps [simp del]

definition trim :: "bytes list \<Rightarrow> bytes \<Rightarrow> bytes" where
  "trim rs s = rev (trim_left (map rev rs) (rev (trim_left rs s)))"

definition TrimSpace :: "bytes \<Rightarrow> bytes" where
  "TrimSpace = trim space_runes"

section \<open>Tags\<close>

datatype metrics_err = MErrStoreNotOpen | MErrStoreAlreadyOpen | MErrRecordTooLarge | MErrPager pager_err | MErrPanic

type_synonym tags = "(bytes \<times> bytes) list"

text \<open>One element of the comma-separated list: \<open>key=value\<close>, the value perhaps in quotes.\<close>

definition tag_pair :: "bytes \<Rightarrow> tags \<Rightarrow> tags" where
  "tag_pair pair m =
     (let p = TrimSpace pair in
      case dropWhile (\<lambda>b. b \<noteq> 61) p of
        [] \<Rightarrow> m
      | _ # v \<Rightarrow> AList.update (TrimSpace (takeWhile (\<lambda>b. b \<noteq> 61) p)) (trim [[34]] (TrimSpace v)) m)"

definition splitTagPairs :: "bytes \<Rightarrow> metrics_err + tags" where
  "splitTagPairs s =
     (if s = [] then Inr []
      else if hd s = 123 then
        (if length s < 2 then Inl MErrPanic else Inr (fold tag_pair (split_on 44 (gslice 1 (length s - 1) s)) []))
      else Inr (fold tag_pair (split_on 44 s) []))"

definition tag_value :: "tags \<Rightarrow> bytes \<Rightarrow> bytes" where
  "tag_value m k = (case map_of m k of None \<Rightarrow> [] | Some v \<Rightarrow> v)"

definition matchTags :: "bytes \<Rightarrow> tags \<Rightarrow> metrics_err + bool" where
  "matchTags tagsStr required =
     (if required = [] then Inr True
      else map_sum id (\<lambda>pairs. list_all (\<lambda>(k, v). tag_value pairs k = v) required) (splitTagPairs tagsStr))"

section \<open>The tag index\<close>

record RecordLocator =
  rl_PageID :: u64
  rl_Offset :: u32
  rl_Timestamp :: u64

record TagIndex =
  ti_index :: "(bytes \<times> (bytes \<times> RecordLocator list) list) list"
  ti_retentionWindow :: int
  ti_lastSweep :: int

definition NewTagIndex :: "int \<Rightarrow> int \<Rightarrow> TagIndex" where
  "NewTagIndex window now = \<lparr>ti_index = [], ti_retentionWindow = window, ti_lastSweep = now\<rparr>"

text \<open>Go's zero values: a missing inner map or list is empty.\<close>

definition tag_locs :: "(bytes \<times> (bytes \<times> RecordLocator list) list) list \<Rightarrow> bytes \<Rightarrow> bytes \<Rightarrow> RecordLocator list" where
  "tag_locs index k v = (case map_of index k of None \<Rightarrow> [] | Some vals \<Rightarrow> (case map_of vals v of None \<Rightarrow> [] | Some locs \<Rightarrow> locs))"

definition index_add :: "RecordLocator \<Rightarrow> bytes \<times> bytes \<Rightarrow> (bytes \<times> (bytes \<times> RecordLocator list) list) list
    \<Rightarrow> (bytes \<times> (bytes \<times> RecordLocator list) list) list" where
  "index_add loc kv index = (case kv of (k, v) \<Rightarrow>
     let vals = (case map_of index k of None \<Rightarrow> [] | Some vals \<Rightarrow> vals) in
     AList.update k (AList.update v ((case map_of vals v of None \<Rightarrow> [] | Some locs \<Rightarrow> locs) @ [loc]) vals) index)"

definition idx_Insert :: "bytes \<Rightarrow> RecordLocator \<Rightarrow> TagIndex \<Rightarrow> metrics_err + TagIndex" where
  "idx_Insert tagsStr loc idx =
     map_sum id (\<lambda>pairs. idx\<lparr>ti_index := fold (index_add loc) pairs (ti_index idx)\<rparr>) (splitTagPairs tagsStr)"

definition idx_Search :: "bytes \<Rightarrow> bytes \<Rightarrow> TagIndex \<Rightarrow> RecordLocator list option" where
  "idx_Search k v idx = (let locs = tag_locs (ti_index idx) k v in if locs = [] then None else Some locs)"

definition loc_less :: "RecordLocator \<Rightarrow> RecordLocator \<Rightarrow> bool" where
  "loc_less a b \<longleftrightarrow> rl_PageID a < rl_PageID b \<or> rl_PageID a = rl_PageID b \<and> rl_Offset a < rl_Offset b"

fun intersectLocs :: "RecordLocator list \<Rightarrow> RecordLocator list \<Rightarrow> RecordLocator list" where
  "intersectLocs (a # as) (b # bs) =
     (if loc_less a b then intersectLocs as (b # bs)
      else if loc_less b a then intersectLocs (a # as) bs
      else a # intersectLocs as bs)"
| "intersectLocs _ _ = []"

text \<open>The loop of \<open>SearchAll\<close>; the second argument is the result so far, none before the first round.\<close>

fun search_loop :: "TagIndex \<Rightarrow> tags \<Rightarrow> RecordLocator list option \<Rightarrow> RecordLocator list option" where
  "search_loop idx [] acc = acc"
| "search_loop idx ((k, v) # cs) acc =
     (let locs = tag_locs (ti_index idx) k v in
      if locs = [] then None
      else case acc of
          None \<Rightarrow> search_loop idx cs (Some locs)
        | Some r \<Rightarrow> (let r = intersectLocs r locs in if r = [] then None else search_loop idx cs (Some r)))"

definition idx_SearchAll :: "tags \<Rightarrow> TagIndex \<Rightarrow> RecordLocator list option" where
  "idx_SearchAll constraints idx = (if constraints = [] then None else search_loop idx constraints None)"

definition idx_Sweep :: "int \<Rightarrow> TagIndex \<Rightarrow> TagIndex" where
  "idx_Sweep now idx =
     (let cutoff = (now - ti_retentionWindow idx) div 1000000000;
          kept = (\<lambda>locs. filter (\<lambda>l. sint (rl_Timestamp l) \<ge> cutoff) locs);
          sweep = (\<lambda>vals. filter (\<lambda>(v, locs). locs \<noteq> []) (map (\<lambda>(v, locs). (v, kept locs)) vals)) in
      idx\<lparr>ti_index := filter (\<lambda>(k, vals). vals \<noteq> []) (map (\<lambda>(k, vals). (k, sweep vals)) (ti_index idx)), ti_lastSweep := now\<rparr>)"

definition idx_Stats :: "TagIndex \<Rightarrow> nat \<times> nat" where
  "idx_Stats idx = (length (ti_index idx), sum_list (map (\<lambda>(k, vals). sum_list (map (length \<circ> snd) vals)) (ti_index idx)))"

section \<open>Points\<close>

abbreviation (input) headerSize :: nat where "headerSize \<equiv> 8"
abbreviation (input) maxBodySize :: nat where "maxBodySize \<equiv> DataPageBodySize"

record Point =
  pt_Timestamp :: u64
  pt_Tags :: bytes
  pt_MetricName :: bytes
  pt_Value :: u64

definition serializedSize :: "Point \<Rightarrow> nat" where
  "serializedSize p = 8 + 2 + length (pt_Tags p) + 2 + length (pt_MetricName p) + 8"

text \<open>The fields of a record, written one after the other from an offset on, as in \<open>AppendPoint\<close> and
  \<open>encodeRawPoint\<close>; the offset behind them is returned as well.\<close>

definition put_point :: "Point \<Rightarrow> nat \<Rightarrow> bytes \<Rightarrow> bytes \<times> nat" where
  "put_point pt off body =
     (let body = copy_at off (put_le 8 (pt_Timestamp pt)) body; off = off + 8;
          body = copy_at off (put_le 2 (of_nat (length (pt_Tags pt)) :: u16)) body; off = off + 2;
          body = copy_at off (pt_Tags pt) body; off = off + length (pt_Tags pt);
          body = copy_at off (put_le 2 (of_nat (length (pt_MetricName pt)) :: u16)) body; off = off + 2;
          body = copy_at off (pt_MetricName pt) body; off = off + length (pt_MetricName pt);
          body = copy_at off (put_le 8 (pt_Value pt)) body; off = off + 8 in
      (body, off))"

definition encodeRawPoint :: "Point \<Rightarrow> bytes" where
  "encodeRawPoint pt = fst (put_point pt 0 (zero_bytes (serializedSize pt)))"

definition zero_point :: "Point" where
  "zero_point = \<lparr>pt_Timestamp = 0, pt_Tags = [], pt_MetricName = [], pt_Value = 0\<rparr>"

text \<open>\<open>decodeRawPoint\<close> checks every length but that of the name's length field, where the code panics.\<close>

definition decodeRawPoint :: "bytes \<Rightarrow> metrics_err + Point \<times> nat" where
  "decodeRawPoint data =
     (if length data < 8 + 2 + 2 + 8 then Inr (zero_point, 0)
      else
        let tagsLen = unat (get_le (gslice 8 10 data) :: u16); off = 10 in
        if off + tagsLen > length data then Inr (zero_point, 0)
        else
          let tags = gslice off (off + tagsLen) data; off = off + tagsLen in
          if off + 2 > length data then Inl MErrPanic
          else
            let nameLen = unat (get_le (gslice off (off + 2) data) :: u16); off = off + 2 in
            if off + nameLen > length data then Inr (zero_point, 0)
            else
              let name = gslice off (off + nameLen) data; off = off + nameLen in
              if off + 8 > length data then Inr (zero_point, 0)
              else Inr (\<lparr>pt_Timestamp = get_le (gslice 0 8 data), pt_Tags = tags, pt_MetricName = name,
                pt_Value = get_le (gslice off (off + 8) data)\<rparr>, off + 8))"

text \<open>One round of the loop of \<open>decodePage\<close>: the point at an offset and the offset behind it, or a \<open>break\<close>.\<close>

definition read_point :: "bytes \<Rightarrow> nat \<Rightarrow> (Point \<times> nat) option" where
  "read_point body off =
     (if off + 8 > length body then None
      else
        let ts = get_le (gslice off (off + 8) body); off = off + 8 in
        if off + 2 > length body then None
        else
          let tagsLen = unat (get_le (gslice off (off + 2) body) :: u16); off = off + 2 in
          if off + tagsLen > length body then None
          else
            let tags = gslice off (off + tagsLen) body; off = off + tagsLen in
            if off + 2 > length body then None
            else
              let nameLen = unat (get_le (gslice off (off + 2) body) :: u16); off = off + 2 in
              if off + nameLen > length body then None
              else
                let name = gslice off (off + nameLen) body; off = off + nameLen in
                if off + 8 > length body then None
                else Some (\<lparr>pt_Timestamp = ts, pt_Tags = tags, pt_MetricName = name,
                  pt_Value = get_le (gslice off (off + 8) body)\<rparr>, off + 8))"

fun decode_points :: "nat \<Rightarrow> bytes \<Rightarrow> nat \<Rightarrow> Point list" where
  "decode_points 0 body off = []"
| "decode_points (Suc n) body off =
     (case read_point body off of None \<Rightarrow> [] | Some (pt, off) \<Rightarrow> pt # decode_points n body off)"

definition decodePage :: "bytes \<Rightarrow> Point list" where
  "decodePage body =
     (if length body < headerSize then []
      else decode_points (unat (get_le (gslice 0 4 body) :: u32)) body headerSize)"

section \<open>The store\<close>

record MetricsStore =
  ms_pager :: filePager
  ms_currentPageID :: u64
  ms_currentBody :: bytes
  ms_opened :: bool
  ms_tagIndex :: "TagIndex option"

definition NewStoreWithIndex :: "filePager \<Rightarrow> TagIndex option \<Rightarrow> MetricsStore" where
  "NewStoreWithIndex pg idx = \<lparr>ms_pager = pg, ms_currentPageID = 0, ms_currentBody = [], ms_opened = False, ms_tagIndex = idx\<rparr>"

definition ms_writeHeader :: "u32 \<Rightarrow> u32 \<Rightarrow> MetricsStore \<Rightarrow> MetricsStore" where
  "ms_writeHeader numPoints nextWriteOffset s =
     s\<lparr>ms_currentBody := put_header numPoints nextWriteOffset (ms_currentBody s)\<rparr>"

definition readNumPoints :: "MetricsStore \<Rightarrow> u32" where
  "readNumPoints s = get_le (gslice 0 4 (ms_currentBody s))"

definition readNextWriteOffset :: "MetricsStore \<Rightarrow> u32" where
  "readNextWriteOffset s = get_le (gslice 4 8 (ms_currentBody s))"

definition ms_flushPage :: "ctx \<Rightarrow> MetricsStore \<Rightarrow> MetricsStore \<times> (metrics_err + unit)" where
  "ms_flushPage ctx s =
     (case WritePage ctx (ms_currentPageID s) (ms_currentBody s) (ms_pager s) of (p, r) \<Rightarrow>
      (s\<lparr>ms_pager := p\<rparr>, map_sum MErrPager id r))"

definition ms_Open :: "ctx \<Rightarrow> MetricsStore \<Rightarrow> MetricsStore \<times> (metrics_err + unit)" where
  "ms_Open ctx s =
     (if ms_opened s then (s, Inl MErrStoreAlreadyOpen)
      else
        case pager_Open ctx (ms_pager s) of (p, r) \<Rightarrow>
        let s = s\<lparr>ms_pager := p\<rparr> in
        case r of Inl e \<Rightarrow> (s, Inl (MErrPager e)) | Inr _ \<Rightarrow>
        case PageCount p of Inl e \<Rightarrow> (s, Inl (MErrPager e)) | Inr pageCount \<Rightarrow>
        if pageCount \<le> 2 then
          (case AllocatePage ctx p of
             (p, Inl e) \<Rightarrow> (s\<lparr>ms_pager := p\<rparr>, Inl (MErrPager e))
           | (p, Inr pageID) \<Rightarrow>
             (case ms_flushPage ctx (ms_writeHeader 0 (of_nat headerSize)
                 (s\<lparr>ms_pager := p, ms_currentPageID := pageID, ms_currentBody := zero_bytes maxBodySize\<rparr>)) of
                (s, Inl e) \<Rightarrow> (s, Inl e)
              | (s, Inr _) \<Rightarrow> (s\<lparr>ms_opened := True\<rparr>, Inr ())))
        else
          let lastID = pageCount - 1; s = s\<lparr>ms_currentPageID := lastID\<rparr> in
          case ReadPage ctx lastID p of
            Inl e \<Rightarrow> (s, Inl (MErrPager e))
          | Inr body \<Rightarrow> (s\<lparr>ms_currentBody := copy_at 0 body (zero_bytes maxBodySize), ms_opened := True\<rparr>, Inr ()))"

definition ms_Close :: "ctx \<Rightarrow> MetricsStore \<Rightarrow> MetricsStore \<times> (metrics_err + unit)" where
  "ms_Close ctx s =
     (if \<not> ms_opened s then (s, Inl MErrStoreNotOpen)
      else case ms_flushPage ctx s of
          (s, Inl e) \<Rightarrow> (s, Inl e)
        | (s, Inr _) \<Rightarrow>
          (case pager_Close (ms_pager s) of (p, r) \<Rightarrow> (s\<lparr>ms_opened := False, ms_pager := p\<rparr>, map_sum MErrPager id r)))"

text \<open>The step of \<open>AppendPoint\<close> to a new page when the record does not fit into the current one; it returns
  the number of points and the offset to go on with.\<close>

definition ms_make_room :: "ctx \<Rightarrow> nat \<Rightarrow> MetricsStore \<Rightarrow> MetricsStore \<times> (metrics_err + u32 \<times> u32)" where
  "ms_make_room ctx recSize s =
     (let numPoints = readNumPoints s; nextOffset = readNextWriteOffset s in
      if unat nextOffset + recSize > maxBodySize then
        (case ms_flushPage ctx s of
           (s, Inl e) \<Rightarrow> (s, Inl e)
         | (s, Inr _) \<Rightarrow>
           (case AllocatePage ctx (ms_pager s) of
              (p, Inl e) \<Rightarrow> (s\<lparr>ms_pager := p\<rparr>, Inl (MErrPager e))
            | (p, Inr newPageID) \<Rightarrow>
              (ms_writeHeader 0 (of_nat headerSize)
                 (s\<lparr>ms_pager := p, ms_currentPageID := newPageID, ms_currentBody := zero_bytes maxBodySize\<rparr>),
               Inr (0, of_nat headerSize))))
      else (s, Inr (numPoints, nextOffset)))"

definition ms_index_point :: "Point \<Rightarrow> nat \<Rightarrow> MetricsStore \<Rightarrow> MetricsStore \<times> (metrics_err + unit)" where
  "ms_index_point pt offset s =
     (case ms_tagIndex s of
        None \<Rightarrow> (s, Inr ())
      | Some idx \<Rightarrow>
        if pt_Tags pt = [] then (s, Inr ())
        else (case idx_Insert (pt_Tags pt)
                \<lparr>rl_PageID = ms_currentPageID s, rl_Offset = of_nat (offset - serializedSize pt), rl_Timestamp = pt_Timestamp pt\<rparr> idx of
                Inl e \<Rightarrow> (s, Inl e)
              | Inr idx \<Rightarrow> (s\<lparr>ms_tagIndex := Some idx\<rparr>, Inr ())))"

definition AppendPoint :: "ctx \<Rightarrow> Point \<Rightarrow> MetricsStore \<Rightarrow> MetricsStore \<times> (metrics_err + unit)" where
  "AppendPoint ctx pt s =
     (if \<not> ms_opened s then (s, Inl MErrStoreNotOpen)
      else if serializedSize pt > maxBodySize - headerSize then (s, Inl MErrRecordTooLarge)
      else case ms_make_room ctx (serializedSize pt) s of
          (s, Inl e) \<Rightarrow> (s, Inl e)
        | (s, Inr (numPoints, nextOffset)) \<Rightarrow>
          (case put_point pt (unat nextOffset) (ms_currentBody s) of (body, offset) \<Rightarrow>
           case ms_index_point pt offset (ms_writeHeader (numPoints + 1) (of_nat offset) (s\<lparr>ms_currentBody := body\<rparr>)) of
             (s, Inl e) \<Rightarrow> (s, Inl e)
           | (s, Inr _) \<Rightarrow> ms_flushPage ctx s))"

text \<open>The identifiers of the data pages below a page count, in the order of the scanning loops.\<close>

definition data_page_ids :: "u64 \<Rightarrow> u64 list" where
  "data_page_ids pageCount = map of_nat [2..<unat pageCount]"

fun select_points :: "u64 \<Rightarrow> u64 \<Rightarrow> tags \<Rightarrow> Point list \<Rightarrow> metrics_err + Point list" where
  "select_points start stop tags [] = Inr []"
| "select_points start stop tags (pt # pts) =
     (if sint (pt_Timestamp pt) < sint start \<or> sint (pt_Timestamp pt) > sint stop then select_points start stop tags pts
      else case matchTags (pt_Tags pt) tags of
          Inl e \<Rightarrow> Inl e
        | Inr m \<Rightarrow> (case select_points start stop tags pts of
              Inl e \<Rightarrow> Inl e
            | Inr rs \<Rightarrow> Inr (if m then pt # rs else rs)))"

fun ms_scan_pages :: "ctx \<Rightarrow> u64 \<Rightarrow> u64 \<Rightarrow> tags \<Rightarrow> u64 list \<Rightarrow> filePager \<Rightarrow> metrics_err + Point list" where
  "ms_scan_pages ctx start stop tags [] p = Inr []"
| "ms_scan_pages ctx start stop tags (i # ids) p =
     (case ReadPage ctx i p of
        Inl e \<Rightarrow> Inl (MErrPager e)
      | Inr body \<Rightarrow> (case select_points start stop tags (decodePage body) of
            Inl e \<Rightarrow> Inl e
          | Inr rs \<Rightarrow> (case ms_scan_pages ctx start stop tags ids p of Inl e \<Rightarrow> Inl e | Inr rs' \<Rightarrow> Inr (rs @ rs'))))"

definition ms_ScanRange :: "ctx \<Rightarrow> u64 \<Rightarrow> u64 \<Rightarrow> tags \<Rightarrow> MetricsStore \<Rightarrow> metrics_err + Point list" where
  "ms_ScanRange ctx start stop tags s =
     (if \<not> ms_opened s then Inl MErrStoreNotOpen
      else case PageCount (ms_pager s) of
          Inl e \<Rightarrow> Inl (MErrPager e)
        | Inr pageCount \<Rightarrow> ms_scan_pages ctx start stop tags (data_page_ids pageCount) (ms_pager s))"

definition group_locs :: "RecordLocator list \<Rightarrow> (u64 \<times> u32 list) list" where
  "group_locs locs = fold (\<lambda>l m. AList.update (rl_PageID l)
     ((case map_of m (rl_PageID l) of None \<Rightarrow> [] | Some offs \<Rightarrow> offs) @ [rl_Offset l]) m) locs []"

fun points_at :: "u64 \<Rightarrow> u64 \<Rightarrow> bytes \<Rightarrow> u32 list \<Rightarrow> metrics_err + Point list" where
  "points_at start stop body [] = Inr []"
| "points_at start stop body (off # offs) =
     (if unat off \<ge> length body then points_at start stop body offs
      else case decodeRawPoint (drop (unat off) body) of
          Inl e \<Rightarrow> Inl e
        | Inr (pt, consumed) \<Rightarrow>
          map_sum id (\<lambda>rs. if consumed \<noteq> 0 \<and> sint (pt_Timestamp pt) \<ge> sint start \<and> (stop = 0 \<or> sint (pt_Timestamp pt) \<le> sint stop)
             then pt # rs else rs) (points_at start stop body offs))"

fun read_groups :: "ctx \<Rightarrow> u64 \<Rightarrow> u64 \<Rightarrow> (u64 \<times> u32 list) list \<Rightarrow> filePager \<Rightarrow> metrics_err + Point list" where
  "read_groups ctx start stop [] p = Inr []"
| "read_groups ctx start stop ((i, offs) # gs) p =
     (case ReadPage ctx i p of
        Inl _ \<Rightarrow> read_groups ctx start stop gs p
      | Inr body \<Rightarrow> (case points_at start stop body offs of
            Inl e \<Rightarrow> Inl e
          | Inr rs \<Rightarrow> map_sum id ((@) rs) (read_groups ctx start stop gs p)))"

definition readLocations :: "ctx \<Rightarrow> RecordLocator list \<Rightarrow> u64 \<Rightarrow> u64 \<Rightarrow> MetricsStore \<Rightarrow> metrics_err + Point list" where
  "readLocations ctx locs start stop s = read_groups ctx start stop (group_locs locs) (ms_pager s)"

definition ms_ScanRangeWithIndex :: "ctx \<Rightarrow> u64 \<Rightarrow> u64 \<Rightarrow> tags \<Rightarrow> MetricsStore \<Rightarrow> metrics_err + Point list" where
  "ms_ScanRangeWithIndex ctx start stop tags s =
     (if \<not> ms_opened s then Inl MErrStoreNotOpen
      else case (case ms_tagIndex s of None \<Rightarrow> None | Some idx \<Rightarrow> if tags = [] then None else idx_SearchAll tags idx) of
          Some locs \<Rightarrow> readLocations ctx locs start stop s
        | None \<Rightarrow> ms_ScanRange ctx start stop tags s)"

end
