(* ===== verification/Metrics_Props.thy ===== *)
theory Metrics_Props
  imports Metrics_Store
begin

text \<open>
  The store of metric points keeps what is appended to it: a scan returns the points of the range
  that carry the tags, in the order of their appending, also after closing and reopening.
\<close>

section \<open>The layout of a point\<close>

definition point_bytes :: "Point \<Rightarrow> bytes" where
  "point_bytes pt = put_le 8 (pt_Timestamp pt) @ put_le 2 (of_nat (length (pt_Tags pt)) :: u16) @ pt_Tags pt
     @ put_le 2 (of_nat (length (pt_MetricName pt)) :: u16) @ pt_MetricName pt @ put_le 8 (pt_Value pt)"

definition point_ok :: "Point \<Rightarrow> bool" where
  "point_ok pt \<longleftrightarrow> serializedSize pt \<le> 4076"

lemma length_point_bytes [simp]: "length (point_bytes pt) = serializedSize pt"
  by (simp add: point_bytes_def serializedSize_def)

lemma put_point_eq:
  assumes "off + serializedSize pt \<le> length body"
  shows "put_point pt off body = (copy_at off (point_bytes pt) body, off + serializedSize pt)"
  using assms by (simp add: put_point_def point_bytes_def serializedSize_def copy_at_adjacent_at Let_def)

lemma encodeRawPoint_eq: "encodeRawPoint = point_bytes"
proof
  show "encodeRawPoint pt = point_bytes pt" for pt
    using put_point_eq [of 0 pt "zero_bytes (serializedSize pt)"] by (simp add: encodeRawPoint_def copy_at_def)
qed

lemma point_fields:
  assumes "point_ok pt"
  shows "unat (of_nat (length (pt_Tags pt)) :: u16) = length (pt_Tags pt)"
    "unat (of_nat (length (pt_MetricName pt)) :: u16) = length (pt_MetricName pt)"
  using assms by (auto simp: point_ok_def serializedSize_def unat_of_nat)

text \<open>Reading a buffer in which the bytes of a point start at \<open>off\<close>.\<close>

lemma slice_at:
  "gslice off (off + n) body = xs \<Longrightarrow> off \<le> c \<Longrightarrow> d \<le> off + n \<Longrightarrow> gslice c d body = gslice (c - off) (d - off) xs"
  using gslice_slice [of "d - off" "off + n" off "c - off" body] by (cases "off \<le> d") (auto simp: gslice_def)

lemma point_bytes_slices:
  "gslice 0 8 (point_bytes pt) = put_le 8 (pt_Timestamp pt)"
  "gslice 8 10 (point_bytes pt) = put_le 2 (of_nat (length (pt_Tags pt)) :: u16)"
  "gslice 10 (10 + length (pt_Tags pt)) (point_bytes pt) = pt_Tags pt"
  "gslice (10 + length (pt_Tags pt)) (12 + length (pt_Tags pt)) (point_bytes pt) = put_le 2 (of_nat (length (pt_MetricName pt)) :: u16)"
  "gslice (12 + length (pt_Tags pt)) (12 + (length (pt_Tags pt) + length (pt_MetricName pt))) (point_bytes pt) = pt_MetricName pt"
  "gslice (12 + (length (pt_Tags pt) + length (pt_MetricName pt))) (20 + (length (pt_Tags pt) + length (pt_MetricName pt))) (point_bytes pt)
    = put_le 8 (pt_Value pt)"
  by (simp_all add: point_bytes_def gslice_def)

lemma read_point_ok:
  assumes "gslice off (off + serializedSize pt) body = point_bytes pt" "off + serializedSize pt \<le> length body" "point_ok pt"
  shows "read_point body off = Some (pt, off + serializedSize pt)"
proof -
  have g: "gslice c d body = gslice (c - off) (d - off) (point_bytes pt)"
    if "off \<le> c" "d \<le> off + (8 + 2 + length (pt_Tags pt) + 2 + length (pt_MetricName pt) + 8)" for c d
    using slice_at [OF assms(1) that(1)] that(2) by (simp add: serializedSize_def)
  show ?thesis using point_fields [OF assms(3)] assms(2)
    by (simp add: read_point_def Let_def g point_bytes_slices get_put_le_u64 get_put_le_u16 serializedSize_def)
qed

lemma decodeRawPoint_ok:
  assumes "gslice off (off + serializedSize pt) body = point_bytes pt" "off + serializedSize pt \<le> length body" "point_ok pt"
  shows "decodeRawPoint (drop off body) = Inr (pt, serializedSize pt)"
proof -
  have "gslice c d (drop off body) = gslice (off + c) (off + d) body" for c d by (simp add: gslice_def add.commute)
  then have g: "gslice c d (drop off body) = gslice c d (point_bytes pt)"
    if "d \<le> 8 + 2 + length (pt_Tags pt) + 2 + length (pt_MetricName pt) + 8" for c d
    using slice_at [OF assms(1), of "off + c" "off + d"] that by (simp add: serializedSize_def)
  have "20 + (length (pt_Tags pt) + length (pt_MetricName pt)) \<le> length body - off" using assms(2) by (simp add: serializedSize_def)
  then show ?thesis using point_fields [OF assms(3)]
    by (simp add: decodeRawPoint_def Let_def g point_bytes_slices get_put_le_u64 get_put_le_u16 serializedSize_def add.assoc)
qed

section \<open>The store\<close>

lemma decode_points_ok:
  "gslice off (off + length (concat (map encodeRawPoint rs))) b = concat (map encodeRawPoint rs) \<Longrightarrow>
   off + length (concat (map encodeRawPoint rs)) \<le> length b \<Longrightarrow> \<forall>r \<in> set rs. point_ok r \<Longrightarrow>
   decode_points (length rs) b off = rs"
proof (induction rs arbitrary: off)
  case (Cons r rs)
  let ?n = "serializedSize r"
  have "gslice off (off + length (point_bytes r @ concat (map encodeRawPoint rs))) b = point_bytes r @ concat (map encodeRawPoint rs)"
    using Cons.prems(1) by (simp add: encodeRawPoint_eq)
  from gslice_appendD [OF this] show ?case using Cons.IH [of "off + ?n"] Cons.prems(2,3) read_point_ok [of off r b]
    by (simp add: encodeRawPoint_eq add.assoc)
qed simp

lemma encodeRawPoint_nonempty: "encodeRawPoint r \<noteq> []"
proof
  assume "encodeRawPoint r = []"
  then have "length (point_bytes r) = 0" by (simp add: encodeRawPoint_eq)
  then show False by (simp add: serializedSize_def)
qed

lemma count_small:
  assumes "page_of h (map enc rs) b" "\<forall>r \<in> set rs. enc r \<noteq> []"
  shows "unat (of_nat (length rs) :: u32) = length rs"
proof -
  have "length rs \<le> length (concat (map enc rs))" using assms(2)
  proof (induction rs)
    case (Cons r rs)
    then show ?case by (cases "enc r") auto
  qed simp
  then show ?thesis using assms(1) by (simp add: page_of_def unat_of_nat)
qed

interpretation points: record_codec 8 encodeRawPoint point_ok decodePage
proof
  show "encodeRawPoint r \<noteq> []" for r by (rule encodeRawPoint_nonempty)
next
  fix rs b assume p: "page_of 8 (map encodeRawPoint rs) b" and ok: "\<forall>r \<in> set rs. point_ok r"
  have ne: "\<forall>r \<in> set rs. encodeRawPoint r \<noteq> []" using encodeRawPoint_nonempty by blast
  show "decodePage b = rs"
    using page_of_header(1) [OF p] count_small [OF p ne] decode_points_ok [of 8 rs b] p ok
    by (simp add: decodePage_def page_of_def)
qed simp_all

definition ms_rel :: "MetricsStore \<Rightarrow> Point list \<Rightarrow> bool" where
  "ms_rel s pts \<longleftrightarrow> ms_opened s \<and> points.stores (ms_pager s) (ms_currentPageID s) (ms_currentBody s) pts"

lemma splitTagPairs_ok: "tags \<noteq> [123] \<Longrightarrow> \<exists>m. splitTagPairs tags = Inr m"
  by (cases tags) (auto simp: splitTagPairs_def)

lemma index_point_ok:
  assumes "pt_Tags pt \<noteq> [123]"
  shows "\<exists>idx. ms_index_point pt off s = (s\<lparr>ms_tagIndex := idx\<rparr>, Inr ())"
proof (cases "ms_tagIndex s = None \<or> pt_Tags pt = []")
  case True
  then have "ms_index_point pt off s = (s\<lparr>ms_tagIndex := ms_tagIndex s\<rparr>, Inr ())" by (auto simp: ms_index_point_def split: option.split)
  then show ?thesis by blast
next
  case False
  then show ?thesis using splitTagPairs_ok [OF assms] by (auto simp: ms_index_point_def idx_Insert_def)
qed

text \<open>The page body that \<open>AppendPoint\<close> writes.\<close>

lemma put_point_added:
  assumes "page_of 8 (map encodeRawPoint rs) b" "unat (get_le (gslice 4 8 b) :: u32) + serializedSize pt \<le> 4084"
    and "put_point pt (unat (get_le (gslice 4 8 b) :: u32)) b = (b', off)"
  shows "put_header (get_le (gslice 0 4 b) + 1) (of_nat off) b' = points.added pt b" "off = unat (get_le (gslice 4 8 b) :: u32) + serializedSize pt"
proof -
  have "length b = 4084" using assms(1) by (simp add: page_of_def)
  then have "put_point pt (unat (get_le (gslice 4 8 b) :: u32)) b =
    (copy_at (unat (get_le (gslice 4 8 b) :: u32)) (point_bytes pt) b, unat (get_le (gslice 4 8 b) :: u32) + serializedSize pt)"
    using put_point_eq assms(2) by simp
  then show "put_header (get_le (gslice 0 4 b) + 1) (of_nat off) b' = points.added pt b" "off = unat (get_le (gslice 4 8 b) :: u32) + serializedSize pt"
    using assms(3) unfolding points.added_def Let_def by (simp_all add: encodeRawPoint_eq)
qed

text \<open>The second half of \<open>AppendPoint\<close>: the record is written into the page with body \<open>b\<close>.\<close>

definition write_point :: "Point \<Rightarrow> MetricsStore \<Rightarrow> MetricsStore \<times> (metrics_err + unit)" where
  "write_point pt s =
     (case put_point pt (unat (readNextWriteOffset s)) (ms_currentBody s) of (body, offset) \<Rightarrow>
      case ms_index_point pt offset (ms_writeHeader (readNumPoints s + 1) (of_nat offset) (s\<lparr>ms_currentBody := body\<rparr>)) of
        (s, Inl e) \<Rightarrow> (s, Inl e)
      | (s, Inr _) \<Rightarrow> ms_flushPage None s)"

lemma write_point_ok:
  assumes "page_of 8 (map encodeRawPoint rs) (ms_currentBody s)" "pt_Tags pt \<noteq> [123]"
    and "unat (readNextWriteOffset s) + serializedSize pt \<le> 4084"
    and "WritePage None (ms_currentPageID s) (points.added pt (ms_currentBody s)) (ms_pager s) = (q, Inr ())"
  shows "\<exists>idx. write_point pt s =
    (s\<lparr>ms_currentBody := points.added pt (ms_currentBody s), ms_tagIndex := idx, ms_pager := q\<rparr>, Inr ())"
proof -
  obtain b off where b: "put_point pt (unat (readNextWriteOffset s)) (ms_currentBody s) = (b, off)" by fastforce
  note a = put_point_added [OF assms(1) assms(3) [unfolded readNextWriteOffset_def] b [unfolded readNextWriteOffset_def]]
  let ?s = "s\<lparr>ms_currentBody := points.added pt (ms_currentBody s)\<rparr>"
  have h: "ms_writeHeader (readNumPoints s + 1) (of_nat off) (s\<lparr>ms_currentBody := b\<rparr>) = ?s"
    using a(1) by (simp add: ms_writeHeader_def readNumPoints_def)
  obtain idx where "ms_index_point pt off ?s = (?s\<lparr>ms_tagIndex := idx\<rparr>, Inr ())" using index_point_ok [OF assms(2)] by blast
  then have "write_point pt s = ms_flushPage None (?s\<lparr>ms_tagIndex := idx\<rparr>)" by (simp add: write_point_def b h)
  then show ?thesis using assms(4) by (auto simp: ms_flushPage_def)
qed

lemma AppendPoint_rel:
  assumes "ms_rel s pts" "point_ok pt" "pt_Tags pt \<noteq> [123]" "length pts < 2251799813685244"
  shows "\<exists>s'. AppendPoint None pt s = (s', Inr ()) \<and> ms_rel s' (pts @ [pt])"
proof -
  let ?p = "ms_pager s" and ?i = "ms_currentPageID s" and ?b = "ms_currentBody s"
  have s: "ms_opened s" "points.stores ?p ?i ?b pts" using assms(1) by (simp_all add: ms_rel_def)
  have size: "\<not> serializedSize pt > 4084 - 8" "length (encodeRawPoint pt) = serializedSize pt"
    using assms(2) by (simp_all add: point_ok_def encodeRawPoint_eq)
  obtain lst where lst: "page_of 8 (map encodeRawPoint lst) ?b" using s(2) unfolding points.stores_def by blast
  show ?thesis
  proof (cases "unat (readNextWriteOffset s) + serializedSize pt \<le> 4084")
    case True
    then obtain q where q: "WritePage None ?i (points.added pt ?b) ?p = (q, Inr ())" "points.stores q ?i (points.added pt ?b) (pts @ [pt])"
      using points.stores_append [OF s(2) assms(2)] size(2) by (auto simp: readNextWriteOffset_def)
    have "AppendPoint None pt s = write_point pt s"
      using True s(1) size(1) by (simp add: AppendPoint_def ms_make_room_def write_point_def split: prod.split)
    then show ?thesis using write_point_ok [OF lst assms(3) True q(1)] q(2) s(1) by (auto simp: ms_rel_def)
  next
    case False
    then have big: "4084 < unat (get_le (gslice 4 8 ?b) :: u32) + length (encodeRawPoint pt)" using size(2) by (simp add: readNextWriteOffset_def)
    have "8 + length (encodeRawPoint pt) \<le> 4084" using size by simp
    from points.stores_next_page [OF s(2) assms(2) big this assms(4)]
    obtain p1 p2 p3 i where w: "WritePage None ?i ?b ?p = (p1, Inr ())" "AllocatePage None p1 = (p2, Inr i)"
      "WritePage None i (points.added pt points.empty_page) p2 = (p3, Inr ())"
      "points.stores p3 i (points.added pt points.empty_page) (pts @ [pt])" by blast
    let ?s = "s\<lparr>ms_pager := p2, ms_currentPageID := i, ms_currentBody := points.empty_page\<rparr>"
    have e: "page_of 8 (map encodeRawPoint []) points.empty_page" using page_of_empty [of 8] by simp
    have o: "readNumPoints ?s = 0" "readNextWriteOffset ?s = 8"
      using page_of_header(1,2) [OF e] by (simp_all add: readNumPoints_def readNextWriteOffset_def)
    have "ms_make_room None (serializedSize pt) s = (?s, Inr (0, 8))"
      using False w(1,2) by (simp add: ms_make_room_def ms_flushPage_def ms_writeHeader_def)
    then have "AppendPoint None pt s = write_point pt ?s"
      using s(1) size(1) o by (simp add: AppendPoint_def write_point_def split: prod.split)
    moreover have "unat (readNextWriteOffset ?s) + serializedSize pt \<le> 4084" using o(2) size(1) by simp
    ultimately show ?thesis using write_point_ok [of "[]" ?s pt p3] e w(3,4) assms(3) s(1) by (auto simp: ms_rel_def)
  qed
qed

section \<open>Scanning\<close>

definition point_in :: "u64 \<Rightarrow> u64 \<Rightarrow> tags \<Rightarrow> Point \<Rightarrow> bool" where
  "point_in start stop tags pt \<longleftrightarrow> sint start \<le> sint (pt_Timestamp pt) \<and> sint (pt_Timestamp pt) \<le> sint stop
     \<and> matchTags (pt_Tags pt) tags = Inr True"

lemma matchTags_ok: "ts \<noteq> [123] \<Longrightarrow> \<exists>m. matchTags ts tags = Inr m"
  using splitTagPairs_ok [of ts] by (auto simp: matchTags_def)

lemma select_points_filter:
  "\<forall>pt \<in> set pts. pt_Tags pt \<noteq> [123] \<Longrightarrow> select_points start stop tags pts = Inr (filter (point_in start stop tags) pts)"
proof (induction pts)
  case (Cons pt pts)
  then obtain m where "matchTags (pt_Tags pt) tags = Inr m" using matchTags_ok by fastforce
  then show ?case using Cons by (auto simp: point_in_def)
qed simp

lemma scan_pages_concat:
  assumes "\<forall>i < length ids. \<exists>b. ReadPage None (ids ! i) p = Inr b \<and> bs ! i = b" "length bs = length ids"
    and "\<forall>pt \<in> set (concat (map decodePage bs)). pt_Tags pt \<noteq> [123]"
  shows "ms_scan_pages None start stop tags ids p = Inr (filter (point_in start stop tags) (concat (map decodePage bs)))"
  using assms
proof (induction ids arbitrary: bs)
  case (Cons i ids)
  then obtain b bs' where b: "bs = b # bs'" by (cases bs) auto
  have "ReadPage None i p = Inr b" using Cons.prems(1) b by force
  moreover have "ms_scan_pages None start stop tags ids p = Inr (filter (point_in start stop tags) (concat (map decodePage bs')))"
    using Cons.prems b by (intro Cons.IH) force+
  moreover have "select_points start stop tags (decodePage b) = Inr (filter (point_in start stop tags) (decodePage b))"
    using Cons.prems(3) b by (intro select_points_filter) auto
  ultimately show ?case using b by simp
qed simp

lemma data_page_ids_eq: "n \<le> 2251799813685245 \<Longrightarrow> data_page_ids (page_id n) = map page_id [0..<n]"
proof -
  assume "n \<le> 2251799813685245"
  then have "unat (page_id n) = n + 2" by (simp add: unat_page_id)
  moreover have "[2..<n + 2] = map (\<lambda>k. k + 2) [0..<n]" using map_add_upt [of 2 n] by simp
  ultimately show ?thesis by (simp add: data_page_ids_def page_id_def o_def add.commute)
qed

lemma ScanRange_rel:
  assumes "ms_rel s pts" "\<forall>pt \<in> set pts. pt_Tags pt \<noteq> [123]"
  shows "ms_ScanRange None start stop tags s = Inr (filter (point_in start stop tags) pts)"
proof -
  obtain bs where bs: "plog.holds (ms_pager s) bs" "concat (map decodePage bs) = pts"
    using assms(1) points.stores_pages unfolding ms_rel_def by blast
  then have r: "log_ready (ms_pager s)" "data_pages (ms_pager s) = length bs"
    "\<forall>k < length bs. ReadPage None (page_id k) (ms_pager s) = Inr (bs ! k)" by (simp_all add: plog.holds_def)
  have c: "PageCount (ms_pager s) = Inr (page_id (length bs))" using plog.count_law [OF r(1)] r(2) by simp
  have "data_page_ids (page_id (length bs)) = map page_id [0..<length bs]"
    using plog.npages_bound [OF r(1)] r(2) by (intro data_page_ids_eq) simp
  then show ?thesis
    using scan_pages_concat [of "map page_id [0..<length bs]" "ms_pager s" bs start stop tags] r(3) bs(2) assms c
    by (simp add: ms_ScanRange_def ms_rel_def)
qed

section \<open>Opening and closing\<close>

fun append_all :: "Point list \<Rightarrow> MetricsStore \<Rightarrow> MetricsStore \<times> (metrics_err + unit)" where
  "append_all [] s = (s, Inr ())"
| "append_all (pt # pts) s = (case AppendPoint None pt s of (s, Inl e) \<Rightarrow> (s, Inl e) | (s, Inr _) \<Rightarrow> append_all pts s)"

lemma append_all_rel:
  "ms_rel s pre \<Longrightarrow> length pre + length pts < 2251799813685244 \<Longrightarrow> \<forall>pt \<in> set pts. point_ok pt \<and> pt_Tags pt \<noteq> [123] \<Longrightarrow>
   \<exists>s'. append_all pts s = (s', Inr ()) \<and> ms_rel s' (pre @ pts)"
proof (induction pts arbitrary: s pre)
  case (Cons pt pts)
  then obtain s1 where "AppendPoint None pt s = (s1, Inr ())" "ms_rel s1 (pre @ [pt])" using AppendPoint_rel [of s pre pt] by auto
  then show ?case using Cons.IH [of s1 "pre @ [pt]"] Cons.prems(2,3) by auto
qed simp

lemma Open_fresh:
  "\<exists>s. ms_Open None (NewStoreWithIndex (newPager 0 [] [] [] id) idx) = (s, Inr ()) \<and> ms_rel s [] \<and> ms_tagIndex s = idx"
proof -
  have o: "pager_Open None (newPager 0 [] [] [] id) = (freshPager, Inr ())"
    unfolding freshPager_def pager_Open_empty by simp
  have "log_ready freshPager" "data_pages freshPager = 0" using holds_fresh by (simp_all add: plog.holds_def)
  then have c: "PageCount freshPager = Inr 2" using plog.count_law [of freshPager] by (simp add: page_id_def)
  obtain p where p: "AllocatePage None freshPager = (p, Inr (page_id 0))" "plog.holds p [zero_bytes 4084]"
    using plog.holds_alloc [OF holds_fresh] by auto
  obtain q where "WritePage None (page_id 0) points.empty_page p = (q, Inr ())" "points.stores q (page_id 0) points.empty_page []"
    using points.stores_fresh [OF p(2)] by blast
  then show ?thesis using o c p(1) by (simp add: ms_Open_def NewStoreWithIndex_def ms_flushPage_def ms_writeHeader_def ms_rel_def)
qed

lemma Close_reopen:
  assumes "ms_rel s pts" "\<forall>xs. mset (ord xs) = mset xs"
  shows "\<exists>s' t. ms_Close None s = (s', Inr ())
    \<and> ms_Open None (NewStoreWithIndex (newPager 0 (fp_main (ms_pager s')) (fp_wal (ms_pager s')) [] ord) idx) = (t, Inr ()) \<and> ms_rel t pts"
proof -
  let ?i = "ms_currentPageID s" and ?b = "ms_currentBody s"
  obtain p where p: "WritePage None ?i ?b (ms_pager s) = (p, Inr ())" "points.stores p ?i ?b pts"
    using points.stores_flush [of "ms_pager s" ?i ?b pts] assms(1) by (auto simp: ms_rel_def)
  from points.stores_pages [OF p(2)] obtain bs where
    bs: "plog.holds p bs" "bs \<noteq> []" "last bs = ?b" "?i = page_id (length bs - 1)" by auto
  obtain q t where t: "pager_Close p = (q, Inr ())" "pager_Open None (newPager 0 (fp_main q) (fp_wal q) [] ord) = (t, Inr ())" "plog.holds t bs"
    using holds_reopen [OF bs(1) assms(2)] by blast
  then have r: "log_ready t" "data_pages t = length bs" "ReadPage None (page_id (length bs - 1)) t = Inr ?b"
    using bs(2,3) by (auto simp: plog.holds_def last_conv_nth)
  have c: "PageCount t = Inr (page_id (length bs))" using plog.count_law [OF r(1)] r(2) by simp
  have "length bs \<le> 2251799813685245" using plog.npages_bound [OF r(1)] r(2) by simp
  then have "unat (page_id (length bs)) = length bs + 2" by (intro unat_page_id) simp
  then have n: "\<not> page_id (length bs) \<le> 2" using bs(2) by (simp add: word_le_nat_alt)
  have i: "page_id (length bs) - 1 = page_id (length bs - 1)" using bs(2) by (cases bs) (simp_all add: page_id_def)
  have l: "length ?b = 4084" using plog.holds_lengths [OF bs(1)] last_in_set [OF bs(2)] bs(3) by simp
  have st: "points.stores t ?i ?b pts"
  proof (rule points.stores_moved [OF p(2)])
    fix cs assume "plog.holds p cs"
    then have "cs = bs" using bs(1) by (auto simp: plog.holds_def intro: nth_equalityI)
    then show "plog.holds t cs" using t(3) by simp
  qed
  have "copy_at 0 ?b (zero_bytes 4084) = ?b" using l by (simp add: copy_at_def)
  then show ?thesis using p(1) t(1,2) c n i r(3) bs(4) st assms(1)
    by (simp add: ms_Close_def ms_flushPage_def ms_Open_def NewStoreWithIndex_def ms_rel_def Let_def)
qed


definition demo_points :: "Point list" where
  "demo_points = [\<lparr>pt_Timestamp = 10, pt_Tags = [104, 61, 97], pt_MetricName = [99], pt_Value = 0\<rparr>,
     \<lparr>pt_Timestamp = 20, pt_Tags = [104, 61, 98], pt_MetricName = [99], pt_Value = 1\<rparr>,
     \<lparr>pt_Timestamp = 90, pt_Tags = [104, 61, 97], pt_MetricName = [99], pt_Value = 2\<rparr>]"


end
