(* ===== verification/Spec2Isabelle.thy ===== *)
theory Spec2Isabelle
  imports Key Btree_Props Btree_Compact Mem_Store Heap_Refine Planner_Sort Planner_Exec Plan_Cache Schema_Codec Vacuum_Manager
    Gorilla Metrics_Props
begin

text \<open>
  Plomvix (under \<open>src/\<close>) is a database server written in Go.  A statement arrives over the network, is
  parsed, routed to an engine, and executed.  The SQL engine plans a query as a tree of operators
  that read table heaps; a table heap keeps row versions in a key-value store; the store is a tree of
  pages; the pager keeps the pages in a file and makes groups of page writes atomic with a log.  The
  development models this path from the query operators down to the bytes of the files, bottom up.

  \<^bold>\<open>Conventions.\<close>  A Go struct is a record, an error a value of a datatype of the component, a fallible
  function returns a sum with the error on the left, a method takes and returns the state.  Machine
  integers are words of their width, strings and byte slices are lists of 8-bit words, interface
  values are records of their methods over a state.  A loop that need not end is a
  \<open>partial_function (option)\<close>: \<open>None\<close> is not returning, and the properties prove that a result is
  returned.  Mutexes are not modelled: a method is one step, and only
  \<open>Vacuum_Manager\<close> has steps of other goroutines between them.  A context is the error it would report,
  or none.  A panic is an error value (in \<open>Gorilla\<close> and \<open>Plan_Cache\<close>, \<open>None\<close>); nothing is said of the
  state after it.

  \<^bold>\<open>Theories and what they model.\<close>
  \<^item> \<open>Prelude\<close>: byte slices, fixed-width integers of \<open>encoding/binary\<close>, \<open>bytes.Compare\<close>, \<open>hash/crc32\<close>.
  \<^item> \<open>Key\<close>: \<open>sql/key/key.go\<close> and \<open>row.go\<close>, scalar, composite and row keys.  Round trips, order of
    composite keys and of row versions, the end of a prefix range.
  \<^item> \<open>Pager_Codec\<close>, \<open>Pager\<close>: \<open>storage/pager\<close>, the images of pages, headers and log records (\<open>page.go\<close>,
    \<open>header.go\<close>, \<open>wal.go\<close>) and every method of \<open>filePager\<close> (\<open>pager.go\<close>).  The record \<open>filePager\<close> holds
    both files as byte lists and a list of outcomes, one for each file operation, so that any operation
    may fail and a crash is the end of the list: the files are then what the operations so far made
    them.  \<open>Pager_Disk\<close>, \<open>Pager_Inv\<close>, \<open>Pager_Txn\<close>, \<open>Pager_Props\<close>: the invariant, the contract \<open>page_store\<close>
    that the tree store uses, atomicity of a commit under crashes, recovery, allocation.
  \<^item> \<open>Kv_Node\<close>: \<open>sql/kv/node.go\<close>, the images of leaf, internal, overflow and meta pages.
  \<^item> \<open>Btree\<close>, \<open>Btree_Compact\<close>: \<open>sql/kv/btree.go\<close>, every method of \<open>btreeStore\<close>.  \<open>Btree_Inv\<close>, \<open>Btree_Ops\<close>,
    \<open>Btree_Scan\<close>, \<open>Btree_Props\<close>: the trees a store represents, every operation against the finite map
    it represents, and the refinement of an executable specification (\<open>Simulation\<close> is the contract).
  \<^item> \<open>Mem_Store\<close>: \<open>sql/store/store.go\<close>, the in-memory store; it answers as the tree store does.
  \<^item> \<open>Heap\<close>: \<open>sql/heap\<close>, tables of row versions over an interface \<open>KVStore\<close>.  \<open>Heap_Props\<close>, \<open>Heap_Keys\<close>,
    \<open>Heap_Mvcc\<close>, \<open>Heap_Scan\<close>, \<open>Heap_Refine\<close>: row values and keys, the contract \<open>kv_store\<close> and its
    interpretation on the tree store, which version a transaction sees, \<open>Scan\<close>, \<open>Vacuum\<close>, and the
    refinement of a specification in which a row is a list of versions.
  \<^item> \<open>Float64\<close>: the operations on floating point numbers that the planner uses.
  \<^item> \<open>Planner_Expr\<close>, \<open>Planner_Ops\<close>: values and row identifiers (\<open>engine/engine.go\<close>), expressions
    (\<open>sql/planner/binder.go\<close>) and the operators of \<open>sql/planner\<close>, each with \<open>Open\<close>, \<open>Next\<close> and \<open>Close\<close>.
    \<open>Planner_Rows\<close>, \<open>Planner_Join\<close>: the contract \<open>operator\<close> (a stream of rows and then its end), and that
    every operator computes a function on lists of rows.  \<open>Planner_Props\<close>, \<open>Planner_Sort\<close>,
    \<open>Planner_Exec\<close>: type soundness of evaluation, sorting and limits, single-table plans, the
    agreement of the two joins, aggregates over no rows.
  \<^item> \<open>Plan_Cache\<close>: \<open>sql/planner/cache.go\<close>; the cache of plan templates, keyed by strings, refines a bounded
    queue on pairs of fingerprint and schema version.
  \<^item> \<open>Schema_Codec\<close>: \<open>sql/schema/schema.go\<close>, the binary form of column lists, with its round trip.
  \<^item> \<open>Vacuum_Manager\<close>: \<open>sql/vacuum/vacuum.go\<close>, the workers that delete files, as a step relation over all
    interleavings.  Stopping them ends, with every accepted deletion carried out exactly once.
  \<^item> \<open>Gorilla\<close>: \<open>engine/metrics/gorilla.go\<close>, the bit-level compression of timestamps and values.  Series
    decode to themselves; the one difference of differences (64) for which they do not.
  \<^item> \<open>Page_Log\<close>, \<open>Metrics_Store\<close>, \<open>Metrics_Props\<close>: \<open>engine/metrics/store.go\<close> and \<open>index.go\<close>, the append-only
    store of metric points over the pager and its tag index.  \<open>Page_Log\<close> has the contracts \<open>page_log\<close> (a
    pager that never frees a page is a growing list of bodies) and \<open>record_codec\<close> (a page gives back the
    records written into it), interpreted on the pager and on the point format.  A scan returns what was
    appended, also after reopening.

  \<^bold>\<open>Bounds and fuel.\<close>  The consistency check of a tree takes one more than the page count as a bound on
  its depth, and is proved never to use it up.  The tree store is proved correct for keys of at most
  63 bytes (the limit in the code) and values of at most 512 bytes (those that need no overflow
  pages), and for runs of at most 2^25 operations from an empty file, which the page numbers
  suffice for.  A metrics store is proved correct up to 2^51 - 4 points, the page numbers again.
  Tables are proved correct for primary keys of numbers and strings, where equal versions of a row
  cannot occur; with byte-string keys the range of a key also contains longer keys.
  \<open>sort.Slice\<close> and \<open>sort.SliceStable\<close> are insertion sorts; for a strict weak order, which the proofs
  establish, the result does not depend on the algorithm.  The iteration order of a Go map is the
  insertion order; no property depends on it.

  \<^bold>\<open>Not modelled.\<close>  The SQL parser is a third-party package, so parsing, routing, the translation of
  statement trees into plans and the statement handlers of the engine, which walk its trees, are left
  out; so are the network server, configuration, logging and process control (input and output), the
  catalog, the logs engine, and the statement handlers and the rollup worker of the metrics engine.  The
  scan of metric points through the tag index is modelled without a property.  \<open>Compact\<close> and
  overflow chains of the tree store are modelled without a correctness proof.
\<close>

end
